(* ===== verification/Prelude.thy ===== *)
theory Prelude
  imports Main "HOL-Library.Word" "HOL-Library.AList" "HOL-Library.Multiset" "HOL-Library.Code_Target_Nat"
begin

text \<open>
  Shared vocabulary of the development: names for the machine integers and byte strings of
  the Go sources, the outcome of Go code that may panic, the big-endian codecs of
  \<^verbatim>\<open>encoding/binary\<close>, and Go maps as association lists with distinct keys.

  A Go \<^verbatim>\<open>map\<close> is ranged over in an unspecified order and its length is taken by the code, so
  it is modelled by an association list with distinct keys: every theorem quantifies over all
  such lists and hence over all iteration orders.
\<close>

section \<open>Machine types\<close>

type_synonym u8 = "8 word"
type_synonym u16 = "16 word"
type_synonym u32 = "32 word"
type_synonym u64 = "64 word"

text \<open>A Go \<^verbatim>\<open>[]byte\<close> and a Go \<^verbatim>\<open>string\<close> are both sequences of bytes.\<close>

type_synonym bytes = "u8 list"
type_synonym gostring = "u8 list"

text \<open>A \<^verbatim>\<open>time.Time\<close> and a \<^verbatim>\<open>time.Duration\<close> count nanoseconds.\<close>

type_synonym time = int
type_synonym duration = int

text \<open>Nanoseconds per millisecond and per second, \<^verbatim>\<open>time.Millisecond\<close> and \<^verbatim>\<open>time.Second\<close>.\<close>

definition Millisecond :: duration where
  "Millisecond = 1000000"

definition Second :: duration where
  "Second = 1000000000"

section \<open>Collections of facts\<close>

named_theorems codec_simps \<open>length and inversion laws of the byte codecs\<close>
named_theorems gomap_simps \<open>lookup laws of the Go map operations\<close>

section \<open>Outcomes: a value, or a panic\<close>

datatype 'a go = Ret 'a | Panic

fun go_bind :: "'a go \<Rightarrow> ('a \<Rightarrow> 'b go) \<Rightarrow> 'b go" where
  "go_bind (Ret x) f = f x"
| "go_bind Panic f = Panic"

lemma go_bind_Ret_iff: "go_bind m f = Ret y \<longleftrightarrow> (\<exists>x. m = Ret x \<and> f x = Ret y)"
  by (cases m) auto

section \<open>Big-endian integers\<close>

lemma unat_bound: "unat (w :: 'a::len word) < 2 ^ LENGTH('a)"
  by (rule unsigned_less)

text \<open>The \<open>n\<close> low bytes of a number, most significant first.\<close>

fun nat_to_be :: "nat \<Rightarrow> nat \<Rightarrow> bytes" where
  "nat_to_be 0 x = []"
| "nat_to_be (Suc n) x = of_nat (x div 256 ^ n) # nat_to_be n x"

fun be_to_nat :: "bytes \<Rightarrow> nat" where
  "be_to_nat [] = 0"
| "be_to_nat (b # bs) = unat b * 256 ^ length bs + be_to_nat bs"

lemma length_nat_to_be [simp]: "length (nat_to_be n x) = n"
  by (induction n) auto

lemma be_to_nat_less: "be_to_nat bs < 256 ^ length bs"
proof (induction bs)
  case Nil
  then show ?case by simp
next
  case (Cons b bs)
  have "unat b < 256"
    using unat_bound [of b] by simp
  then have "(unat b + 1) * 256 ^ length bs \<le> (256::nat) * 256 ^ length bs"
    by (intro mult_right_mono) auto
  with Cons.IH have "unat b * 256 ^ length bs + be_to_nat bs < 256 * 256 ^ length bs"
    by (simp only: distrib_right mult_1)
  then show ?case by simp
qed

lemma nat_to_be_mod: "k \<ge> n \<Longrightarrow> nat_to_be n (x mod 256 ^ k) = nat_to_be n x"
proof (induction n)
  case 0
  then show ?case by simp
next
  case (Suc n)
  then obtain j where k: "k = n + Suc j"
    by (metis add_Suc_right le_Suc_ex add_Suc)
  have "x mod 256 ^ k div 256 ^ n = x div 256 ^ n mod 256 ^ Suc j"
    by (simp only: k power_add div_mult2_eq mod_mult2_eq) simp
  then have "(of_nat (x mod 256 ^ k div 256 ^ n) :: u8) = of_nat (x div 256 ^ n)"
    by (simp add: word_unat_eq_iff unat_of_nat mod_mod_cancel)
  with Suc show ?case by simp
qed

lemma be_to_nat_nat_to_be: "be_to_nat (nat_to_be n x) = x mod 256 ^ n"
proof (induction n)
  case 0
  then show ?case by simp
next
  case (Suc n)
  have "x mod 256 ^ Suc n = x div 256 ^ n mod 256 * 256 ^ n + x mod 256 ^ n"
    using mod_mult2_eq [of x "256 ^ n" 256] by (simp add: ac_simps)
  with Suc show ?case by (simp add: unat_of_nat)
qed

lemma nat_to_be_be_to_nat: "nat_to_be (length bs) (be_to_nat bs) = bs"
proof (induction bs)
  case Nil
  then show ?case by simp
next
  case (Cons b bs)
  have "(unat b * 256 ^ length bs + be_to_nat bs) div 256 ^ length bs = unat b"
    using be_to_nat_less [of bs] by simp
  moreover have "nat_to_be (length bs) (unat b * 256 ^ length bs + be_to_nat bs) = bs"
    using nat_to_be_mod [of "length bs" "length bs" "unat b * 256 ^ length bs + be_to_nat bs"]
      Cons.IH be_to_nat_less [of bs] by simp
  ultimately show ?case by simp
qed

text \<open>
  \<^verbatim>\<open>binary.BigEndian\<close>: the Put functions write a whole word, the readers index the slice
  and panic when it is too short.
\<close>

definition PutUint16 :: "u16 \<Rightarrow> bytes" where
  "PutUint16 v = nat_to_be 2 (unat v)"

definition PutUint32 :: "u32 \<Rightarrow> bytes" where
  "PutUint32 v = nat_to_be 4 (unat v)"

definition PutUint64 :: "u64 \<Rightarrow> bytes" where
  "PutUint64 v = nat_to_be 8 (unat v)"

definition Uint16 :: "bytes \<Rightarrow> u16 go" where
  "Uint16 b = (if length b < 2 then Panic else Ret (of_nat (be_to_nat (take 2 b))))"

definition Uint32 :: "bytes \<Rightarrow> u32 go" where
  "Uint32 b = (if length b < 4 then Panic else Ret (of_nat (be_to_nat (take 4 b))))"

definition Uint64 :: "bytes \<Rightarrow> u64 go" where
  "Uint64 b = (if length b < 8 then Panic else Ret (of_nat (be_to_nat (take 8 b))))"

lemma length_Put [simp]:
  "length (PutUint16 v) = 2" "length (PutUint32 w) = 4" "length (PutUint64 x) = 8"
  by (simp_all add: PutUint16_def PutUint32_def PutUint64_def)

lemma Uint16_Put [codec_simps]: "Uint16 (PutUint16 v @ r) = Ret v"
  using unat_bound [of v] by (simp add: Uint16_def be_to_nat_nat_to_be PutUint16_def)

lemma Uint32_Put [codec_simps]: "Uint32 (PutUint32 v @ r) = Ret v"
  using unat_bound [of v] by (simp add: Uint32_def be_to_nat_nat_to_be PutUint32_def)

lemma Uint64_Put [codec_simps]: "Uint64 (PutUint64 v @ r) = Ret v"
  using unat_bound [of v] by (simp add: Uint64_def be_to_nat_nat_to_be PutUint64_def)

lemma Put_Uint16: "Uint16 b = Ret v \<Longrightarrow> PutUint16 v = take 2 b"
  using be_to_nat_less [of "take 2 b"] nat_to_be_be_to_nat [of "take 2 b"]
  by (auto simp: Uint16_def PutUint16_def unat_of_nat split: if_splits)

lemma Put_Uint32: "Uint32 b = Ret v \<Longrightarrow> PutUint32 v = take 4 b"
  using be_to_nat_less [of "take 4 b"] nat_to_be_be_to_nat [of "take 4 b"]
  by (auto simp: Uint32_def PutUint32_def unat_of_nat split: if_splits)

lemma Put_Uint64: "Uint64 b = Ret v \<Longrightarrow> PutUint64 v = take 8 b"
  using be_to_nat_less [of "take 8 b"] nat_to_be_be_to_nat [of "take 8 b"]
  by (auto simp: Uint64_def PutUint64_def unat_of_nat split: if_splits)

text \<open>Putting a buffer back together from consecutive fields.\<close>

lemma take_drop_join: "m = k + n \<Longrightarrow> take n (drop k b) @ drop m b = drop k b"
  by (metis add.commute append_take_drop_id drop_drop)

lemma take_drop_last: "length b = k + n \<Longrightarrow> take n (drop k b) = drop k b"
  by simp

lemma nth_drop_join: "b \<noteq> [] \<Longrightarrow> b ! 0 = x \<Longrightarrow> x # drop (Suc 0) b = b"
  by (cases b) auto

lemma Uint_returns:
  "2 \<le> length b \<Longrightarrow> \<exists>v. Uint16 b = Ret v"
  "4 \<le> length b \<Longrightarrow> \<exists>v. Uint32 b = Ret v"
  "8 \<le> length b \<Longrightarrow> \<exists>v. Uint64 b = Ret v"
  by (auto simp: Uint16_def Uint32_def Uint64_def)

section \<open>Go maps\<close>

text \<open>Reading a key, \<^verbatim>\<open>m[k] = v\<close>, \<^verbatim>\<open>delete(m, k)\<close> and the set of keys.\<close>

type_synonym ('k, 'v) gomap = "('k \<times> 'v) list"

definition mget :: "('k, 'v) gomap \<Rightarrow> 'k \<Rightarrow> 'v option" where
  "mget m k = map_of m k"

definition mput :: "('k, 'v) gomap \<Rightarrow> 'k \<Rightarrow> 'v \<Rightarrow> ('k, 'v) gomap" where
  "mput m k v = AList.update k v m"

definition mdel :: "('k, 'v) gomap \<Rightarrow> 'k \<Rightarrow> ('k, 'v) gomap" where
  "mdel m k = AList.delete k m"

definition mkeys :: "('k, 'v) gomap \<Rightarrow> 'k set" where
  "mkeys m = fst ` set m"

definition mwf :: "('k, 'v) gomap \<Rightarrow> bool" where
  "mwf m \<longleftrightarrow> distinct (map fst m)"

lemma mget_Nil [simp]: "mget [] k = None"
  by (simp add: mget_def)

lemma mwf_Nil [simp]: "mwf []"
  by (simp add: mwf_def)

lemma mkeys_Nil [simp]: "mkeys [] = {}"
  by (simp add: mkeys_def)

lemma mget_mput [simp]: "mget (mput m k v) j = (if j = k then Some v else mget m j)"
  by (simp add: mget_def mput_def update_conv')

lemma mget_mdel [simp]: "mget (mdel m k) j = (if j = k then None else mget m j)"
  by (simp add: mget_def mdel_def delete_conv')

lemma mwf_mput [simp]: "mwf m \<Longrightarrow> mwf (mput m k v)"
  by (simp add: mwf_def mput_def distinct_update)

lemma mwf_mdel [simp]: "mwf m \<Longrightarrow> mwf (mdel m k)"
  by (simp add: mwf_def mdel_def distinct_delete)

lemma mkeys_mput [simp]: "mkeys (mput m k v) = insert k (mkeys m)"
  by (auto simp: mkeys_def mput_def dom_update)

lemma mkeys_mdel [simp]: "mkeys (mdel m k) = mkeys m - {k}"
  by (auto simp: mkeys_def mdel_def AList.delete_eq)

lemma mget_None_iff: "mget m k = None \<longleftrightarrow> k \<notin> mkeys m"
  by (simp add: mget_def mkeys_def map_of_eq_None_iff)

lemma mget_mem: "mwf m \<Longrightarrow> mget m k = Some v \<longleftrightarrow> (k, v) \<in> set m"
  by (simp add: mget_def mwf_def)

lemma mget_SomeD: "mget m k = Some v \<Longrightarrow> (k, v) \<in> set m"
  by (simp add: mget_def map_of_SomeD)

lemma mget_Some_key: "mget m k = Some v \<Longrightarrow> k \<in> mkeys m"
  by (force simp: mkeys_def dest: mget_SomeD)

lemma mkeys_iff: "k \<in> mkeys m \<longleftrightarrow> (\<exists>v. mget m k = Some v)"
  using mget_None_iff [of m k] by auto

lemma finite_mkeys [simp]: "finite (mkeys m)"
  by (simp add: mkeys_def)

lemma length_mwf: "mwf m \<Longrightarrow> length m = card (mkeys m)"
  by (metis distinct_card length_map mkeys_def mwf_def set_map)

lemma length_mput: "mwf m \<Longrightarrow> length (mput m k v) = (if k \<in> mkeys m then length m else Suc (length m))"
  by (simp add: length_mwf insert_absorb)

lemma length_mdel: "mwf m \<Longrightarrow> length (mdel m k) = (if k \<in> mkeys m then length m - 1 else length m)"
  by (simp add: length_mwf)

lemma length_mdel_le: "length (mdel m k) \<le> length m"
  by (simp add: mdel_def length_delete_le)

lemma set_mdel: "set (mdel m k) = {x \<in> set m. fst x \<noteq> k}"
  by (auto simp: mdel_def AList.delete_eq)

lemma set_mput: "mwf m \<Longrightarrow> set (mput m k v) = insert (k, v) {x \<in> set m. fst x \<noteq> k}"
proof -
  assume m: "mwf m"
  have "(a, b) \<in> set (mput m k v) \<longleftrightarrow> (a, b) = (k, v) \<or> (a, b) \<in> set m \<and> a \<noteq> k" for a b
    using m by (auto simp flip: mget_mem [OF m] mget_mem [OF mwf_mput [OF m]] split: if_splits)
  then show ?thesis by auto
qed

lemma mput_new: "k \<notin> mkeys m \<Longrightarrow> mput m k v = m @ [(k, v)]"
  by (induction m) (auto simp: mput_def mkeys_def)

end
