(* ===== verification/Codec.thy ===== *)
theory Codec
  imports Prelude "HOL-Library.Sublist"
begin

text \<open>
  The two contracts the byte formats of the program share. A \<open>codec\<close> turns a value into
  bytes and back, exactly: the application messages (\<^verbatim>\<open>wire\<close>), the transport packets
  (\<^verbatim>\<open>rudp/packet.go\<close>) and the log records (\<^verbatim>\<open>wal\<close>) provide one. A \<open>framing\<close> cuts a byte
  stream into self-delimiting frames: the write-ahead log and the TCP transport provide one.
\<close>

section \<open>Exact codecs\<close>

locale codec =
  fixes enc :: "'m \<Rightarrow> bytes option"
    and dec :: "bytes \<Rightarrow> 'm option"
    and ok :: "'m \<Rightarrow> bool"
  assumes enc_total: "ok m \<Longrightarrow> \<exists>b. enc m = Some b"
    and dec_enc: "ok m \<Longrightarrow> enc m = Some b \<Longrightarrow> dec b = Some m"
    and enc_dec: "dec b = Some m \<Longrightarrow> ok m \<and> enc m = Some b"
begin

lemma dec_iff: "dec b = Some m \<longleftrightarrow> ok m \<and> enc m = Some b"
  using dec_enc enc_dec by blast

lemma enc_inj: "ok m \<Longrightarrow> ok m' \<Longrightarrow> enc m = Some b \<Longrightarrow> enc m' = Some b \<Longrightarrow> m = m'"
  using dec_enc [of m b] dec_enc [of m' b] by simp

lemma dec_inj: "dec b = Some m \<Longrightarrow> dec b' = Some m \<Longrightarrow> b = b'"
  using enc_dec [of b m] enc_dec [of b' m] by simp

lemma ok_decodes: "ok m \<Longrightarrow> \<exists>b. enc m = Some b \<and> dec b = Some m"
  using enc_total dec_enc by blast

end

section \<open>Self-delimiting frames\<close>

text \<open>
  \<open>next\<close> takes the first frame off a stream, \<open>read\<close> is the reading loop: the values of
  the intact frames and the offset just past the last of them.
\<close>

locale framing =
  fixes ok :: "'r \<Rightarrow> bool"
    and frame :: "'r \<Rightarrow> bytes"
    and nextf :: "bytes \<Rightarrow> ('r \<times> bytes) option"
    and read :: "bytes \<Rightarrow> 'r list \<times> nat"
  assumes next_frame: "ok r \<Longrightarrow> nextf (frame r @ rest) = Some (r, rest)"
    and next_torn: "ok r \<Longrightarrow> strict_prefix p (frame r) \<Longrightarrow> nextf p = None"
    and next_Nil: "nextf [] = None"
    and read_unfold: "read b = (case nextf b of None \<Rightarrow> ([], 0)
      | Some (r, rest) \<Rightarrow> (r # fst (read rest), length b - length rest + snd (read rest)))"
begin

abbreviation stream :: "'r list \<Rightarrow> bytes" where
  "stream rs \<equiv> concat (map frame rs)"

lemma read_stop: "nextf b = None \<Longrightarrow> read b = ([], 0)"
  by (subst read_unfold) simp

lemma read_frame: "ok r \<Longrightarrow> read (frame r @ b) = (r # fst (read b), length (frame r) + snd (read b))"
  by (subst read_unfold) (simp add: next_frame)

lemma read_append:
  "list_all ok rs \<Longrightarrow> read (stream rs @ b) = (rs @ fst (read b), length (stream rs) + snd (read b))"
  by (induction rs) (simp_all add: read_frame)

lemma read_stream: "list_all ok rs \<Longrightarrow> read (stream rs) = (rs, length (stream rs))"
  using read_append [of rs "[]"] read_stop [OF next_Nil] by simp

text \<open>
  A stream cut anywhere yields exactly the frames that are complete before the cut, and the
  reported offset is where they end.
\<close>

lemma read_cut:
  "list_all ok rs \<Longrightarrow> \<exists>j \<le> length rs.
     read (take k (stream rs)) = (take j rs, length (stream (take j rs))) \<and>
     length (stream (take j rs)) \<le> k \<and>
     (j < length rs \<longrightarrow> k < length (stream (take (Suc j) rs)))"
proof (induction rs arbitrary: k)
  case Nil
  then show ?case by (simp add: read_stop next_Nil)
next
  case (Cons r rs)
  then have r: "ok r" and rs: "list_all ok rs" by auto
  show ?case
  proof (cases "length (frame r) \<le> k")
    case True
    obtain j where j: "j \<le> length rs"
      "read (take (k - length (frame r)) (stream rs)) = (take j rs, length (stream (take j rs)))"
      "length (stream (take j rs)) \<le> k - length (frame r)"
      "j < length rs \<longrightarrow> k - length (frame r) < length (stream (take (Suc j) rs))"
      using Cons.IH [OF rs] by blast
    have "take k (stream (r # rs)) = frame r @ take (k - length (frame r)) (stream rs)"
      using True by simp
    then have "read (take k (stream (r # rs))) = (take (Suc j) (r # rs), length (stream (take (Suc j) (r # rs))))"
      using read_frame [OF r] j(2) by simp
    moreover have "length (stream (take (Suc j) (r # rs))) \<le> k"
      using j(3) True by simp
    moreover have "Suc j < length (r # rs) \<longrightarrow> k < length (stream (take (Suc (Suc j)) (r # rs)))"
      using j(4) True by auto
    ultimately show ?thesis
      using j(1) by (intro exI [of _ "Suc j"]) simp
  next
    case False
    then have "strict_prefix (take k (frame r)) (frame r)"
      using take_is_prefix [of k "frame r"] by (auto simp: strict_prefix_def)
    then have "read (take k (stream (r # rs))) = ([], 0)"
      using r False by (simp add: read_stop next_torn)
    then show ?thesis
      by (intro exI [of _ 0]) (use False in simp)
  qed
qed

lemma read_cut_prefix: "list_all ok rs \<Longrightarrow> prefix (fst (read (take k (stream rs)))) rs"
  by (drule read_cut [of _ k]) (auto simp: take_is_prefix)

end

end
