(* ===== verification/Packet.thy ===== *)
theory Packet
  imports Codec
begin

text \<open>
  The transport packet (\<^verbatim>\<open>rudp/packet.go\<close>): an 11-byte big-endian header and the payload.
  \<open>marshal\<close> writes the payload length modulo \<open>2 ^ 16\<close>; \<open>parse\<close> accepts exactly the
  packets of a known type whose payload is at most \<open>MaxPayload\<close> bytes.
\<close>

section \<open>Layout\<close>

definition typeConnect :: u8 where "typeConnect = 1"
definition typeConnAck :: u8 where "typeConnAck = 2"
definition typeData :: u8 where "typeData = 3"
definition typeAck :: u8 where "typeAck = 4"
definition typeClose :: u8 where "typeClose = 5"

lemmas type_defs = typeConnect_def typeConnAck_def typeData_def typeAck_def typeClose_def

definition headerLen :: nat where "headerLen = 11"
definition MaxPayload :: nat where "MaxPayload = 1200"
definition maxPacket :: nat where "maxPacket = headerLen + MaxPayload"

datatype packet = Packet (ptyp: u8) (connID: u32) (seq: u32) (payload: bytes)

definition marshal :: "u8 \<Rightarrow> u32 \<Rightarrow> u32 \<Rightarrow> bytes \<Rightarrow> bytes" where
  "marshal t c s pl = [t] @ PutUint32 c @ PutUint32 s @ PutUint16 (of_nat (length pl)) @ pl"

definition parse :: "bytes \<Rightarrow> packet option go" where
  "parse b =
     (if length b < headerLen then Ret None
      else go_bind (Uint32 (take 4 (drop 1 b))) (\<lambda>c.
           go_bind (Uint32 (take 4 (drop 5 b))) (\<lambda>s.
           let t = b ! 0 in
           if t < typeConnect \<or> t > typeClose then Ret None
           else go_bind (Uint16 (take 2 (drop 9 b))) (\<lambda>v. let n = unat v in
             if n \<noteq> length b - headerLen \<or> n > MaxPayload then Ret None
             else Ret (Some (Packet t c s (if n > 0 then drop headerLen b else [])))))))"

section \<open>Lemmas\<close>

definition packet_ok :: "packet \<Rightarrow> bool" where
  "packet_ok p \<longleftrightarrow> typeConnect \<le> ptyp p \<and> ptyp p \<le> typeClose \<and> length (payload p) \<le> MaxPayload"

definition marshal_packet :: "packet \<Rightarrow> bytes" where
  "marshal_packet p = marshal (ptyp p) (connID p) (seq p) (payload p)"

lemma length_marshal [simp]: "length (marshal t c s pl) = 11 + length pl"
  by (simp add: marshal_def)

lemma PutUint32_inj: "PutUint32 v @ r = PutUint32 w @ r' \<longleftrightarrow> v = w \<and> r = r'"
  by (metis Uint32_Put append_eq_append_conv go.inject length_Put(2))

lemma marshal_inj [simp]:
  "marshal t c s pl = marshal t' c' s' pl' \<longleftrightarrow> t = t' \<and> c = c' \<and> s = s' \<and> pl = pl'"
proof
  assume eq: "marshal t c s pl = marshal t' c' s' pl'"
  then have "length pl = length pl'" by (metis add_left_cancel length_marshal)
  with eq show "t = t' \<and> c = c' \<and> s = s' \<and> pl = pl'" by (auto simp: marshal_def PutUint32_inj)
qed simp

lemma parse_total: "\<exists>r. parse b = Ret r"
proof (cases "length b < headerLen")
  case True
  then show ?thesis by (simp add: parse_def)
next
  case False
  then have "length b \<ge> 11" by (simp add: headerLen_def)
  then show ?thesis
    by (simp add: parse_def Uint32_def Uint16_def Let_def)
qed

lemma parse_marshal:
  assumes "packet_ok p"
  shows "parse (marshal_packet p) = Ret (Some p)"
proof -
  have n: "unat (of_nat (length (payload p)) :: u16) = length (payload p)"
    using assms by (simp add: packet_ok_def MaxPayload_def unat_of_nat)
  have "Uint32 (take 4 (PutUint32 v @ r)) = Ret v" "Uint16 (take 2 (PutUint16 w @ r)) = Ret w" for v w r
    using Uint32_Put [of v "[]"] Uint16_Put [of w "[]"] by simp_all
  with n assms show ?thesis
    by (cases p) (auto simp: parse_def marshal_packet_def marshal_def packet_ok_def headerLen_def Let_def)
qed

lemma marshal_parse:
  assumes "parse b = Ret (Some p)"
  shows "packet_ok p" and "marshal_packet p = b"
proof -
  from assms obtain c s v where len: "11 \<le> length b"
    and c: "Uint32 (take 4 (drop 1 b)) = Ret c" and s: "Uint32 (take 4 (drop 5 b)) = Ret s"
    and v: "Uint16 (take 2 (drop 9 b)) = Ret v" and n: "unat v = length b - 11" "unat v \<le> MaxPayload"
    and t: "typeConnect \<le> b ! 0" "b ! 0 \<le> typeClose"
    and p: "p = Packet (b ! 0) c s (if unat v > 0 then drop 11 b else [])"
    by (auto simp: parse_def go_bind_Ret_iff headerLen_def Let_def not_less split: if_splits)
  have pl: "payload p = drop 11 b"
    using p n by auto
  with t n p show "packet_ok p" by (simp add: packet_ok_def)
  have "PutUint16 (of_nat (length (payload p))) = take 2 (drop 9 b)"
    using Put_Uint16 [OF v] n pl by (simp flip: n(1))
  moreover have "b \<noteq> []" using len by auto
  ultimately show "marshal_packet p = b"
    using Put_Uint32 [OF c] Put_Uint32 [OF s] p pl
    by (simp add: marshal_packet_def marshal_def take_drop_join nth_drop_join)
qed

definition packet_dec :: "bytes \<Rightarrow> packet option" where
  "packet_dec b = (case parse b of Ret r \<Rightarrow> r | Panic \<Rightarrow> None)"

lemma packet_dec_Some: "packet_dec b = Some p \<longleftrightarrow> parse b = Ret (Some p)"
  by (auto simp: packet_dec_def split: go.splits)

interpretation packetc: codec "\<lambda>p. Some (marshal_packet p)" packet_dec packet_ok
  by unfold_locales (auto simp: packet_dec_Some parse_marshal dest: marshal_parse)


section \<open>Properties\<close>

text \<open>
  (C33) Packet codec: parsing never panics, and it accepts exactly what \<open>marshal\<close> produces for
  a known type and a payload within \<open>MaxPayload\<close>, giving back the same fields.
\<close>

theorem parse_exact:
  "parse b \<noteq> Panic \<and>
   (\<forall>t c s pl. parse b = Ret (Some (Packet t c s pl)) \<longleftrightarrow>
      typeConnect \<le> t \<and> t \<le> typeClose \<and> length pl \<le> MaxPayload \<and> marshal t c s pl = b)"
proof -
  have "parse b = Ret (Some p) \<longleftrightarrow> packet_ok p \<and> marshal_packet p = b" for p
    using parse_marshal [of p] marshal_parse [of b p] by auto
  with parse_total [of b] show ?thesis
    by (auto simp: packet_ok_def marshal_packet_def)
qed

end
