(* ===== verification/Params.thy ===== *)
theory Params
  imports Complex_Main Prelude
begin

text \<open>
  The tunables: \<^verbatim>\<open>rudp/params.go\<close> and \<^verbatim>\<open>sched/params.go\<close> with their defaults. Channels and
  hooks that only observe are reduced to whether they are set. \<^verbatim>\<open>StragglerFactor\<close> is a rational;
  the rounding of \<^verbatim>\<open>float64\<close> is not modelled.
\<close>

section \<open>Transport\<close>

record rudpParams =
  EpochMs :: int
  EpochLimit :: int
  Window :: int
  MaxBackoff :: int
  OrderedDelivery :: bool
  hasStats :: bool
  hasOnBacklog :: bool

definition DefaultEpochMs :: int where "DefaultEpochMs = 20"
definition DefaultEpochLimit :: int where "DefaultEpochLimit = 5"
definition DefaultWindow :: int where "DefaultWindow = 5"
definition DefaultMaxBackoff :: int where "DefaultMaxBackoff = 8"

lemmas rudp_defaults = DefaultEpochMs_def DefaultEpochLimit_def DefaultWindow_def DefaultMaxBackoff_def

definition zeroParams :: rudpParams where
  "zeroParams = \<lparr>EpochMs = 0, EpochLimit = 0, Window = 0, MaxBackoff = 0, OrderedDelivery = False, hasStats = False, hasOnBacklog = False\<rparr>"

text \<open>A \<^verbatim>\<open>nil\<close> receiver yields the defaults.\<close>

definition WithDefaults :: "rudpParams option \<Rightarrow> rudpParams" where
  "WithDefaults p =
     (let q = (case p of None \<Rightarrow> zeroParams | Some p \<Rightarrow> p);
          q = (if EpochMs q \<le> 0 then q\<lparr>EpochMs := DefaultEpochMs\<rparr> else q);
          q = (if EpochLimit q \<le> 0 then q\<lparr>EpochLimit := DefaultEpochLimit\<rparr> else q);
          q = (if Window q \<le> 0 then q\<lparr>Window := DefaultWindow\<rparr> else q)
      in if MaxBackoff q \<le> 0 then q\<lparr>MaxBackoff := DefaultMaxBackoff\<rparr> else q)"

definition DefaultParams :: rudpParams where
  "DefaultParams = WithDefaults (Some zeroParams)"

definition Epoch :: "rudpParams \<Rightarrow> duration" where
  "Epoch p = EpochMs (WithDefaults (Some p)) * Millisecond"

definition params_ok :: "rudpParams \<Rightarrow> bool" where
  "params_ok p \<longleftrightarrow> 0 < EpochMs p \<and> 0 < EpochLimit p \<and> 0 < Window p \<and> 0 < MaxBackoff p"

lemma WithDefaults_ok: "params_ok (WithDefaults p)"
  by (simp add: params_ok_def WithDefaults_def rudp_defaults Let_def)

lemma WithDefaults_id: "params_ok p \<Longrightarrow> WithDefaults (Some p) = p"
  by (simp add: params_ok_def WithDefaults_def Let_def)

lemma Epoch_pos: "0 < Epoch p"
  using WithDefaults_ok [of "Some p"] by (simp add: Epoch_def params_ok_def Millisecond_def)

section \<open>Scheduler\<close>

record schedParams =
  Transport :: rudpParams
  ChunkSize :: u64
  StragglerFactor :: rat
  MinStragglerMs :: int
  TickMs :: int
  NQCap :: int
  MaxWorkers :: int
  NoSpeculate :: bool
  WALPath :: gostring
  JobGraceMs :: int
  ResultTTLMs :: int
  hasWorkerStats :: bool
  hasAggStats :: bool

definition DefaultChunkSize :: u64 where "DefaultChunkSize = 10000"
definition DefaultStragglerFactor :: rat where "DefaultStragglerFactor = 3"
definition DefaultMinStragglerMs :: int where "DefaultMinStragglerMs = 50"
definition DefaultTickMs :: int where "DefaultTickMs = 10"
definition DefaultNQCap :: int where "DefaultNQCap = 4096"
definition DefaultMaxWorkers :: int where "DefaultMaxWorkers = 64"
definition DefaultJobGraceMs :: int where "DefaultJobGraceMs = 5000"
definition DefaultResultTTLMs :: int where "DefaultResultTTLMs = 60000"

lemmas sched_defaults = DefaultChunkSize_def DefaultStragglerFactor_def DefaultMinStragglerMs_def
  DefaultTickMs_def DefaultNQCap_def DefaultMaxWorkers_def DefaultJobGraceMs_def DefaultResultTTLMs_def

definition zeroSchedParams :: schedParams where
  "zeroSchedParams = \<lparr>Transport = zeroParams, ChunkSize = 0, StragglerFactor = 0, MinStragglerMs = 0,
     TickMs = 0, NQCap = 0, MaxWorkers = 0, NoSpeculate = False, WALPath = [], JobGraceMs = 0,
     ResultTTLMs = 0, hasWorkerStats = False, hasAggStats = False\<rparr>"

definition withDefaults :: "schedParams option \<Rightarrow> schedParams" where
  "withDefaults p =
     (let q = (case p of None \<Rightarrow> zeroSchedParams | Some p \<Rightarrow> p);
          q = q\<lparr>Transport := WithDefaults (Some (Transport q))\<rparr>;
          q = (if ChunkSize q = 0 then q\<lparr>ChunkSize := DefaultChunkSize\<rparr> else q);
          q = (if StragglerFactor q \<le> 0 then q\<lparr>StragglerFactor := DefaultStragglerFactor\<rparr> else q);
          q = (if MinStragglerMs q \<le> 0 then q\<lparr>MinStragglerMs := DefaultMinStragglerMs\<rparr> else q);
          q = (if TickMs q \<le> 0 then q\<lparr>TickMs := DefaultTickMs\<rparr> else q);
          q = (if NQCap q \<le> 0 then q\<lparr>NQCap := DefaultNQCap\<rparr> else q);
          q = (if MaxWorkers q \<le> 0 then q\<lparr>MaxWorkers := DefaultMaxWorkers\<rparr> else q);
          q = (if JobGraceMs q \<le> 0 then q\<lparr>JobGraceMs := DefaultJobGraceMs\<rparr> else q)
      in if ResultTTLMs q \<le> 0 then q\<lparr>ResultTTLMs := DefaultResultTTLMs\<rparr> else q)"

definition sched_params_ok :: "schedParams \<Rightarrow> bool" where
  "sched_params_ok p \<longleftrightarrow> params_ok (Transport p) \<and> ChunkSize p \<noteq> 0 \<and> 0 < StragglerFactor p \<and>
     0 < MinStragglerMs p \<and> 0 < TickMs p \<and> 0 < NQCap p \<and> 0 < MaxWorkers p \<and> 0 < JobGraceMs p \<and> 0 < ResultTTLMs p"

lemma withDefaults_ok: "sched_params_ok (withDefaults p)"
  by (simp add: sched_params_ok_def withDefaults_def sched_defaults WithDefaults_ok Let_def)

lemma withDefaults_id: "sched_params_ok p \<Longrightarrow> withDefaults (Some p) = p"
  by (simp add: sched_params_ok_def withDefaults_def WithDefaults_id Let_def)

text \<open>The conversion of a \<^verbatim>\<open>float64\<close> to a \<^verbatim>\<open>time.Duration\<close> truncates.\<close>

definition trunc_rat :: "rat \<Rightarrow> int" where
  "trunc_rat q = (if q < 0 then - \<lfloor>- q\<rfloor> else \<lfloor>q\<rfloor>)"

end
