(* ===== verification/Conn.thy ===== *)
theory Conn
  imports Packet Params "HOL-Library.Signed_Division"
begin

text \<open>
  One reliable-UDP connection (\<^verbatim>\<open>rudp/conn.go\<close> and \<^verbatim>\<open>rudp/ordered.go\<close>): the state owned by
  \<^verbatim>\<open>mainLoop\<close> and one definition per method. \<^verbatim>\<open>mainLoop\<close> is a machine with the phases of the
  goroutine: its \<^verbatim>\<open>select\<close>, the loop of \<^verbatim>\<open>flushThenExit\<close>, the loop of \<^verbatim>\<open>drainAndExit\<close>, and the
  end. An event is the case the \<^verbatim>\<open>select\<close> takes.

  What leaves the goroutine is recorded in the state: the datagrams written to the socket
  (\<open>sock\<close>), the deliveries handed to \<^verbatim>\<open>Read\<close> (\<open>outCh\<close>), the statistics published and
  the calls of the backlog hook. Each
  event carries the readings of the clock during its handler (one index of \<open>clk\<close> for each
  call of \<^verbatim>\<open>time.Now\<close>) and whether the statistics channel had room.
\<close>

section \<open>State\<close>

datatype conn_error = ErrConnLost | ErrConnClosed

datatype delivery = delivery (dH: u32) (dData: bytes) (dErr: "conn_error option")

record outMsg =
  om_payload :: bytes
  firstSent :: time
  lastSent :: time
  rto :: duration
  retries :: nat
  retransmitted :: bool

record ConnStats =
  csConnID :: u32
  csClient :: bool
  DataSent :: u64
  Retransmits :: u64
  DataReceived :: u64
  AcksSent :: u64
  Heartbeats :: u64
  csSRTT :: duration
  csSendBuffer :: nat
  csPendingWrites :: nat
  csClosed :: bool

datatype phase = Running | Flushing | Draining | Ended

record conn =
  cid :: u32
  client :: bool
  params :: rudpParams
  epoch :: duration
  dead :: bool
  phase :: phase
  sendBuffer :: "(u32, outMsg) gomap"
  pendingWrites :: "bytes list"
  deliverQ :: "delivery list"
  nextSeq :: u32
  srtt :: duration
  hasSRTT :: bool
  epochsSilent :: int
  sentThisEpoch :: bool
  ordNext :: u32
  held :: "(u32, bytes) gomap"
  stats :: ConnStats
  statsDirty :: bool
  lastPublish :: time
  sock :: "bytes list"
  outCh :: "delivery list"
  published :: "ConnStats list"
  backlogs :: "nat list"

definition zeroStats :: ConnStats where
  "zeroStats = \<lparr>csConnID = 0, csClient = False, DataSent = 0, Retransmits = 0, DataReceived = 0, AcksSent = 0, Heartbeats = 0,
     csSRTT = 0, csSendBuffer = 0, csPendingWrites = 0, csClosed = False\<rparr>"

definition newConn :: "u32 \<Rightarrow> bool \<Rightarrow> rudpParams \<Rightarrow> conn" where
  "newConn i cl p = \<lparr>cid = i, client = cl, params = p, epoch = Epoch p, dead = False, phase = Running,
     sendBuffer = [], pendingWrites = [], deliverQ = [], nextSeq = 0, srtt = 0, hasSRTT = False,
     epochsSilent = 0, sentThisEpoch = False, ordNext = 1, held = [], stats = zeroStats,
     statsDirty = False, lastPublish = 0, sock = [], outCh = [], published = [], backlogs = []\<rparr>"

section \<open>Sending\<close>

definition send :: "u8 \<Rightarrow> u32 \<Rightarrow> bytes \<Rightarrow> conn \<Rightarrow> conn" where
  "send t s pl c = c\<lparr>sock := sock c @ [marshal t (cid c) s pl], sentThisEpoch := True\<rparr>"

definition initialRTO :: "conn \<Rightarrow> duration" where
  "initialRTO c =
     (if \<not> hasSRTT c then 2 * epoch c
      else let r = 2 * srtt c in if r > epoch c then r else epoch c)"

definition sampleRTT :: "duration \<Rightarrow> conn \<Rightarrow> conn" where
  "sampleRTT sample c =
     (let c1 = (if \<not> hasSRTT c then c\<lparr>srtt := sample, hasSRTT := True\<rparr>
                else c\<lparr>srtt := (7 * srtt c + sample) sdiv 8\<rparr>)
      in c1\<lparr>statsDirty := True\<rparr>)"

text \<open>One turn of the loop of \<^verbatim>\<open>fillWindow\<close>: the head of the queue enters the window.\<close>

definition launch :: "time \<Rightarrow> bytes \<Rightarrow> conn \<Rightarrow> conn" where
  "launch now pl c =
     (let s = nextSeq c + 1;
          m = \<lparr>om_payload = pl, firstSent = now, lastSent = now, rto = initialRTO c, retries = 0, retransmitted = False\<rparr>;
          c1 = c\<lparr>nextSeq := s, sendBuffer := mput (sendBuffer c) s m\<rparr>;
          c2 = send typeData s pl c1
      in c2\<lparr>stats := (stats c2)\<lparr>DataSent := DataSent (stats c2) + 1\<rparr>, statsDirty := True\<rparr>)"

fun fill_loop :: "(nat \<Rightarrow> time) \<Rightarrow> bytes list \<Rightarrow> conn \<Rightarrow> conn" where
  "fill_loop clk [] c = c\<lparr>pendingWrites := []\<rparr>"
| "fill_loop clk (pl # rest) c =
     (if int (length (sendBuffer c)) < Window (params c)
      then fill_loop (\<lambda>i. clk (Suc i)) rest (launch (clk 0) pl c)
      else c\<lparr>pendingWrites := pl # rest\<rparr>)"

definition fillWindow :: "(nat \<Rightarrow> time) \<Rightarrow> conn \<Rightarrow> conn" where
  "fillWindow clk c = fill_loop clk (pendingWrites c) c"

definition onAck :: "(nat \<Rightarrow> time) \<Rightarrow> u32 \<Rightarrow> conn \<Rightarrow> conn" where
  "onAck clk s c =
     (case mget (sendBuffer c) s of
        None \<Rightarrow> c
      | Some m \<Rightarrow>
          let c1 = (if \<not> retransmitted m then sampleRTT (clk 0 - firstSent m) c else c)
          in fillWindow (\<lambda>i. clk (Suc i)) (c1\<lparr>sendBuffer := mdel (sendBuffer c1) s\<rparr>))"

definition rtx_one :: "time \<Rightarrow> duration \<Rightarrow> conn \<Rightarrow> u32 \<times> outMsg \<Rightarrow> conn" where
  "rtx_one now limit c e =
     (let s = fst e; m = snd e in
      if now - lastSent m < rto m then c
      else let r = rto m * 2;
               m' = m\<lparr>lastSent := now, retries := retries m + 1, retransmitted := True,
                      rto := (if r > limit then limit else r)\<rparr>;
               c1 = send typeData s (om_payload m) (c\<lparr>sendBuffer := mput (sendBuffer c) s m'\<rparr>)
           in c1\<lparr>stats := (stats c1)\<lparr>Retransmits := Retransmits (stats c1) + 1\<rparr>, statsDirty := True\<rparr>)"

definition retransmitExpired :: "time \<Rightarrow> conn \<Rightarrow> conn" where
  "retransmitExpired now c =
     foldl (rtx_one now (MaxBackoff (params c) * epoch c)) c (sendBuffer c)"

definition heartbeat :: "conn \<Rightarrow> conn" where
  "heartbeat c =
     (let c1 = (if \<not> sentThisEpoch c then
                  let c0 = send typeAck 0 [] c
                  in c0\<lparr>stats := (stats c0)\<lparr>Heartbeats := Heartbeats (stats c0) + 1\<rparr>\<rparr>
                else c)
      in c1\<lparr>sentThisEpoch := False\<rparr>)"

definition sendAck :: "u32 \<Rightarrow> conn \<Rightarrow> conn" where
  "sendAck s c =
     (let c1 = send typeAck s [] c
      in c1\<lparr>stats := (stats c1)\<lparr>AcksSent := AcksSent (stats c1) + 1\<rparr>\<rparr>)"

section \<open>Receiving\<close>

definition deliverOnArrival :: "u32 \<Rightarrow> bytes \<Rightarrow> conn \<Rightarrow> conn" where
  "deliverOnArrival s pl c = c\<lparr>deliverQ := deliverQ c @ [delivery (cid c) pl None]\<rparr>"

text \<open>
  \<^verbatim>\<open>OrderedDelivery\<close>: messages that arrive early are held until the gap is filled. The loop
  takes one held entry per turn, so it runs at most as often as there are entries.
\<close>

function release :: "conn \<Rightarrow> conn" where
  "release c =
     (case mget (held c) (ordNext c) of
        None \<Rightarrow> c
      | Some pl \<Rightarrow> release (c\<lparr>deliverQ := deliverQ c @ [delivery (cid c) pl None],
                              held := mdel (held c) (ordNext c), ordNext := ordNext c + 1\<rparr>))"
  by pat_completeness auto
termination
proof (relation "measure (\<lambda>c. card (mkeys (held c)))")
  fix c :: conn and pl
  assume "mget (held c) (ordNext c) = Some pl"
  then have k: "ordNext c \<in> mkeys (held c)" by (rule mget_Some_key)
  then have "0 < card (mkeys (held c))" by (metis card_gt_0_iff empty_iff finite_mkeys)
  with k show "(c\<lparr>deliverQ := deliverQ c @ [delivery (cid c) pl None],
      held := mdel (held c) (ordNext c), ordNext := ordNext c + 1\<rparr>, c) \<in> measure (\<lambda>c. card (mkeys (held c)))"
    by simp
qed simp

declare release.simps [simp del]

definition acceptOrdered :: "u32 \<Rightarrow> bytes \<Rightarrow> conn \<Rightarrow> conn" where
  "acceptOrdered s pl c =
     (if s < ordNext c \<or> mget (held c) s \<noteq> None then c
      else release (c\<lparr>held := mput (held c) s pl\<rparr>))"

definition accept :: "u32 \<Rightarrow> bytes \<Rightarrow> conn \<Rightarrow> conn" where
  "accept s pl c = (if OrderedDelivery (params c) then acceptOrdered s pl c else deliverOnArrival s pl c)"

section \<open>Publishing and ending\<close>

definition publishStats :: "time \<Rightarrow> bool \<Rightarrow> bool \<Rightarrow> conn \<Rightarrow> conn" where
  "publishStats now room final c =
     (if \<not> hasStats (params c) then c
      else if \<not> final \<and> \<not> statsDirty c \<and> now - lastPublish c < Second then c
      else let s = (stats c)\<lparr>csConnID := cid c, csClient := client c, csSRTT := srtt c, csSendBuffer := length (sendBuffer c),
                 csPendingWrites := length (pendingWrites c), csClosed := final\<rparr>
           in if room then c\<lparr>published := published c @ [s], statsDirty := False, lastPublish := now\<rparr> else c)"

definition drainAndExit :: "time \<Rightarrow> bool \<Rightarrow> conn_error \<Rightarrow> conn \<Rightarrow> conn" where
  "drainAndExit now room err c =
     (let c1 = publishStats now room True (c\<lparr>dead := True\<rparr>)
      in c1\<lparr>deliverQ := deliverQ c1 @ [delivery (cid c1) [] (Some err)], phase := Draining\<rparr>)"

text \<open>What \<^verbatim>\<open>mainLoop\<close> does once \<^verbatim>\<open>flushThenExit\<close> has returned.\<close>

definition finish :: "time \<Rightarrow> bool \<Rightarrow> conn \<Rightarrow> conn" where
  "finish now room c = (publishStats now room True c)\<lparr>dead := True, phase := Ended\<rparr>"

text \<open>The guard of the flush loop: when nothing is owed any more, say goodbye and end.\<close>

definition flush_guard :: "time \<Rightarrow> bool \<Rightarrow> conn \<Rightarrow> conn" where
  "flush_guard now room c =
     (if sendBuffer c \<noteq> [] \<or> pendingWrites c \<noteq> [] then c else finish now room (send typeClose 0 [] c))"

section \<open>The main loop\<close>

datatype event =
    EvPacket packet
  | EvWrite bytes
  | EvRead
  | EvTick
  | EvClose
  | EvStop

record env =
  clk :: "nat \<Rightarrow> time"
  room :: bool

text \<open>The readings of the clock left after the first \<open>n\<close>.\<close>

definition later :: "env \<Rightarrow> nat \<Rightarrow> nat \<Rightarrow> time" where
  "later e n i = clk e (n + i)"

fun main_step :: "env \<Rightarrow> event \<Rightarrow> conn \<Rightarrow> conn" where
  "main_step e (EvPacket p) c =
     (if connID p \<noteq> cid c then c
      else let c1 = c\<lparr>epochsSilent := 0\<rparr> in
        if ptyp p = typeAck then onAck (clk e) (seq p) c1
        else if ptyp p = typeData then
          (if seq p = 0 then c1
           else let c2 = c1\<lparr>stats := (stats c1)\<lparr>DataReceived := DataReceived (stats c1) + 1\<rparr>, statsDirty := True\<rparr>
                in sendAck (seq p) (accept (seq p) (payload p) c2))
        else if ptyp p = typeClose then drainAndExit (clk e 0) (room e) ErrConnClosed c1
        else c1)"
| "main_step e (EvWrite d) c =
     (let c1 = fillWindow (clk e) (c\<lparr>pendingWrites := pendingWrites c @ [d]\<rparr>);
          n = length (pendingWrites c1)
      in if n > 0 \<and> hasOnBacklog (params c1) then c1\<lparr>backlogs := backlogs c1 @ [n]\<rparr> else c1)"
| "main_step e EvRead c =
     (case deliverQ c of
        [] \<Rightarrow> c
      | d # ds \<Rightarrow> c\<lparr>outCh := outCh c @ [d], deliverQ := ds\<rparr>)"
| "main_step e EvTick c =
     (let c1 = heartbeat (retransmitExpired (clk e 0) c);
          c2 = c1\<lparr>epochsSilent := epochsSilent c1 + 1\<rparr>
      in if epochsSilent c2 \<ge> EpochLimit (params c2)
         then drainAndExit (clk e 1) (room e) ErrConnLost c2
         else publishStats (clk e 1) (room e) False c2)"
| "main_step e EvClose c = flush_guard (clk e 0) (room e) ((fillWindow (later e 1) c)\<lparr>phase := Flushing\<rparr>)"
| "main_step e EvStop c = c"

fun flush_step :: "env \<Rightarrow> event \<Rightarrow> conn \<Rightarrow> conn" where
  "flush_step e (EvPacket p) c =
     (if connID p \<noteq> cid c then c
      else let c1 = c\<lparr>epochsSilent := 0\<rparr> in
        if ptyp p = typeAck then flush_guard (clk e 0) (room e) (onAck (later e 1) (seq p) c1)
        else if ptyp p = typeData then sendAck (seq p) c1
        else if ptyp p = typeClose then finish (clk e 0) (room e) c1
        else c1)"
| "flush_step e (EvWrite d) c = c"
| "flush_step e EvTick c =
     (let c1 = heartbeat (retransmitExpired (clk e 0) c);
          c2 = c1\<lparr>epochsSilent := epochsSilent c1 + 1\<rparr>
      in if epochsSilent c2 \<ge> EpochLimit (params c2) then finish (clk e 1) (room e) c2 else c2)"
| "flush_step e _ c = c"

fun drain_step :: "event \<Rightarrow> conn \<Rightarrow> conn" where
  "drain_step EvRead c =
     (case deliverQ c of
        [] \<Rightarrow> c\<lparr>phase := Ended\<rparr>
      | d # ds \<Rightarrow> c\<lparr>outCh := outCh c @ [d], deliverQ := ds, phase := (if ds = [] then Ended else Draining)\<rparr>)"
| "drain_step EvStop c = c\<lparr>phase := Ended\<rparr>"
| "drain_step EvClose c = c\<lparr>phase := Ended\<rparr>"
| "drain_step _ c = c"

definition conn_step :: "conn \<Rightarrow> env \<times> event \<Rightarrow> conn" where
  "conn_step c ev = (case phase c of
     Running \<Rightarrow> main_step (fst ev) (snd ev) c
   | Flushing \<Rightarrow> flush_step (fst ev) (snd ev) c
   | Draining \<Rightarrow> drain_step (snd ev) c
   | Ended \<Rightarrow> c)"

definition mainLoop :: "conn \<Rightarrow> (env \<times> event) list \<Rightarrow> conn" where
  "mainLoop c evs = foldl conn_step c evs"

section \<open>Handles\<close>

text \<open>
  \<^verbatim>\<open>ConnHandle.Write\<close> and \<^verbatim>\<open>Close\<close>: the event that reaches the goroutine, if any. On a dead
  connection the \<^verbatim>\<open>select\<close> takes the other case.
\<close>

definition handle_Write :: "conn \<Rightarrow> bytes \<Rightarrow> event option go" where
  "handle_Write c data =
     (if length data > MaxPayload then Panic
      else if dead c then Ret None
      else Ret (Some (EvWrite data)))"

definition handle_Close :: "conn \<Rightarrow> event option" where
  "handle_Close c = (if dead c then None else Some EvClose)"

end
