(* ===== verification/ConnSend.thy ===== *)
theory ConnSend
  imports Conn
begin

text \<open>
  The send side of a connection: what the send buffer, the queue of pending writes and the
  socket hold, relative to the messages the application has written and the acknowledgements
  that have arrived. The history of a run is observed next to it; the invariant is kept by
  every step, as long as fewer than \<open>2 ^ 32\<close> messages were written.
\<close>

section \<open>The history of a run\<close>

text \<open>
  \<open>written\<close>: the messages taken from \<^verbatim>\<open>Write\<close>; \<open>acked\<close>: the sequence numbers whose
  acknowledgement was processed; \<open>recvd\<close>: the data taken in; \<open>late\<close>: the data
  acknowledged while flushing, which is not delivered.
\<close>

record hist =
  written :: "bytes list"
  acked :: "u32 set"
  recvd :: "(u32 \<times> bytes) list"
  late :: "u32 set"

definition no_hist :: hist where
  "no_hist = \<lparr>written = [], acked = {}, recvd = [], late = {}\<rparr>"

fun observe :: "conn \<Rightarrow> event \<Rightarrow> hist \<Rightarrow> hist" where
  "observe c (EvWrite d) h = (if phase c = Running then h\<lparr>written := written h @ [d]\<rparr> else h)"
| "observe c (EvPacket p) h =
     (if connID p \<noteq> cid c \<or> phase c \<notin> {Running, Flushing} then h
      else if ptyp p = typeAck then h\<lparr>acked := insert (seq p) (acked h)\<rparr>
      else if ptyp p = typeData then
        (if phase c = Flushing then h\<lparr>late := insert (seq p) (late h)\<rparr>
         else if seq p = 0 then h
         else h\<lparr>recvd := recvd h @ [(seq p, payload p)]\<rparr>)
      else h)"
| "observe c _ h = h"

fun history :: "conn \<Rightarrow> (env \<times> event) list \<Rightarrow> hist \<Rightarrow> hist" where
  "history c [] h = h"
| "history c (ev # evs) h = history (conn_step c ev) evs (observe c (snd ev) h)"

section \<open>The invariant\<close>

definition data_ok :: "bytes list \<Rightarrow> nat \<Rightarrow> u32 \<Rightarrow> bytes \<Rightarrow> bool" where
  "data_ok W k s pl \<longleftrightarrow> 1 \<le> unat s \<and> unat s \<le> k \<and> pl = W ! (unat s - 1)"

definition dgram_ok :: "hist \<Rightarrow> nat \<Rightarrow> u32 \<Rightarrow> bytes \<Rightarrow> bool" where
  "dgram_ok h k i d \<longleftrightarrow>
     (\<exists>s pl. d = marshal typeData i s pl \<and> data_ok (written h) k s pl) \<or>
     (\<exists>s. d = marshal typeAck i s [] \<and> (s = 0 \<or> s \<in> fst ` set (recvd h) \<or> s \<in> late h)) \<or>
     d = marshal typeClose i 0 []"

definition sender_ok :: "hist \<Rightarrow> conn \<Rightarrow> bool" where
  "sender_ok h c \<longleftrightarrow> (let k = unat (nextSeq c) in
     k \<le> length (written h) \<and> mwf (sendBuffer c) \<and> int (length (sendBuffer c)) \<le> Window (params c) \<and>
     (\<forall>s m. mget (sendBuffer c) s = Some m \<longrightarrow> data_ok (written h) k s (om_payload m)) \<and>
     (\<forall>s. 1 \<le> unat s \<and> unat s \<le> k \<longrightarrow> s \<in> mkeys (sendBuffer c) \<or> s \<in> acked h) \<and>
     (\<forall>d \<in> set (sock c). dgram_ok h k (cid c) d))"

text \<open>What is pending is what was written and not yet sent, and it only waits for a full window.\<close>

definition queue_ok :: "hist \<Rightarrow> conn \<Rightarrow> bool" where
  "queue_ok h c \<longleftrightarrow> pendingWrites c = drop (unat (nextSeq c)) (written h) \<and>
     (pendingWrites c \<noteq> [] \<longrightarrow> int (length (sendBuffer c)) = Window (params c))"

lemma data_ok_mono: "data_ok W k s pl \<Longrightarrow> k \<le> k' \<Longrightarrow> data_ok W k' s pl"
  by (auto simp: data_ok_def)

lemma dgram_ok_mono: "dgram_ok h k i d \<Longrightarrow> k \<le> k' \<Longrightarrow> dgram_ok h k' i d"
  unfolding dgram_ok_def using data_ok_mono by blast

lemma dgram_data: "data_ok (written h) k s pl \<Longrightarrow> dgram_ok h k i (marshal typeData i s pl)"
  unfolding dgram_ok_def by blast

lemma dgram_ack: "s = 0 \<or> s \<in> fst ` set (recvd h) \<or> s \<in> late h \<Longrightarrow> dgram_ok h k i (marshal typeAck i s [])"
  unfolding dgram_ok_def by blast

lemma dgram_close: "dgram_ok h k i (marshal typeClose i 0 [])"
  unfolding dgram_ok_def by blast

section \<open>Sending keeps it\<close>

lemma send_simps [simp]:
  "cid (send t s pl c) = cid c" "params (send t s pl c) = params c" "epoch (send t s pl c) = epoch c"
  "sendBuffer (send t s pl c) = sendBuffer c" "pendingWrites (send t s pl c) = pendingWrites c"
  "nextSeq (send t s pl c) = nextSeq c" "deliverQ (send t s pl c) = deliverQ c" "outCh (send t s pl c) = outCh c"
  "phase (send t s pl c) = phase c" "dead (send t s pl c) = dead c" "held (send t s pl c) = held c"
  "ordNext (send t s pl c) = ordNext c" "sock (send t s pl c) = sock c @ [marshal t (cid c) s pl]"
  "hasSRTT (send t s pl c) = hasSRTT c" "srtt (send t s pl c) = srtt c" "stats (send t s pl c) = stats c"
  "epochsSilent (send t s pl c) = epochsSilent c" "sentThisEpoch (send t s pl c)"
  by (simp_all add: send_def)

lemma next_seq:
  assumes "unat (nextSeq c) < length (written h)" "length (written h) < 2 ^ 32"
  shows "unat (nextSeq c + 1) = Suc (unat (nextSeq c))"
  using assms by (simp add: unat_word_ariths)

lemma sender_ok_launch:
  assumes ok: "sender_ok h c" and k: "unat (nextSeq c) < length (written h)" "length (written h) < 2 ^ 32"
    and w: "int (length (sendBuffer c)) < Window (params c)"
  shows "sender_ok h (launch now (written h ! unat (nextSeq c)) c)"
proof -
  let ?k = "unat (nextSeq c)" and ?s = "nextSeq c + 1"
  let ?c = "launch now (written h ! ?k) c"
  have n: "unat ?s = Suc ?k" by (rule next_seq [OF k])
  have new: "?s \<notin> mkeys (sendBuffer c)"
  proof
    assume "?s \<in> mkeys (sendBuffer c)"
    then obtain m where "mget (sendBuffer c) ?s = Some m"
      by (auto simp: mkeys_iff)
    with ok have "unat ?s \<le> ?k" unfolding sender_ok_def Let_def data_ok_def by blast
    with n show False by simp
  qed
  have len: "length (sendBuffer ?c) = Suc (length (sendBuffer c))"
    using ok new by (simp add: launch_def Let_def length_mput sender_ok_def)
  have d: "data_ok (written h) (Suc ?k) ?s (written h ! ?k)"
    using n by (simp add: data_ok_def)
  have keys: "x \<in> mkeys (sendBuffer ?c) \<or> x \<in> acked h" if "1 \<le> unat x" "unat x \<le> Suc ?k" for x
  proof (cases "unat x = Suc ?k")
    case True
    then have "x = ?s" using n by (simp add: word_unat_eq_iff)
    then show ?thesis by (simp add: launch_def Let_def)
  next
    case False
    with that ok show ?thesis by (auto simp: launch_def Let_def sender_ok_def)
  qed
  have "dgram_ok h (Suc ?k) (cid c) x" if "x \<in> set (sock ?c)" for x
  proof -
    have "x = marshal typeData (cid c) ?s (written h ! ?k) \<or> x \<in> set (sock c)"
      using that by (auto simp: launch_def Let_def)
    with ok dgram_data [OF d] show ?thesis
      by (auto simp: sender_ok_def Let_def intro: dgram_ok_mono)
  qed
  moreover have "data_ok (written h) (Suc ?k) x (om_payload m)" if "mget (sendBuffer ?c) x = Some m" for x m
    using that d ok data_ok_mono [of "written h" ?k x "om_payload m" "Suc ?k"]
    by (auto simp: launch_def Let_def sender_ok_def split: if_splits)
  moreover have "mwf (sendBuffer ?c)" "nextSeq ?c = ?s" "params ?c = params c" "cid ?c = cid c"
    using ok by (simp_all add: launch_def Let_def sender_ok_def)
  ultimately show ?thesis
    using len w k n keys unfolding sender_ok_def Let_def by auto
qed

lemma launch_frame [simp]:
  "params (launch now pl c) = params c" "cid (launch now pl c) = cid c" "nextSeq (launch now pl c) = nextSeq c + 1"
  "phase (launch now pl c) = phase c" "deliverQ (launch now pl c) = deliverQ c" "outCh (launch now pl c) = outCh c"
  "dead (launch now pl c) = dead c" "held (launch now pl c) = held c" "ordNext (launch now pl c) = ordNext c"
  "epochsSilent (launch now pl c) = epochsSilent c" "epoch (launch now pl c) = epoch c"
  by (simp_all add: launch_def Let_def)

lemma sender_ok_pending [simp]: "sender_ok h (c\<lparr>pendingWrites := ps\<rparr>) = sender_ok h c"
  by (simp add: sender_ok_def)

lemma sender_ok_fill_loop:
  "sender_ok h c \<Longrightarrow> length (written h) < 2 ^ 32 \<Longrightarrow> ps = drop (unat (nextSeq c)) (written h) \<Longrightarrow>
     sender_ok h (fill_loop ck ps c) \<and> queue_ok h (fill_loop ck ps c)"
proof (induction ck ps c rule: fill_loop.induct)
  case (1 ck c)
  then show ?case by (simp add: queue_ok_def)
next
  case (2 ck pl rest c)
  have k: "unat (nextSeq c) < length (written h)"
    using "2.prems"(3) by (metis drop_all list.discI linorder_not_le)
  then have pl: "pl = written h ! unat (nextSeq c)" and rest: "rest = drop (Suc (unat (nextSeq c))) (written h)"
    using "2.prems"(3) Cons_nth_drop_Suc [OF k] by (metis list.inject)+
  show ?case
  proof (cases "int (length (sendBuffer c)) < Window (params c)")
    case True
    have "sender_ok h (launch (ck 0) pl c)"
      using sender_ok_launch [OF "2.prems"(1) k "2.prems"(2) True] pl by simp
    with "2.IH" [OF True] "2.prems"(2) rest next_seq [OF k "2.prems"(2)] True show ?thesis
      by simp
  next
    case False
    then have "int (length (sendBuffer c)) = Window (params c)"
      using "2.prems"(1) by (simp add: sender_ok_def Let_def)
    moreover have "fill_loop ck (pl # rest) c = c\<lparr>pendingWrites := pl # rest\<rparr>"
      using False by simp
    ultimately show ?thesis
      using "2.prems"(1,3) by (simp only: queue_ok_def sender_ok_pending) simp
  qed
qed

lemma fill_loop_frame [simp]:
  "params (fill_loop ck ps c) = params c" "cid (fill_loop ck ps c) = cid c" "phase (fill_loop ck ps c) = phase c"
  "deliverQ (fill_loop ck ps c) = deliverQ c" "outCh (fill_loop ck ps c) = outCh c" "dead (fill_loop ck ps c) = dead c"
  "held (fill_loop ck ps c) = held c" "ordNext (fill_loop ck ps c) = ordNext c"
  "epochsSilent (fill_loop ck ps c) = epochsSilent c" "epoch (fill_loop ck ps c) = epoch c"
  by (induction ck ps c rule: fill_loop.induct) simp_all

lemma fillWindow_frame [simp]:
  "params (fillWindow ck c) = params c" "cid (fillWindow ck c) = cid c" "phase (fillWindow ck c) = phase c"
  "deliverQ (fillWindow ck c) = deliverQ c" "outCh (fillWindow ck c) = outCh c" "dead (fillWindow ck c) = dead c"
  "held (fillWindow ck c) = held c" "ordNext (fillWindow ck c) = ordNext c"
  "epochsSilent (fillWindow ck c) = epochsSilent c" "epoch (fillWindow ck c) = epoch c"
  by (simp_all add: fillWindow_def)

definition conn_ok :: "hist \<Rightarrow> conn \<Rightarrow> bool" where
  "conn_ok h c \<longleftrightarrow> sender_ok h c \<and> queue_ok h c"

lemma conn_ok_seq: "conn_ok h c \<Longrightarrow> unat (nextSeq c) \<le> length (written h)"
  unfolding conn_ok_def sender_ok_def Let_def by (elim conjE)

lemma conn_ok_pending: "conn_ok h c \<Longrightarrow> pendingWrites c = drop (unat (nextSeq c)) (written h)"
  unfolding conn_ok_def queue_ok_def by (elim conjE)

text \<open>The invariant reads six fields of the connection.\<close>

lemma conn_ok_cong:
  "nextSeq c' = nextSeq c \<Longrightarrow> sendBuffer c' = sendBuffer c \<Longrightarrow> params c' = params c \<Longrightarrow> cid c' = cid c \<Longrightarrow>
   sock c' = sock c \<Longrightarrow> pendingWrites c' = pendingWrites c \<Longrightarrow> conn_ok h c' = conn_ok h c"
  by (simp add: conn_ok_def sender_ok_def queue_ok_def)

lemma conn_ok_send:
  assumes "conn_ok h c" "dgram_ok h (unat (nextSeq c)) (cid c) (marshal t (cid c) s pl)"
  shows "conn_ok h (send t s pl c)"
  using assms by (auto simp: conn_ok_def sender_ok_def queue_ok_def Let_def)

lemma conn_ok_fillWindow:
  assumes "sender_ok h c" "pendingWrites c = drop (unat (nextSeq c)) (written h)" "length (written h) < 2 ^ 32"
  shows "conn_ok h (fillWindow ck c)"
  unfolding conn_ok_def fillWindow_def by (rule sender_ok_fill_loop [OF assms(1,3,2)])

section \<open>Acknowledgements\<close>

lemma sampleRTT_frame [simp]:
  "nextSeq (sampleRTT d c) = nextSeq c" "sendBuffer (sampleRTT d c) = sendBuffer c" "params (sampleRTT d c) = params c"
  "cid (sampleRTT d c) = cid c" "sock (sampleRTT d c) = sock c" "pendingWrites (sampleRTT d c) = pendingWrites c"
  "phase (sampleRTT d c) = phase c" "deliverQ (sampleRTT d c) = deliverQ c" "outCh (sampleRTT d c) = outCh c"
  "dead (sampleRTT d c) = dead c" "held (sampleRTT d c) = held c" "ordNext (sampleRTT d c) = ordNext c"
  "epochsSilent (sampleRTT d c) = epochsSilent c" "epoch (sampleRTT d c) = epoch c"
  by (simp_all add: sampleRTT_def Let_def)

lemma onAck_frame [simp]:
  "params (onAck ck s c) = params c" "cid (onAck ck s c) = cid c" "phase (onAck ck s c) = phase c"
  "deliverQ (onAck ck s c) = deliverQ c" "outCh (onAck ck s c) = outCh c" "dead (onAck ck s c) = dead c"
  "held (onAck ck s c) = held c" "ordNext (onAck ck s c) = ordNext c"
  "epochsSilent (onAck ck s c) = epochsSilent c" "epoch (onAck ck s c) = epoch c"
  by (simp_all add: onAck_def Let_def split: option.split)

lemma sender_ok_mdel:
  assumes "sender_ok h c" "s \<in> acked h"
  shows "sender_ok h (c\<lparr>sendBuffer := mdel (sendBuffer c) s\<rparr>)"
  using assms length_mdel_le [of "sendBuffer c" s] by (auto simp: sender_ok_def Let_def)

lemma conn_ok_onAck:
  assumes ok: "conn_ok h c" and s: "s \<in> acked h" and len: "length (written h) < 2 ^ 32"
  shows "conn_ok h (onAck ck s c)"
proof (cases "mget (sendBuffer c) s")
  case None
  with ok show ?thesis by (simp add: onAck_def)
next
  case (Some m)
  define c1 where "c1 = (if \<not> retransmitted m then sampleRTT (ck 0 - firstSent m) c else c)"
  have c1: "conn_ok h c1"
    using ok conn_ok_cong [of c1 c h] by (simp add: c1_def)
  have "conn_ok h (fillWindow (\<lambda>i. ck (Suc i)) (c1\<lparr>sendBuffer := mdel (sendBuffer c1) s\<rparr>))"
    using c1 s by (intro conn_ok_fillWindow sender_ok_mdel len) (auto simp: conn_ok_def queue_ok_def)
  with Some show ?thesis by (simp add: onAck_def c1_def Let_def)
qed

section \<open>Retransmission\<close>

lemma rtx_one_frame [simp]:
  "nextSeq (rtx_one now l c e) = nextSeq c" "params (rtx_one now l c e) = params c" "cid (rtx_one now l c e) = cid c"
  "pendingWrites (rtx_one now l c e) = pendingWrites c" "phase (rtx_one now l c e) = phase c"
  "deliverQ (rtx_one now l c e) = deliverQ c" "outCh (rtx_one now l c e) = outCh c" "dead (rtx_one now l c e) = dead c"
  "held (rtx_one now l c e) = held c" "ordNext (rtx_one now l c e) = ordNext c"
  "epochsSilent (rtx_one now l c e) = epochsSilent c" "epoch (rtx_one now l c e) = epoch c"
  by (simp_all add: rtx_one_def Let_def)

lemma conn_ok_rtx_one:
  assumes ok: "conn_ok h c" and e: "fst e \<in> mkeys (sendBuffer c)"
    and d: "data_ok (written h) (unat (nextSeq c)) (fst e) (om_payload (snd e))"
  shows "conn_ok h (rtx_one now l c e)" "mkeys (sendBuffer (rtx_one now l c e)) = mkeys (sendBuffer c)"
proof -
  define m' where "m' = (snd e)\<lparr>lastSent := now, retries := retries (snd e) + 1, retransmitted := True,
    rto := (if rto (snd e) * 2 > l then l else rto (snd e) * 2)\<rparr>"
  define c0 where "c0 = c\<lparr>sendBuffer := mput (sendBuffer c) (fst e) m'\<rparr>"
  have "om_payload m' = om_payload (snd e)" by (simp add: m'_def)
  moreover have "mwf (sendBuffer c)" using ok by (simp add: conn_ok_def sender_ok_def Let_def)
  ultimately have "conn_ok h c0"
    using ok d e by (auto simp: c0_def conn_ok_def sender_ok_def queue_ok_def Let_def length_mput insert_absorb)
  then have "conn_ok h (send typeData (fst e) (om_payload (snd e)) c0)"
    using d by (intro conn_ok_send) (auto simp: c0_def intro: dgram_data)
  with ok show "conn_ok h (rtx_one now l c e)"
    by (auto simp: rtx_one_def Let_def c0_def m'_def conn_ok_def sender_ok_def queue_ok_def)
  show "mkeys (sendBuffer (rtx_one now l c e)) = mkeys (sendBuffer c)"
    using e by (auto simp: rtx_one_def Let_def)
qed

lemma conn_ok_rtx_fold:
  "conn_ok h c \<Longrightarrow> \<forall>e \<in> set es. fst e \<in> mkeys (sendBuffer c) \<and>
     data_ok (written h) (unat (nextSeq c)) (fst e) (om_payload (snd e)) \<Longrightarrow>
   conn_ok h (foldl (rtx_one now l) c es)"
proof (induction es arbitrary: c)
  case Nil
  then show ?case by simp
next
  case (Cons e es)
  then have "fst e \<in> mkeys (sendBuffer c)" "data_ok (written h) (unat (nextSeq c)) (fst e) (om_payload (snd e))"
    by simp_all
  note one = conn_ok_rtx_one [OF Cons.prems(1) this, of now l]
  with Cons show ?case by simp
qed

lemma retransmitExpired_frame [simp]:
  "params (retransmitExpired now c) = params c" "cid (retransmitExpired now c) = cid c"
  "phase (retransmitExpired now c) = phase c" "deliverQ (retransmitExpired now c) = deliverQ c"
  "outCh (retransmitExpired now c) = outCh c" "dead (retransmitExpired now c) = dead c"
  "held (retransmitExpired now c) = held c" "ordNext (retransmitExpired now c) = ordNext c"
  "epochsSilent (retransmitExpired now c) = epochsSilent c" "epoch (retransmitExpired now c) = epoch c"
proof -
  have "params (foldl (rtx_one now l) c es) = params c \<and> cid (foldl (rtx_one now l) c es) = cid c \<and>
    phase (foldl (rtx_one now l) c es) = phase c \<and> deliverQ (foldl (rtx_one now l) c es) = deliverQ c \<and>
    outCh (foldl (rtx_one now l) c es) = outCh c \<and> dead (foldl (rtx_one now l) c es) = dead c \<and>
    held (foldl (rtx_one now l) c es) = held c \<and> ordNext (foldl (rtx_one now l) c es) = ordNext c \<and>
    epochsSilent (foldl (rtx_one now l) c es) = epochsSilent c \<and> epoch (foldl (rtx_one now l) c es) = epoch c" for l es
    by (induction es arbitrary: c) simp_all
  then show
    "params (retransmitExpired now c) = params c" "cid (retransmitExpired now c) = cid c"
    "phase (retransmitExpired now c) = phase c" "deliverQ (retransmitExpired now c) = deliverQ c"
    "outCh (retransmitExpired now c) = outCh c" "dead (retransmitExpired now c) = dead c"
    "held (retransmitExpired now c) = held c" "ordNext (retransmitExpired now c) = ordNext c"
    "epochsSilent (retransmitExpired now c) = epochsSilent c" "epoch (retransmitExpired now c) = epoch c"
    by (simp_all add: retransmitExpired_def)
qed

lemma conn_ok_retransmit:
  assumes "conn_ok h c"
  shows "conn_ok h (retransmitExpired now c)"
proof -
  have "mwf (sendBuffer c)" using assms by (simp add: conn_ok_def sender_ok_def Let_def)
  then have "\<forall>e \<in> set (sendBuffer c). mget (sendBuffer c) (fst e) = Some (snd e)"
    by (simp add: mget_mem)
  then have "\<forall>e \<in> set (sendBuffer c). fst e \<in> mkeys (sendBuffer c) \<and>
      data_ok (written h) (unat (nextSeq c)) (fst e) (om_payload (snd e))"
    using assms by (auto simp: conn_ok_def sender_ok_def Let_def dest: mget_Some_key)
  with assms show ?thesis unfolding retransmitExpired_def by (intro conn_ok_rtx_fold)
qed

section \<open>Every step keeps it\<close>

lemma observe_written: "\<exists>xs. written (observe c ev h) = written h @ xs"
  by (cases ev) auto

lemma observe_written_same: "phase c \<noteq> Running \<Longrightarrow> written (observe c ev h) = written h"
  by (cases ev) auto

lemma observe_mono:
  "acked h \<subseteq> acked (observe c ev h)" "set (recvd h) \<subseteq> set (recvd (observe c ev h))" "late h \<subseteq> late (observe c ev h)"
  by (cases ev; auto)+

lemma sender_ok_hist:
  assumes ok: "sender_ok h c" and w: "written h' = written h @ xs"
    and m: "acked h \<subseteq> acked h'" "set (recvd h) \<subseteq> set (recvd h')" "late h \<subseteq> late h'"
  shows "sender_ok h' c"
proof -
  let ?k = "unat (nextSeq c)"
  have le: "?k \<le> length (written h)" using ok by (simp add: sender_ok_def Let_def)
  have d: "data_ok (written h') ?k s pl" if "data_ok (written h) ?k s pl" for s pl
    using that le by (auto simp: data_ok_def w nth_append)
  moreover have "dgram_ok h' ?k i x" if "dgram_ok h ?k i x" for i x
    using that d m unfolding dgram_ok_def by blast
  ultimately show ?thesis
    using ok le m w unfolding sender_ok_def Let_def by auto
qed

lemma sender_ok_observe: "sender_ok h c \<Longrightarrow> sender_ok (observe c ev h) c"
  using observe_written [of c ev h] sender_ok_hist [OF _ _ observe_mono [of h c ev]] by blast

lemma conn_ok_observe:
  "conn_ok h c \<Longrightarrow> written (observe c ev h) = written h \<Longrightarrow> conn_ok (observe c ev h) c"
  by (simp add: conn_ok_def sender_ok_observe queue_ok_def)

lemma publishStats_frame [simp]:
  "nextSeq (publishStats now r f c) = nextSeq c" "sendBuffer (publishStats now r f c) = sendBuffer c"
  "params (publishStats now r f c) = params c" "cid (publishStats now r f c) = cid c" "sock (publishStats now r f c) = sock c"
  "pendingWrites (publishStats now r f c) = pendingWrites c" "phase (publishStats now r f c) = phase c"
  "deliverQ (publishStats now r f c) = deliverQ c" "outCh (publishStats now r f c) = outCh c"
  "dead (publishStats now r f c) = dead c" "held (publishStats now r f c) = held c"
  "ordNext (publishStats now r f c) = ordNext c" "epochsSilent (publishStats now r f c) = epochsSilent c"
  "epoch (publishStats now r f c) = epoch c"
  by (simp_all add: publishStats_def Let_def)

lemma conn_ok_ends [simp]:
  "conn_ok h (publishStats now r f c) = conn_ok h c"
  "conn_ok h (drainAndExit now r err c) = conn_ok h c"
  "conn_ok h (finish now r c) = conn_ok h c"
  by (simp_all add: conn_ok_def sender_ok_def queue_ok_def drainAndExit_def finish_def Let_def)

lemma release_frame [simp]:
  "nextSeq (release c) = nextSeq c" "sendBuffer (release c) = sendBuffer c" "params (release c) = params c"
  "cid (release c) = cid c" "sock (release c) = sock c" "pendingWrites (release c) = pendingWrites c"
  "phase (release c) = phase c" "outCh (release c) = outCh c" "dead (release c) = dead c"
  "epochsSilent (release c) = epochsSilent c" "epoch (release c) = epoch c"
proof -
  have "nextSeq (release c) = nextSeq c \<and> sendBuffer (release c) = sendBuffer c \<and> params (release c) = params c \<and>
    cid (release c) = cid c \<and> sock (release c) = sock c \<and> pendingWrites (release c) = pendingWrites c \<and>
    phase (release c) = phase c \<and> outCh (release c) = outCh c \<and> dead (release c) = dead c \<and>
    epochsSilent (release c) = epochsSilent c \<and> epoch (release c) = epoch c"
  proof (induction c rule: release.induct)
    case (1 c)
    then show ?case by (subst (1 2 3 4 5 6 7 8 9 10 11) release.simps) (simp split: option.split)
  qed
  then show
    "nextSeq (release c) = nextSeq c" "sendBuffer (release c) = sendBuffer c" "params (release c) = params c"
    "cid (release c) = cid c" "sock (release c) = sock c" "pendingWrites (release c) = pendingWrites c"
    "phase (release c) = phase c" "outCh (release c) = outCh c" "dead (release c) = dead c"
    "epochsSilent (release c) = epochsSilent c" "epoch (release c) = epoch c" by simp_all
qed

lemma accept_frame [simp]:
  "nextSeq (accept s pl c) = nextSeq c" "sendBuffer (accept s pl c) = sendBuffer c" "params (accept s pl c) = params c"
  "cid (accept s pl c) = cid c" "sock (accept s pl c) = sock c" "pendingWrites (accept s pl c) = pendingWrites c"
  "phase (accept s pl c) = phase c" "outCh (accept s pl c) = outCh c" "dead (accept s pl c) = dead c"
  "epochsSilent (accept s pl c) = epochsSilent c" "epoch (accept s pl c) = epoch c"
  by (simp_all add: accept_def acceptOrdered_def deliverOnArrival_def)

lemma conn_ok_sendAck:
  assumes "conn_ok h c" "s = 0 \<or> s \<in> fst ` set (recvd h) \<or> s \<in> late h"
  shows "conn_ok h (sendAck s c)"
proof -
  have "conn_ok h (send typeAck s [] c)"
    using assms by (intro conn_ok_send dgram_ack)
  then show ?thesis by (simp add: sendAck_def Let_def conn_ok_def sender_ok_def queue_ok_def)
qed

lemma conn_ok_heartbeat:
  assumes "conn_ok h c"
  shows "conn_ok h (heartbeat c)"
proof -
  have "conn_ok h (send typeAck 0 [] c)"
    using assms by (intro conn_ok_send dgram_ack) auto
  with assms show ?thesis by (simp add: heartbeat_def Let_def conn_ok_def sender_ok_def queue_ok_def)
qed

lemma conn_ok_flush_guard:
  assumes "conn_ok h c"
  shows "conn_ok h (flush_guard now r c)"
  using assms conn_ok_send [OF assms dgram_close] by (simp add: flush_guard_def)

lemma heartbeat_frame [simp]:
  "params (heartbeat c) = params c" "cid (heartbeat c) = cid c" "phase (heartbeat c) = phase c"
  "deliverQ (heartbeat c) = deliverQ c" "outCh (heartbeat c) = outCh c" "dead (heartbeat c) = dead c"
  "held (heartbeat c) = held c" "ordNext (heartbeat c) = ordNext c" "epochsSilent (heartbeat c) = epochsSilent c"
  "epoch (heartbeat c) = epoch c"
  by (simp_all add: heartbeat_def Let_def)

lemma conn_ok_upd [simp]:
  "conn_ok h (c\<lparr>epochsSilent := n\<rparr>) = conn_ok h c" "conn_ok h (c\<lparr>phase := ph\<rparr>) = conn_ok h c"
  "conn_ok h (c\<lparr>stats := st, statsDirty := b\<rparr>) = conn_ok h c" "conn_ok h (c\<lparr>backlogs := bl\<rparr>) = conn_ok h c"
  "conn_ok h (c\<lparr>outCh := oc, deliverQ := dq\<rparr>) = conn_ok h c"
  "conn_ok h (c\<lparr>outCh := oc, deliverQ := dq, phase := ph\<rparr>) = conn_ok h c"
  "conn_ok h (accept s pl c) = conn_ok h c"
  by (simp_all add: conn_ok_def sender_ok_def queue_ok_def)

lemma conn_ok_write:
  assumes ok: "conn_ok h c" and len: "length (written h) + 1 < 2 ^ 32"
  shows "conn_ok (h\<lparr>written := written h @ [d]\<rparr>) (fillWindow ck (c\<lparr>pendingWrites := pendingWrites c @ [d]\<rparr>))"
proof (rule conn_ok_fillWindow)
  have le: "unat (nextSeq c) \<le> length (written h)" and q: "pendingWrites c = drop (unat (nextSeq c)) (written h)"
    by (rule conn_ok_seq [OF ok], rule conn_ok_pending [OF ok])
  have "sender_ok (h\<lparr>written := written h @ [d]\<rparr>) c"
    by (rule sender_ok_hist [of h c _ "[d]"]) (use ok in \<open>simp_all add: conn_ok_def\<close>)
  then show "sender_ok (h\<lparr>written := written h @ [d]\<rparr>) (c\<lparr>pendingWrites := pendingWrites c @ [d]\<rparr>)" by simp
  show "pendingWrites (c\<lparr>pendingWrites := pendingWrites c @ [d]\<rparr>) =
      drop (unat (nextSeq (c\<lparr>pendingWrites := pendingWrites c @ [d]\<rparr>))) (written (h\<lparr>written := written h @ [d]\<rparr>))"
    using le q by simp
  show "length (written (h\<lparr>written := written h @ [d]\<rparr>)) < 2 ^ 32" using len by simp
qed

lemma conn_ok_packet:
  assumes ok: "conn_ok h c" and ph: "phase c = Running" and len: "length (written h) < 2 ^ 32"
  shows "conn_ok (observe c (EvPacket p) h) (main_step e (EvPacket p) c)"
proof -
  let ?h = "observe c (EvPacket p) h"
  have h: "conn_ok ?h c" using ok by (intro conn_ok_observe) auto
  consider "connID p \<noteq> cid c" | "connID p = cid c" "ptyp p = typeAck" | "connID p = cid c" "ptyp p = typeData" "seq p = 0"
    | "connID p = cid c" "ptyp p = typeData" "seq p \<noteq> 0" | "connID p = cid c" "ptyp p \<noteq> typeAck" "ptyp p \<noteq> typeData"
    by blast
  then show ?thesis
  proof cases
    case 2
    then have "seq p \<in> acked ?h" "length (written ?h) < 2 ^ 32" using ph len by simp_all
    with h 2 show ?thesis by (auto simp del: observe.simps intro!: conn_ok_onAck)
  next
    case 4
    then have "seq p \<in> fst ` set (recvd ?h)" using ph by (simp add: type_defs)
    with h 4 show ?thesis by (auto simp: type_defs simp del: observe.simps intro!: conn_ok_sendAck)
  qed (use h in \<open>auto simp: type_defs Let_def simp del: observe.simps\<close>)
qed

lemma conn_ok_flush_packet:
  assumes ok: "conn_ok h c" and ph: "phase c = Flushing" and len: "length (written h) < 2 ^ 32"
  shows "conn_ok (observe c (EvPacket p) h) (flush_step e (EvPacket p) c)"
proof -
  let ?h = "observe c (EvPacket p) h"
  have h: "conn_ok ?h c" using ok by (intro conn_ok_observe) auto
  consider "connID p \<noteq> cid c" | "connID p = cid c" "ptyp p = typeAck"
    | "connID p = cid c" "ptyp p = typeData" | "connID p = cid c" "ptyp p \<noteq> typeAck" "ptyp p \<noteq> typeData"
    by blast
  then show ?thesis
  proof cases
    case 2
    then have "seq p \<in> acked ?h" "length (written ?h) < 2 ^ 32" using ph len by simp_all
    with h 2 show ?thesis by (auto simp del: observe.simps intro!: conn_ok_flush_guard conn_ok_onAck)
  next
    case 3
    then have "seq p \<in> late ?h" using ph by (simp add: type_defs)
    with h 3 show ?thesis by (auto simp: type_defs simp del: observe.simps intro!: conn_ok_sendAck)
  qed (use h in \<open>auto simp: type_defs Let_def simp del: observe.simps\<close>)
qed

lemma conn_ok_main_step:
  assumes ok: "conn_ok h c" and ph: "phase c = Running" and len: "length (written (observe c ev h)) < 2 ^ 32"
  shows "conn_ok (observe c ev h) (main_step e ev c)"
proof (cases ev)
  case (EvPacket p)
  with conn_ok_packet [OF ok ph, of p e] len show ?thesis by (auto split: if_splits)
next
  case (EvWrite d)
  with conn_ok_write [OF ok, of d "clk e"] ph len show ?thesis by (simp add: Let_def)
next
  case EvRead
  with ok show ?thesis by (simp split: list.split)
next
  case EvTick
  with conn_ok_heartbeat [OF conn_ok_retransmit [OF ok]] show ?thesis by (simp add: Let_def)
next
  case EvClose
  have "conn_ok h (fillWindow (later e 1) c)"
    using ok len EvClose by (intro conn_ok_fillWindow) (auto simp: conn_ok_def queue_ok_def)
  with EvClose show ?thesis by (auto intro: conn_ok_flush_guard)
next
  case EvStop
  with ok show ?thesis by simp
qed

lemma conn_ok_flush_step:
  assumes ok: "conn_ok h c" and ph: "phase c = Flushing" and len: "length (written (observe c ev h)) < 2 ^ 32"
  shows "conn_ok (observe c ev h) (flush_step e ev c)"
proof (cases ev)
  case (EvPacket p)
  with conn_ok_flush_packet [OF ok ph, of p e] len show ?thesis by (auto split: if_splits)
next
  case EvTick
  with conn_ok_heartbeat [OF conn_ok_retransmit [OF ok]] show ?thesis by (simp add: Let_def)
qed (use ok ph in simp_all)

lemma conn_ok_step:
  assumes ok: "conn_ok h c" and len: "length (written (observe c (snd ev) h)) < 2 ^ 32"
  shows "conn_ok (observe c (snd ev) h) (conn_step c ev)"
proof (cases "phase c")
  case Draining
  with ok have "conn_ok (observe c (snd ev) h) c"
    by (simp add: conn_ok_observe observe_written_same)
  with Draining show ?thesis
    by (cases "snd ev") (auto simp: conn_step_def simp del: observe.simps split: list.split)
next
  case Ended
  with ok have "conn_ok (observe c (snd ev) h) c"
    by (simp add: conn_ok_observe observe_written_same)
  with Ended show ?thesis by (simp add: conn_step_def)
qed (use conn_ok_main_step [OF ok _ len] conn_ok_flush_step [OF ok _ len] in \<open>simp_all add: conn_step_def\<close>)

lemma history_written: "\<exists>xs. written (history c evs h) = written h @ xs"
proof (induction evs arbitrary: c h)
  case Nil
  then show ?case by simp
next
  case (Cons ev evs)
  obtain ys where "written (history c (ev # evs) h) = written (observe c (snd ev) h) @ ys"
    using Cons [of "conn_step c ev" "observe c (snd ev) h"] by auto
  with observe_written [of c "snd ev" h] show ?case by auto
qed

lemma mainLoop_simps [simp]: "mainLoop c [] = c" "mainLoop c (ev # evs) = mainLoop (conn_step c ev) evs"
  by (simp_all add: mainLoop_def)

lemma conn_ok_run:
  "conn_ok h c \<Longrightarrow> length (written (history c evs h)) < 2 ^ 32 \<Longrightarrow> conn_ok (history c evs h) (mainLoop c evs)"
proof (induction evs arbitrary: c h)
  case Nil
  then show ?case by simp
next
  case (Cons ev evs)
  have "length (written (observe c (snd ev) h)) < 2 ^ 32"
    using history_written [of "conn_step c ev" evs "observe c (snd ev) h"] Cons.prems(2) by auto
  with Cons show ?case by (simp add: conn_ok_step)
qed

lemma conn_ok_new: "0 \<le> Window p \<Longrightarrow> conn_ok no_hist (newConn i cl p)"
  by (auto simp: conn_ok_def sender_ok_def queue_ok_def newConn_def no_hist_def)

text \<open>The invariant of a connection that was set up with the defaults filled in.\<close>

lemma conn_ok_trace:
  assumes "params_ok p" "length (written (history (newConn i cl p) evs no_hist)) < 2 ^ 32"
  shows "conn_ok (history (newConn i cl p) evs no_hist) (mainLoop (newConn i cl p) evs)"
  using assms by (intro conn_ok_run conn_ok_new) (auto simp: params_ok_def)

end
