(* ===== verification/ConnRecv.thy ===== *)
theory ConnRecv
  imports ConnSend
begin

text \<open>
  The receive side of a connection: what has been handed to \<^verbatim>\<open>Read\<close> or waits for it, relative to
  the data packets that arrived. The default path delivers every one of them in arrival order;
  the ordered path delivers a prefix of the peer's messages, each once.
\<close>

section \<open>Deliveries\<close>

definition good :: "delivery \<Rightarrow> bool" where
  "good d \<longleftrightarrow> dErr d = None"

text \<open>The payloads delivered so far: taken by \<^verbatim>\<open>Read\<close> already, then waiting for it.\<close>

definition delivered :: "conn \<Rightarrow> bytes list" where
  "delivered c = map dData (filter good (outCh c @ deliverQ c))"

lemma drain_frame [simp]:
  "outCh (drainAndExit now r err c) = outCh c"
  "deliverQ (drainAndExit now r err c) = deliverQ c @ [delivery (cid c) [] (Some err)]"
  "params (drainAndExit now r err c) = params c" "cid (drainAndExit now r err c) = cid c"
  "held (drainAndExit now r err c) = held c" "ordNext (drainAndExit now r err c) = ordNext c"
  "phase (drainAndExit now r err c) = Draining" "dead (drainAndExit now r err c)"
  by (simp_all add: drainAndExit_def Let_def)

lemma finish_frame [simp]:
  "outCh (finish now r c) = outCh c" "deliverQ (finish now r c) = deliverQ c"
  "params (finish now r c) = params c" "cid (finish now r c) = cid c"
  "held (finish now r c) = held c" "ordNext (finish now r c) = ordNext c"
  "phase (finish now r c) = Ended" "dead (finish now r c)"
  by (simp_all add: finish_def)

lemma flush_guard_frame [simp]:
  "outCh (flush_guard now r c) = outCh c" "deliverQ (flush_guard now r c) = deliverQ c"
  "params (flush_guard now r c) = params c" "cid (flush_guard now r c) = cid c"
  "held (flush_guard now r c) = held c" "ordNext (flush_guard now r c) = ordNext c"
  by (simp_all add: flush_guard_def)

lemma sendAck_frame [simp]:
  "outCh (sendAck s c) = outCh c" "deliverQ (sendAck s c) = deliverQ c" "params (sendAck s c) = params c"
  "cid (sendAck s c) = cid c" "held (sendAck s c) = held c" "ordNext (sendAck s c) = ordNext c"
  "phase (sendAck s c) = phase c" "epochsSilent (sendAck s c) = epochsSilent c"
  "sendBuffer (sendAck s c) = sendBuffer c" "pendingWrites (sendAck s c) = pendingWrites c" "nextSeq (sendAck s c) = nextSeq c"
  by (simp_all add: sendAck_def Let_def)

lemma flush_step_recv [simp]:
  "outCh (flush_step e ev c) = outCh c" "deliverQ (flush_step e ev c) = deliverQ c"
  "params (flush_step e ev c) = params c" "cid (flush_step e ev c) = cid c"
  "held (flush_step e ev c) = held c" "ordNext (flush_step e ev c) = ordNext c"
  by (cases ev; simp add: Let_def)+

lemma drain_step_recv [simp]:
  "outCh (drain_step ev c) @ deliverQ (drain_step ev c) = outCh c @ deliverQ c"
  "params (drain_step ev c) = params c" "cid (drain_step ev c) = cid c"
  "held (drain_step ev c) = held c" "ordNext (drain_step ev c) = ordNext c"
  by (cases ev; simp split: list.split)+

lemma main_step_const [simp]: "params (main_step e ev c) = params c" "cid (main_step e ev c) = cid c"
  by (cases ev; simp add: Let_def split: list.split)+

lemma conn_step_const [simp]: "params (conn_step c ev) = params c" "cid (conn_step c ev) = cid c"
  by (simp_all add: conn_step_def split: phase.split)

lemma mainLoop_const [simp]: "params (mainLoop c evs) = params c" "cid (mainLoop c evs) = cid c"
  by (induction evs arbitrary: c) simp_all

text \<open>Of all steps only a data packet changes what is delivered, and only while running.\<close>

lemma delivered_main_step:
  assumes "\<And>p. ev = EvPacket p \<Longrightarrow> connID p \<noteq> cid c \<or> ptyp p \<noteq> typeData \<or> seq p = 0"
  shows "delivered (main_step e ev c) = delivered c" "held (main_step e ev c) = held c"
    "ordNext (main_step e ev c) = ordNext c"
  using assms by (cases ev; auto simp: delivered_def good_def Let_def split: list.split)+

lemma delivered_other_step:
  assumes "phase c \<noteq> Running"
  shows "delivered (conn_step c ev) = delivered c" "held (conn_step c ev) = held c"
    "ordNext (conn_step c ev) = ordNext c"
  using assms by (cases "phase c"; simp add: conn_step_def delivered_def)+

lemma recvd_other:
  assumes "phase c \<noteq> Running \<or> (\<forall>p. ev = EvPacket p \<longrightarrow> connID p \<noteq> cid c \<or> ptyp p \<noteq> typeData \<or> seq p = 0)"
  shows "recvd (observe c ev h) = recvd h"
  using assms by (cases ev) auto

text \<open>
  One step, for an invariant of the receive side: it is enough to look at a data packet that
  arrives while the connection runs.
\<close>

lemma recv_step:
  assumes "P (recvd h) (delivered c) (held c) (ordNext c)"
    and "\<And>p c'. \<lbrakk>phase c = Running; snd ev = EvPacket p; connID p = cid c; ptyp p = typeData; seq p \<noteq> 0;
        delivered c' = delivered c; held c' = held c; ordNext c' = ordNext c; params c' = params c\<rbrakk> \<Longrightarrow>
      P (recvd h @ [(seq p, payload p)]) (delivered (accept (seq p) (payload p) c'))
        (held (accept (seq p) (payload p) c')) (ordNext (accept (seq p) (payload p) c'))"
  shows "P (recvd (observe c (snd ev) h)) (delivered (conn_step c ev)) (held (conn_step c ev)) (ordNext (conn_step c ev))"
proof (cases "\<exists>p. phase c = Running \<and> snd ev = EvPacket p \<and> connID p = cid c \<and> ptyp p = typeData \<and> seq p \<noteq> 0")
  case True
  then obtain p where p: "phase c = Running" "snd ev = EvPacket p" "connID p = cid c" "ptyp p = typeData" "seq p \<noteq> 0"
    by blast
  define c2 where "c2 = c\<lparr>epochsSilent := 0, stats := (stats c)\<lparr>DataReceived := DataReceived (stats c) + 1\<rparr>, statsDirty := True\<rparr>"
  have "conn_step c ev = sendAck (seq p) (accept (seq p) (payload p) c2)"
    using p by (simp add: conn_step_def c2_def type_defs Let_def)
  moreover have "delivered c2 = delivered c" "held c2 = held c" "ordNext c2 = ordNext c" "params c2 = params c"
    by (simp_all add: c2_def delivered_def)
  ultimately show ?thesis
    using assms(2) [OF p, of c2] p by (simp add: delivered_def type_defs)
next
  case False
  show ?thesis
  proof (cases "phase c = Running")
    case True
    with False assms(1) show ?thesis
      by (auto simp: recvd_other conn_step_def delivered_main_step simp del: main_step.simps)
  next
    case False
    with assms(1) show ?thesis by (simp add: recvd_other delivered_other_step)
  qed
qed

section \<open>The default path\<close>

lemma delivered_trace:
  assumes "\<not> OrderedDelivery (params c)" "delivered c = map snd (recvd h)"
  shows "delivered (mainLoop c evs) = map snd (recvd (history c evs h))"
  using assms
proof (induction evs arbitrary: c h)
  case Nil
  then show ?case by simp
next
  case (Cons ev evs)
  have "delivered (conn_step c ev) = map snd (recvd (observe c (snd ev) h))"
    using Cons.prems by (intro recv_step [where P = "\<lambda>r d _ _. d = map snd r"])
      (auto simp: accept_def deliverOnArrival_def delivered_def good_def)
  with Cons show ?case by simp
qed

section \<open>The ordered path\<close>

text \<open>
  Relative to the peer's messages \<open>W\<close>: the messages below \<open>ordNext\<close> are delivered, what is held
  lies at or above it, and everything that arrived is one of the two.
\<close>

definition ord_core :: "bytes list \<Rightarrow> bytes list \<Rightarrow> (u32, bytes) gomap \<Rightarrow> u32 \<Rightarrow> bool" where
  "ord_core W d hm n \<longleftrightarrow> 1 \<le> unat n \<and> unat n \<le> Suc (length W) \<and> d = take (unat n - 1) W \<and>
     (\<forall>s pl. mget hm s = Some pl \<longrightarrow> unat n \<le> unat s \<and> data_ok W (length W) s pl)"

lemma delivered_push:
  "delivered (c\<lparr>deliverQ := deliverQ c @ [delivery i pl None], held := hm, ordNext := n\<rparr>) = delivered c @ [pl]"
  by (simp add: delivered_def good_def)

lemma release_ok:
  assumes "Suc (length W) < 2 ^ 32"
  shows "ord_core W (delivered c) (held c) (ordNext c) \<Longrightarrow>
    ord_core W (delivered (release c)) (held (release c)) (ordNext (release c)) \<and>
    ordNext (release c) \<notin> mkeys (held (release c)) \<and>
    (\<forall>s. unat s < unat (ordNext c) \<or> s \<in> mkeys (held c) \<longrightarrow>
      unat s < unat (ordNext (release c)) \<or> s \<in> mkeys (held (release c)))"
proof (induction c rule: release.induct)
  case (1 c)
  show ?case
  proof (cases "mget (held c) (ordNext c)")
    case None
    then have "release c = c" by (simp add: release.simps)
    with 1 None show ?thesis by (simp add: mget_None_iff)
  next
    case (Some pl)
    let ?c = "c\<lparr>deliverQ := deliverQ c @ [delivery (cid c) pl None], held := mdel (held c) (ordNext c), ordNext := ordNext c + 1\<rparr>"
    let ?n = "unat (ordNext c)"
    have d: "data_ok W (length W) (ordNext c) pl" and dl: "delivered c = take (?n - 1) W" and n1: "1 \<le> ?n"
      and all: "\<And>s pl. mget (held c) s = Some pl \<Longrightarrow> ?n \<le> unat s \<and> data_ok W (length W) s pl"
      using "1.prems" Some unfolding ord_core_def by blast+
    then have le: "?n \<le> length W" and pl: "pl = W ! (?n - 1)" by (simp_all add: data_ok_def)
    with assms have n: "unat (ordNext c + 1) = Suc ?n" by (simp add: unat_word_ariths)
    have "take ?n W = take (?n - 1) W @ [pl]"
      using take_Suc_conv_app_nth [of "?n - 1" W] le pl n1 by simp
    moreover have "Suc ?n \<le> unat s" if "mget (held c) s = Some q" "s \<noteq> ordNext c" for s q
      using all [OF that(1)] that(2) by (metis Suc_leI le_neq_implies_less word_unat_eq_iff)
    ultimately have "ord_core W (delivered ?c) (held ?c) (ordNext ?c)"
      using n le dl all by (auto simp: ord_core_def delivered_push)
    note IH = "1.IH" [OF Some this]
    have rel: "release c = release ?c" using Some by (subst release.simps) simp
    have "unat s < unat (ordNext ?c) \<or> s \<in> mkeys (held ?c)" if "unat s < ?n \<or> s \<in> mkeys (held c)" for s
      using that n by auto
    with IH show ?thesis unfolding rel by blast
  qed
qed

definition ord_ok :: "bytes list \<Rightarrow> (u32 \<times> bytes) list \<Rightarrow> bytes list \<Rightarrow> (u32, bytes) gomap \<Rightarrow> u32 \<Rightarrow> bool" where
  "ord_ok W r d hm n \<longleftrightarrow> ((\<forall>(s, pl) \<in> set r. data_ok W (length W) s pl) \<longrightarrow>
     ord_core W d hm n \<and> n \<notin> mkeys hm \<and> (\<forall>(s, pl) \<in> set r. unat s < unat n \<or> s \<in> mkeys hm))"

lemma ord_ok_accept:
  assumes len: "Suc (length W) < 2 ^ 32" and o: "OrderedDelivery (params c)"
    and ok: "ord_ok W r (delivered c) (held c) (ordNext c)"
  shows "ord_ok W (r @ [(s, pl)]) (delivered (accept s pl c)) (held (accept s pl c)) (ordNext (accept s pl c))"
proof (cases "s < ordNext c \<or> mget (held c) s \<noteq> None")
  case True
  then have "accept s pl c = c" using o by (simp add: accept_def acceptOrdered_def)
  with ok True show ?thesis by (auto simp: ord_ok_def mget_None_iff word_less_nat_alt)
next
  case False
  let ?c = "c\<lparr>held := mput (held c) s pl\<rparr>"
  have acc: "accept s pl c = release ?c" using False o by (simp add: accept_def acceptOrdered_def)
  show ?thesis unfolding ord_ok_def
  proof
    assume all: "\<forall>(s, pl) \<in> set (r @ [(s, pl)]). data_ok W (length W) s pl"
    then have core: "ord_core W (delivered c) (held c) (ordNext c)" and r: "\<forall>(s, pl) \<in> set r. unat s < unat (ordNext c) \<or> s \<in> mkeys (held c)"
      using ok by (auto simp: ord_ok_def)
    have "ord_core W (delivered ?c) (held ?c) (ordNext ?c)"
      using core all False by (auto simp: ord_core_def delivered_def word_less_nat_alt not_less)
    note rel = release_ok [OF len this]
    then show "ord_core W (delivered (accept s pl c)) (held (accept s pl c)) (ordNext (accept s pl c)) \<and>
        ordNext (accept s pl c) \<notin> mkeys (held (accept s pl c)) \<and>
        (\<forall>(x, q) \<in> set (r @ [(s, pl)]). unat x < unat (ordNext (accept s pl c)) \<or> x \<in> mkeys (held (accept s pl c)))"
      using r unfolding acc by fastforce
  qed
qed

lemma ord_ok_trace:
  assumes len: "Suc (length W) < 2 ^ 32" and "OrderedDelivery (params c)"
    and "ord_ok W (recvd h) (delivered c) (held c) (ordNext c)"
  shows "ord_ok W (recvd (history c evs h)) (delivered (mainLoop c evs)) (held (mainLoop c evs)) (ordNext (mainLoop c evs))"
  using assms(2-)
proof (induction evs arbitrary: c h)
  case Nil
  then show ?case by simp
next
  case (Cons ev evs)
  have "ord_ok W (recvd (observe c (snd ev) h)) (delivered (conn_step c ev)) (held (conn_step c ev)) (ordNext (conn_step c ev))"
    using Cons.prems by (intro recv_step [where P = "ord_ok W"] ord_ok_accept [OF len]) auto
  with Cons show ?case by simp
qed

lemma ord_ok_new: "ord_ok W [] (delivered (newConn i cl p)) (held (newConn i cl p)) (ordNext (newConn i cl p))"
  by (simp add: ord_ok_def ord_core_def newConn_def delivered_def)

end
