(* ===== verification/Link.thy ===== *)
theory Link
  imports ConnRecv
begin

text \<open>
  Two connections joined by a network that may lose, duplicate, delay and reorder datagrams:
  all that is asked of it is that every packet an endpoint sees is a datagram the other one
  sent. From the invariants of the two endpoints follow the promises of the transport: a
  message leaves the sender's books only after the receiver has it, nothing is invented, the
  ordered mode delivers a prefix, and a connection that says goodbye has delivered everything.
\<close>

section \<open>The network\<close>

definition carried :: "bytes list \<Rightarrow> (env \<times> event) list \<Rightarrow> bool" where
  "carried net evs \<longleftrightarrow>
     (\<forall>x \<in> set evs. case snd x of EvPacket p \<Rightarrow> (\<exists>d \<in> set net. parse d = Ret (Some p)) | _ \<Rightarrow> True)"

text \<open>
  The packets that matter to connection \<open>i\<close>: its data and its acknowledgements. Whatever else a network
  that carries only \<open>net\<close> brings is ignored.
\<close>

definition relays :: "u32 \<Rightarrow> bytes list \<Rightarrow> (env \<times> event) list \<Rightarrow> bool" where
  "relays i net evs \<longleftrightarrow>
     (\<forall>e p. (e, EvPacket p) \<in> set evs \<and> connID p = i \<and> ptyp p \<in> {typeData, typeAck} \<longrightarrow> marshal_packet p \<in> set net)"

lemma carried_relays: "carried net evs \<Longrightarrow> relays i net evs"
  unfolding carried_def relays_def by (fastforce dest: marshal_parse(2))

text \<open>The application on this side has not called \<^verbatim>\<open>Close\<close>.\<close>

definition stays_open :: "(env \<times> event) list \<Rightarrow> bool" where
  "stays_open evs \<longleftrightarrow> (\<forall>x \<in> set evs. snd x \<noteq> EvClose)"

section \<open>What the history says about the events\<close>

lemma history_recvd:
  "(s, pl) \<in> set (recvd (history c evs h)) \<Longrightarrow>
     (s, pl) \<in> set (recvd h) \<or>
     (\<exists>e p. (e, EvPacket p) \<in> set evs \<and> connID p = cid c \<and> ptyp p = typeData \<and> seq p = s \<and> payload p = pl)"
proof (induction evs arbitrary: c h)
  case Nil
  then show ?case by simp
next
  case (Cons ev evs)
  consider "(s, pl) \<in> set (recvd (observe c (snd ev) h))"
    | e p where "(e, EvPacket p) \<in> set evs" "connID p = cid c" "ptyp p = typeData" "seq p = s" "payload p = pl"
    using Cons.IH [of "conn_step c ev" "observe c (snd ev) h"] Cons.prems by auto
  then show ?case
  proof cases
    case 1
    then consider "(s, pl) \<in> set (recvd h)" | p where "snd ev = EvPacket p" "connID p = cid c" "ptyp p = typeData" "seq p = s" "payload p = pl"
      by (cases "snd ev") (auto split: if_splits)
    then show ?thesis by cases (auto, metis prod.collapse)
  qed auto
qed

lemma history_acked:
  "s \<in> acked (history c evs h) \<Longrightarrow>
     s \<in> acked h \<or> (\<exists>e p. (e, EvPacket p) \<in> set evs \<and> connID p = cid c \<and> ptyp p = typeAck \<and> seq p = s)"
proof (induction evs arbitrary: c h)
  case Nil
  then show ?case by simp
next
  case (Cons ev evs)
  consider "s \<in> acked (observe c (snd ev) h)"
    | e p where "(e, EvPacket p) \<in> set evs" "connID p = cid c" "ptyp p = typeAck" "seq p = s"
    using Cons.IH [of "conn_step c ev" "observe c (snd ev) h"] Cons.prems by auto
  then show ?case
  proof cases
    case 1
    then consider "s \<in> acked h" | p where "snd ev = EvPacket p" "connID p = cid c" "ptyp p = typeAck" "seq p = s"
      by (cases "snd ev") (auto split: if_splits)
    then show ?thesis by cases (auto, metis prod.collapse)
  qed auto
qed

lemma not_flushing_step:
  "phase c \<noteq> Flushing \<Longrightarrow> snd ev \<noteq> EvClose \<Longrightarrow> phase (conn_step c ev) \<noteq> Flushing"
  by (cases "phase c"; cases "snd ev")
    (auto simp: conn_step_def Let_def split: list.split)

lemma late_open: "phase c \<noteq> Flushing \<Longrightarrow> stays_open evs \<Longrightarrow> late (history c evs h) = late h"
proof (induction evs arbitrary: c h)
  case Nil
  then show ?case by simp
next
  case (Cons ev evs)
  have "late (observe c (snd ev) h) = late h"
    using Cons.prems(1) by (cases "snd ev") auto
  with Cons not_flushing_step [of c ev] show ?case by (simp add: stays_open_def)
qed

section \<open>Datagrams and packets\<close>

lemma dgram_data_cases:
  assumes "dgram_ok h k i (marshal_packet p)" "ptyp p = typeData"
  shows "connID p = i" "data_ok (written h) k (seq p) (payload p)"
  using assms by (auto simp: dgram_ok_def marshal_packet_def type_defs)

lemma dgram_ack_cases:
  assumes "dgram_ok h k i (marshal_packet p)" "ptyp p = typeAck" "seq p \<noteq> 0"
  shows "seq p \<in> fst ` set (recvd h) \<or> seq p \<in> late h"
  using assms by (auto simp: dgram_ok_def marshal_packet_def type_defs)

lemma conn_ok_sock: "conn_ok h c \<Longrightarrow> d \<in> set (sock c) \<Longrightarrow> dgram_ok h (unat (nextSeq c)) (cid c) d"
  by (simp add: conn_ok_def sender_ok_def Let_def)

text \<open>Everything that arrives was written by the other side, under its own number.\<close>

lemma recvd_written:
  assumes "conn_ok hA A" "relays (cid cB) (sock A) evB" "(s, pl) \<in> set (recvd (history cB evB no_hist))"
  shows "data_ok (written hA) (unat (nextSeq A)) s pl"
proof -
  obtain e p where p: "(e, EvPacket p) \<in> set evB" "connID p = cid cB" "ptyp p = typeData" "seq p = s" "payload p = pl"
    using history_recvd [OF assms(3)] by (auto simp: no_hist_def)
  then have "marshal_packet p \<in> set (sock A)" using assms(2) unfolding relays_def by blast
  then have "dgram_ok hA (unat (nextSeq A)) (cid A) (marshal_packet p)" by (rule conn_ok_sock [OF assms(1)])
  from dgram_data_cases(2) [OF this p(3)] p show ?thesis by simp
qed

text \<open>Everything acknowledged has arrived, unless the receiver was closing.\<close>

lemma acked_recvd:
  assumes "conn_ok hB B" "relays (cid cA) (sock B) evA" "s \<in> acked (history cA evA no_hist)" "s \<noteq> 0" "late hB = {}"
  shows "s \<in> fst ` set (recvd hB)"
proof -
  obtain e p where p: "(e, EvPacket p) \<in> set evA" "connID p = cid cA" "ptyp p = typeAck" "seq p = s"
    using history_acked [OF assms(3)] by (auto simp: no_hist_def)
  then have "marshal_packet p \<in> set (sock B)" using assms(2) unfolding relays_def by blast
  then have "dgram_ok hB (unat (nextSeq B)) (cid B) (marshal_packet p)" by (rule conn_ok_sock [OF assms(1)])
  from dgram_ack_cases [OF this p(3)] p assms(4,5) show ?thesis by auto
qed

section \<open>At least once\<close>

text \<open>The messages the sender no longer keeps: neither pending nor in the send buffer.\<close>

definition settled :: "hist \<Rightarrow> conn \<Rightarrow> nat set" where
  "settled h c = {k. k < length (written h) \<and> k < unat (nextSeq c) \<and> of_nat (Suc k) \<notin> mkeys (sendBuffer c)}"

lemma settled_acked:
  assumes "conn_ok h c" "k \<in> settled h c"
  shows "of_nat (Suc k) \<in> acked h" "unat (of_nat (Suc k) :: u32) = Suc k"
proof -
  have k: "Suc k \<le> unat (nextSeq c)" using assms(2) by (simp add: settled_def)
  then show u: "unat (of_nat (Suc k) :: u32) = Suc k"
    using unat_bound [of "nextSeq c"] by (simp add: unat_of_nat del: of_nat_Suc)
  have "\<forall>s. 1 \<le> unat s \<and> unat s \<le> unat (nextSeq c) \<longrightarrow> s \<in> mkeys (sendBuffer c) \<or> s \<in> acked h"
    using assms(1) unfolding conn_ok_def sender_ok_def Let_def by (elim conjE)
  from spec [OF this, of "of_nat (Suc k)"] u k assms(2) show "of_nat (Suc k) \<in> acked h"
    by (auto simp: settled_def simp del: of_nat_Suc)
qed

lemma mset_cover:
  assumes "finite S" "inj_on f S" "f ` S \<subseteq> set xs"
  shows "image_mset (\<lambda>k. snd (f k)) (mset_set S) \<subseteq># mset (map snd xs)"
proof -
  have "mset_set (f ` S) \<subseteq># mset_set (set xs)"
    using assms(3) by (intro subset_imp_msubset_mset_set) auto
  also have "mset_set (set xs) \<subseteq># mset xs"
  proof (rule mset_subset_eqI)
    show "count (mset_set (set xs)) a \<le> count (mset xs) a" for a
      by (cases "a \<in> set xs") (auto simp: Suc_le_eq)
  qed
  finally have "image_mset snd (mset_set (f ` S)) \<subseteq># image_mset snd (mset xs)"
    by (rule image_mset_subseteq_mono)
  then have "image_mset snd (image_mset f (mset_set S)) \<subseteq># mset (map snd xs)"
    using image_mset_mset_set [OF assms(2)] by simp
  then show ?thesis by (simp only: multiset.map_comp comp_def)
qed

lemma mset_nths: "mset xs = image_mset (\<lambda>k. xs ! k) (mset_set {..<length xs})"
  by (metis atLeast0LessThan map_nth mset_map mset_upt)

lemma settled_delivered:
  assumes A: "conn_ok (history cA evA no_hist) A" and B: "conn_ok (history cB evB no_hist) B"
    and AB: "relays (cid cB) (sock A) evB" and BA: "relays (cid cA) (sock B) evA" and late: "late (history cB evB no_hist) = {}"
  shows "image_mset (\<lambda>k. written (history cA evA no_hist) ! k) (mset_set (settled (history cA evA no_hist) A))
    \<subseteq># mset (map snd (recvd (history cB evB no_hist)))"
proof -
  let ?hA = "history cA evA no_hist" and ?hB = "history cB evB no_hist"
  let ?S = "settled ?hA A" and ?f = "\<lambda>k. (of_nat (Suc k) :: u32, written ?hA ! k)"
  have fin: "finite ?S" by (simp add: settled_def)
  have inj: "inj_on ?f ?S"
    using settled_acked(2) [OF A] by (intro inj_onI) (metis Suc_inject prod.inject)
  have "?f k \<in> set (recvd ?hB)" if "k \<in> ?S" for k
  proof -
    note u = settled_acked [OF A that]
    then have "of_nat (Suc k) \<noteq> (0 :: u32)" by (metis nat.distinct(1) unat_0)
    with acked_recvd [OF B BA u(1) _ late] obtain pl where pl: "(of_nat (Suc k), pl) \<in> set (recvd ?hB)"
      by force
    from recvd_written [OF A AB this] have "pl = written ?hA ! k"
      using u(2) by (simp add: data_ok_def del: of_nat_Suc)
    with pl show ?thesis by simp
  qed
  then show ?thesis using mset_cover [OF fin inj, of "recvd ?hB"] by (simp add: image_subset_iff)
qed

section \<open>Saying goodbye\<close>

text \<open>The goodbye is sent once, at the end, when the sender owes nothing.\<close>

definition goodbye :: "conn \<Rightarrow> bool" where
  "goodbye c \<longleftrightarrow> marshal typeClose (cid c) 0 [] \<in> set (sock c)"

lemma goodbye_send [simp]: "goodbye (send t s pl c) \<longleftrightarrow> t = typeClose \<and> s = 0 \<and> pl = [] \<or> goodbye c"
  by (auto simp: goodbye_def)

lemma goodbye_launch [simp]: "goodbye (launch now pl c) = goodbye c"
  by (auto simp: launch_def Let_def goodbye_def type_defs)

lemma goodbye_fillWindow [simp]: "goodbye (fillWindow ck c) = goodbye c"
proof -
  have "goodbye (fill_loop ck ps c) = goodbye c" for ps
    by (induction ck ps c rule: fill_loop.induct) (simp_all, simp_all add: goodbye_def)
  then show ?thesis by (simp add: fillWindow_def)
qed

lemma goodbye_onAck [simp]: "goodbye (onAck ck s c) = goodbye c"
  by (auto simp: onAck_def Let_def split: option.split) (auto simp: goodbye_def)

lemma goodbye_retransmit [simp]: "goodbye (retransmitExpired now c) = goodbye c"
proof -
  have "goodbye (rtx_one now l c e) = goodbye c" for l c e
    by (auto simp: rtx_one_def Let_def goodbye_def type_defs)
  then have "goodbye (foldl (rtx_one now l) c es) = goodbye c" for l es
    by (induction es arbitrary: c) simp_all
  then show ?thesis by (simp add: retransmitExpired_def)
qed

lemma goodbye_simps [simp]:
  "goodbye (heartbeat c) = goodbye c" "goodbye (sendAck s c) = goodbye c" "goodbye (accept s pl c) = goodbye c"
  "goodbye (publishStats now r f c) = goodbye c" "goodbye (drainAndExit now r err c) = goodbye c"
  "goodbye (finish now r c) = goodbye c" "goodbye (c\<lparr>phase := ph\<rparr>) = goodbye c" "goodbye (c\<lparr>epochsSilent := n\<rparr>) = goodbye c"
  "goodbye (c\<lparr>stats := st, statsDirty := b\<rparr>) = goodbye c" "goodbye (c\<lparr>backlogs := bl\<rparr>) = goodbye c"
  "goodbye (c\<lparr>pendingWrites := ps\<rparr>) = goodbye c" "goodbye (c\<lparr>outCh := oc, deliverQ := dq\<rparr>) = goodbye c"
  "goodbye (c\<lparr>outCh := oc, deliverQ := dq, phase := ph\<rparr>) = goodbye c" "goodbye (c\<lparr>sendBuffer := sb\<rparr>) = goodbye c"
  by (auto simp: heartbeat_def sendAck_def goodbye_def drainAndExit_def finish_def Let_def type_defs)

definition owes :: "conn \<Rightarrow> bool" where
  "owes c \<longleftrightarrow> sendBuffer c \<noteq> [] \<or> pendingWrites c \<noteq> []"

definition bye_ok :: "conn \<Rightarrow> bool" where
  "bye_ok c \<longleftrightarrow> (goodbye c \<longrightarrow> phase c = Ended \<and> \<not> owes c)"

lemma bye_ok_guard: "\<not> goodbye c \<Longrightarrow> bye_ok (flush_guard now r c)"
  by (auto simp: bye_ok_def flush_guard_def owes_def) (auto simp: finish_def)

lemma bye_ok_step:
  assumes "bye_ok c"
  shows "bye_ok (conn_step c ev)"
proof (cases "phase c = Ended")
  case True
  with assms show ?thesis by (simp add: conn_step_def)
next
  case False
  with assms have no: "\<not> goodbye c" by (simp add: bye_ok_def)
  then have "bye_ok (main_step (fst ev) (snd ev) c)"
    by (cases "snd ev") (auto simp: Let_def split: list.split intro: bye_ok_guard, auto simp: bye_ok_def)
  moreover have "bye_ok (flush_step (fst ev) (snd ev) c)"
    using no by (cases "snd ev") (auto simp: Let_def intro: bye_ok_guard, auto simp: bye_ok_def)
  moreover have "bye_ok (drain_step (snd ev) c)"
    using no by (cases "snd ev") (auto simp: bye_ok_def split: list.split)
  ultimately show ?thesis
    using assms by (simp add: conn_step_def split: phase.split)
qed

lemma bye_ok_run: "bye_ok c \<Longrightarrow> bye_ok (mainLoop c evs)"
  by (induction evs arbitrary: c) (simp_all add: bye_ok_step)

lemma bye_ok_new: "bye_ok (newConn i cl p)"
  by (simp add: bye_ok_def goodbye_def newConn_def)

lemma settled_all:
  assumes "conn_ok h c" "\<not> owes c"
  shows "settled h c = {..<length (written h)}"
  using conn_ok_seq [OF assms(1)] conn_ok_pending [OF assms(1)] assms(2) by (auto simp: settled_def owes_def)

section \<open>A short run\<close>

text \<open>
  Two messages are written; the first is delivered twice, the network having repeated its
  datagram, and acknowledged; the second overtakes nothing and is still on its way. In the
  second run the sender closes after everything was acknowledged.
\<close>

definition quiet :: env where
  "quiet = \<lparr>clk = \<lambda>_. 0, room = True\<rparr>"

definition runA :: "(env \<times> event) list" where
  "runA = map (Pair quiet) [EvWrite [1], EvWrite [2], EvPacket (Packet typeAck 7 1 [])]"

definition runB :: "(env \<times> event) list" where
  "runB = map (Pair quiet) [EvPacket (Packet typeData 7 1 [1]), EvPacket (Packet typeData 7 1 [1]), EvRead]"

definition closeA :: "(env \<times> event) list" where
  "closeA = map (Pair quiet) [EvWrite [1], EvWrite [2], EvPacket (Packet typeAck 7 2 []), EvClose, EvPacket (Packet typeAck 7 1 [])]"

definition closeB :: "(env \<times> event) list" where
  "closeB = map (Pair quiet) [EvPacket (Packet typeData 7 2 [2]), EvPacket (Packet typeData 7 1 [1]), EvRead, EvRead]"

definition orderedParams :: rudpParams where
  "orderedParams = DefaultParams\<lparr>OrderedDelivery := True\<rparr>"

section \<open>Properties\<close>





text \<open>
  (C15) Nothing is invented: in the default mode every payload delivered was written by the
  peer, whatever the network did with the datagrams.
\<close>

theorem delivered_was_written:
  assumes "params_ok pA" "\<not> OrderedDelivery pB"
    and "carried (sock (mainLoop (newConn i clA pA) evA)) evB"
    and "length (written (history (newConn i clA pA) evA no_hist)) < 2 ^ 32"
  shows "set (delivered (mainLoop (newConn i clB pB) evB)) \<subseteq> set (written (history (newConn i clA pA) evA no_hist))"
proof
  fix pl
  assume "pl \<in> set (delivered (mainLoop (newConn i clB pB) evB))"
  moreover have "delivered (mainLoop (newConn i clB pB) evB) = map snd (recvd (history (newConn i clB pB) evB no_hist))"
    using assms(2) by (intro delivered_trace) (simp_all add: newConn_def no_hist_def delivered_def)
  ultimately obtain s where "(s, pl) \<in> set (recvd (history (newConn i clB pB) evB no_hist))" by auto
  note d = recvd_written [OF conn_ok_trace [OF assms(1,4)] carried_relays [OF assms(3)] this]
  with conn_ok_seq [OF conn_ok_trace [OF assms(1,4)]] show "pl \<in> set (written (history (newConn i clA pA) evA no_hist))"
    by (force simp: data_ok_def)
qed

theorem delivered_was_written_witness:
  "set (delivered (mainLoop (newConn 7 False DefaultParams) runB)) \<subseteq>
   set (written (history (newConn 7 True DefaultParams) runA no_hist))"
proof -
  have 1: "params_ok DefaultParams" "\<not> OrderedDelivery DefaultParams" by code_simp+
  have 2: "carried (sock (mainLoop (newConn 7 True DefaultParams) runA)) runB" by code_simp
  have 3: "length (written (history (newConn 7 True DefaultParams) runA no_hist)) < 2 ^ 32" by code_simp
  show ?thesis by (rule delivered_was_written [OF 1 2 3])
qed

text \<open>
  (C12) Ordered mode: whatever the network loses, repeats or reorders, what is delivered is a
  prefix of what the peer wrote, each message once and in order.
\<close>

theorem ordered_prefix:
  assumes "params_ok pA" "OrderedDelivery pB"
    and "carried (sock (mainLoop (newConn i clA pA) evA)) evB"
    and "Suc (length (written (history (newConn i clA pA) evA no_hist))) < 2 ^ 32"
  shows "\<exists>n. delivered (mainLoop (newConn i clB pB) evB) = take n (written (history (newConn i clA pA) evA no_hist))"
proof -
  let ?W = "written (history (newConn i clA pA) evA no_hist)"
  have A: "conn_ok (history (newConn i clA pA) evA no_hist) (mainLoop (newConn i clA pA) evA)"
    using assms(4) by (intro conn_ok_trace assms(1)) simp
  have "ord_ok ?W (recvd (history (newConn i clB pB) evB no_hist)) (delivered (mainLoop (newConn i clB pB) evB))
      (held (mainLoop (newConn i clB pB) evB)) (ordNext (mainLoop (newConn i clB pB) evB))"
    using assms(2) ord_ok_new [of ?W i clB pB] by (intro ord_ok_trace [OF assms(4)]) (simp_all add: newConn_def no_hist_def)
  moreover have "data_ok ?W (length ?W) s pl" if "(s, pl) \<in> set (recvd (history (newConn i clB pB) evB no_hist))" for s pl
    using data_ok_mono [OF recvd_written [OF A carried_relays [OF assms(3)] that] conn_ok_seq [OF A]] .
  ultimately show ?thesis unfolding ord_ok_def ord_core_def by blast
qed

theorem ordered_prefix_witness:
  "\<exists>n. delivered (mainLoop (newConn 7 False orderedParams) closeB) =
     take n (written (history (newConn 7 True DefaultParams) closeA no_hist))"
proof -
  have 1: "params_ok DefaultParams" "OrderedDelivery orderedParams" by code_simp+
  have 2: "carried (sock (mainLoop (newConn 7 True DefaultParams) closeA)) closeB" by code_simp
  have 3: "Suc (length (written (history (newConn 7 True DefaultParams) closeA no_hist))) < 2 ^ 32" by code_simp
  show ?thesis by (rule ordered_prefix [OF 1 2 3])
qed

end
