(* ===== verification/Machine.thy ===== *)
theory Machine
  imports Main
begin

text \<open>
  The goroutines of the program are machines: a state, and a step for each event its
  \<^verbatim>\<open>select\<close> may take. What every component proves of its machine is stated once here: an
  invariant kept by each step holds after every run, and a step-wise simulation relates whole
  runs.
\<close>

section \<open>Invariants of a machine\<close>

locale machine =
  fixes step :: "'s \<Rightarrow> 'e \<Rightarrow> 's"
    and inv :: "'s \<Rightarrow> bool"
    and allowed :: "'e \<Rightarrow> bool"
  assumes step_inv: "inv s \<Longrightarrow> allowed e \<Longrightarrow> inv (step s e)"
begin

abbreviation run :: "'s \<Rightarrow> 'e list \<Rightarrow> 's" where
  "run \<equiv> foldl step"

lemma run_inv: "inv s \<Longrightarrow> list_all allowed es \<Longrightarrow> inv (run s es)"
  by (induction es arbitrary: s) (simp_all add: step_inv)

end

section \<open>A machine that implements another\<close>

locale simulation = machine step inv allowed
  for step :: "'s \<Rightarrow> 'e \<Rightarrow> 's" and inv :: "'s \<Rightarrow> bool" and allowed :: "'e \<Rightarrow> bool" +
  fixes astep :: "'a \<Rightarrow> 'b \<Rightarrow> 'a"
    and absf :: "'s \<Rightarrow> 'a"
    and acts :: "'s \<Rightarrow> 'e \<Rightarrow> 'b list"
  assumes step_sim: "inv s \<Longrightarrow> allowed e \<Longrightarrow> absf (step s e) = foldl astep (absf s) (acts s e)"
begin

text \<open>The abstract actions of a whole run.\<close>

fun run_acts :: "'s \<Rightarrow> 'e list \<Rightarrow> 'b list" where
  "run_acts s [] = []"
| "run_acts s (e # es) = acts s e @ run_acts (step s e) es"

lemma run_sim: "inv s \<Longrightarrow> list_all allowed es \<Longrightarrow> absf (run s es) = foldl astep (absf s) (run_acts s es)"
  by (induction es arbitrary: s) (simp_all add: step_inv step_sim)

end

end
