(* ===== verification/Server.thy ===== *)
theory Server
  imports Link Machine
begin

text \<open>
  The server endpoint (\<^verbatim>\<open>rudp/server.go\<close>): \<^verbatim>\<open>readLoop\<close> owns the table of connections and routes
  each datagram to the connection's \<^verbatim>\<open>mainLoop\<close> through its buffered channel \<^verbatim>\<open>inCh\<close>. The goroutines
  of the connections are numbered in the order they were started; a connection that was
  forgotten may still drain. The machine interleaves the read loop and the connections in any way.
  What the socket returns and the clock are inputs. Steps that dereference a missing connection
  or close a channel twice are \<open>Panic\<close>.
\<close>

section \<open>Addresses\<close>

datatype addr = Addr (aIP: bytes) (aPort: nat) (aZone: bytes)

text \<open>\<^verbatim>\<open>net.IP\<close> holds an IPv4 address in four bytes or in sixteen.\<close>

definition to4 :: "bytes \<Rightarrow> bytes" where
  "to4 ip = (if length ip = 16 \<and> take 12 ip = replicate 10 0 @ [255, 255] then drop 12 ip else ip)"

text \<open>What \<^verbatim>\<open>addr.String()\<close> prints, not as text.\<close>

definition addr_key :: "addr \<Rightarrow> addr" where
  "addr_key a = Addr (to4 (aIP a)) (aPort a) (aZone a)"

definition sameAddr :: "addr \<Rightarrow> addr \<Rightarrow> bool" where
  "sameAddr a b \<longleftrightarrow> aPort a = aPort b \<and> to4 (aIP a) = to4 (aIP b)"

section \<open>State\<close>

record proc =
  prAddr :: addr
  prConn :: conn
  prIn :: "packet list"

datatype loop_phase = LTop | LRead | LDone

record server =
  svP :: rudpParams
  svProcs :: "proc list"
  svConns :: "(u32, nat) gomap"
  svByAddr :: "(addr, u32) gomap"
  svNextID :: u32
  svClosing :: bool
  svClosingCh :: bool
  svCloseReq :: bool
  svLastSweep :: time
  svLoop :: loop_phase
  svSockClosed :: bool
  svAcks :: "(addr \<times> bytes) list"

definition inCap :: nat where "inCap = 64"

definition NewServer :: "rudpParams option \<Rightarrow> time \<Rightarrow> bool \<Rightarrow> server option" where
  "NewServer p now listened =
     (if \<not> listened then None
      else Some \<lparr>svP = WithDefaults p, svProcs = [], svConns = [], svByAddr = [], svNextID = 0, svClosing = False, svClosingCh = False,
        svCloseReq = False, svLastSweep = now, svLoop = LTop, svSockClosed = False, svAcks = []\<rparr>)"

text \<open>The connection of goroutine \<open>k\<close> takes a step.\<close>

definition proc_step :: "nat \<Rightarrow> env \<Rightarrow> event \<Rightarrow> server \<Rightarrow> server" where
  "proc_step k e ev s =
     s\<lparr>svProcs := (svProcs s)[k := (svProcs s ! k)\<lparr>prConn := conn_step (prConn (svProcs s ! k)) (e, ev)\<rparr>]\<rparr>"

definition isDead :: "nat \<Rightarrow> server \<Rightarrow> bool" where
  "isDead k s = dead (prConn (svProcs s ! k))"

section \<open>The read loop\<close>

definition forget_conn :: "u32 \<Rightarrow> nat \<Rightarrow> server \<Rightarrow> server" where
  "forget_conn i k s =
     (let key = addr_key (prAddr (svProcs s ! k)); s1 = s\<lparr>svConns := mdel (svConns s) i\<rparr>
      in if mget (svByAddr s1) key = Some i then s1\<lparr>svByAddr := mdel (svByAddr s1) key\<rparr> else s1)"

text \<open>\<^verbatim>\<open>handle.Close\<close> on a live connection; one that has ended takes the other case.\<close>

definition close_one :: "(nat \<Rightarrow> env) \<Rightarrow> server \<Rightarrow> u32 \<times> nat \<Rightarrow> server" where
  "close_one env s x =
     (case handle_Close (prConn (svProcs s ! snd x)) of
        Some ev \<Rightarrow> proc_step (snd x) (env (snd x)) ev s
      | None \<Rightarrow> s)"

definition beginShutdown :: "(nat \<Rightarrow> env) \<Rightarrow> server \<Rightarrow> server go" where
  "beginShutdown env s =
     (let s1 = s\<lparr>svClosing := True\<rparr>
      in if svClosingCh s1 then Panic
         else Ret (foldl (close_one env) (s1\<lparr>svClosingCh := True\<rparr>) (svConns s1)))"

definition sweep_one :: "server \<Rightarrow> u32 \<times> nat \<Rightarrow> server" where
  "sweep_one s x = (if isDead (snd x) s then forget_conn (fst x) (snd x) s else s)"

definition sweep :: "time \<Rightarrow> server \<Rightarrow> server" where
  "sweep now s =
     (if now - svLastSweep s \<ge> Epoch (svP s) then foldl sweep_one (s\<lparr>svLastSweep := now\<rparr>) (svConns s) else s)"

text \<open>The part of a turn before the socket is read.\<close>

definition loop_top :: "time \<Rightarrow> (nat \<Rightarrow> env) \<Rightarrow> server \<Rightarrow> server go" where
  "loop_top now env s =
     go_bind (if \<not> svClosing s \<and> svCloseReq s then beginShutdown env (s\<lparr>svCloseReq := False\<rparr>) else Ret s) (\<lambda>s1.
       let s2 = sweep now s1 in
       if svClosing s2 \<and> svConns s2 = [] then Ret (s2\<lparr>svSockClosed := True, svLoop := LDone\<rparr>)
       else Ret (s2\<lparr>svLoop := LRead\<rparr>))"

definition on_connect :: "addr \<Rightarrow> server \<Rightarrow> server go" where
  "on_connect a s =
     (if svClosing s then Ret s
      else
        let key = addr_key a;
            fresh = (\<lambda>s. let i = svNextID s + 1 in
              (i, s\<lparr>svNextID := i, svConns := mput (svConns s) i (length (svProcs s)), svByAddr := mput (svByAddr s) key i,
                    svProcs := svProcs s @ [\<lparr>prAddr = a, prConn = newConn i False (svP s), prIn = []\<rparr>]\<rparr>));
            ack = (\<lambda>(i, s). s\<lparr>svAcks := svAcks s @ [(a, marshal typeConnAck i 0 [])]\<rparr>)
        in case mget (svByAddr s) key of
             None \<Rightarrow> Ret (ack (fresh s))
           | Some i \<Rightarrow>
               (case mget (svConns s) i of
                  None \<Rightarrow> Panic
                | Some k \<Rightarrow> if isDead k s then Ret (ack (fresh (forget_conn i k s))) else Ret (ack (i, s))))"

text \<open>
  The hand-over to a connection: into \<^verbatim>\<open>inCh\<close> while there is room, or the case \<^verbatim>\<open>dead\<close>, chosen by \<open>pick\<close>
  when both are ready. \<open>None\<close> is a read loop that waits.
\<close>

definition route :: "addr \<Rightarrow> packet \<Rightarrow> bool \<Rightarrow> server \<Rightarrow> server option" where
  "route a p pick s =
     (case mget (svConns s) (connID p) of
        None \<Rightarrow> Some s
      | Some k \<Rightarrow>
          let pr = svProcs s ! k; hasRoom = length (prIn pr) < inCap in
          if \<not> sameAddr a (prAddr pr) then Some s
          else if hasRoom \<and> (pick \<or> \<not> isDead k s) then Some (s\<lparr>svProcs := (svProcs s)[k := pr\<lparr>prIn := prIn pr @ [p]\<rparr>]\<rparr>)
          else if isDead k s then Some (forget_conn (connID p) k s)
          else None)"

datatype sock_outcome = SockTimeout | SockClosed | SockError | SockData addr bytes bool

fun loop_read :: "sock_outcome \<Rightarrow> server \<Rightarrow> server go" where
  "loop_read (SockData a d pick) s =
     go_bind (parse (take (maxPacket + 1) d)) (\<lambda>r. case r of
        None \<Rightarrow> Ret (s\<lparr>svLoop := LTop\<rparr>)
      | Some p \<Rightarrow>
          if ptyp p = typeConnect then go_bind (on_connect a s) (\<lambda>s'. Ret (s'\<lparr>svLoop := LTop\<rparr>))
          else (case route a p pick s of None \<Rightarrow> Ret s | Some s' \<Rightarrow> Ret (s'\<lparr>svLoop := LTop\<rparr>)))"
| "loop_read SockClosed s = Ret (s\<lparr>svLoop := LDone, svClosingCh := True\<rparr>)"
| "loop_read _ s = Ret (s\<lparr>svLoop := LTop\<rparr>)"

section \<open>The machine\<close>

datatype server_event =
    SvTop time "nat \<Rightarrow> env"
  | SvSock sock_outcome
  | SvClose
  | SvPacket nat env
  | SvWrite nat env bytes
  | SvTick nat env
  | SvTake nat env
  | SvStop nat env

text \<open>A connection takes the next packet of its channel; a draining one does not look at it.\<close>

definition take_packet :: "nat \<Rightarrow> env \<Rightarrow> server \<Rightarrow> server" where
  "take_packet k e s =
     (case prIn (svProcs s ! k) of
        [] \<Rightarrow> s
      | p # ps \<Rightarrow>
          if phase (prConn (svProcs s ! k)) \<in> {Running, Flushing}
          then proc_step k e (EvPacket p) (s\<lparr>svProcs := (svProcs s)[k := (svProcs s ! k)\<lparr>prIn := ps\<rparr>]\<rparr>)
          else s)"

fun server_handle :: "server_event \<Rightarrow> server \<Rightarrow> server go" where
  "server_handle (SvTop now env) s = (if svLoop s = LTop then loop_top now env s else Ret s)"
| "server_handle (SvSock r) s = (if svLoop s = LRead then loop_read r s else Ret s)"
| "server_handle SvClose s = Ret (s\<lparr>svCloseReq := True\<rparr>)"
| "server_handle (SvPacket k e) s = Ret (if k < length (svProcs s) then take_packet k e s else s)"
| "server_handle (SvWrite k e d) s =
     (if k < length (svProcs s) then
        go_bind (handle_Write (prConn (svProcs s ! k)) d) (\<lambda>r. case r of None \<Rightarrow> Ret s | Some ev \<Rightarrow> Ret (proc_step k e ev s))
      else Ret s)"
| "server_handle (SvTick k e) s = Ret (if k < length (svProcs s) then proc_step k e EvTick s else s)"
| "server_handle (SvTake k e) s = Ret (if k < length (svProcs s) then proc_step k e EvRead s else s)"
| "server_handle (SvStop k e) s = Ret (if k < length (svProcs s) \<and> svClosingCh s then proc_step k e EvStop s else s)"

definition server_step :: "server go \<Rightarrow> server_event \<Rightarrow> server go" where
  "server_step m ev = go_bind m (server_handle ev)"

definition server_run :: "server \<Rightarrow> server_event list \<Rightarrow> server go" where
  "server_run s evs = foldl server_step (Ret s) evs"

text \<open>
  \<^verbatim>\<open>Server.Read\<close>: what connection \<open>src\<close> hands over, or that the read loop has ended; \<open>None\<close> while
  the chosen case is not ready.
\<close>

definition Server_Read :: "server \<Rightarrow> nat option \<Rightarrow> delivery option option" where
  "Server_Read s src = (case src of
     None \<Rightarrow> if svLoop s = LDone then Some None else None
   | Some k \<Rightarrow>
       if k < length (svProcs s) \<and> phase (prConn (svProcs s ! k)) \<in> {Running, Draining}
       then (case deliverQ (prConn (svProcs s ! k)) of [] \<Rightarrow> None | d # _ \<Rightarrow> Some (Some d))
       else None)"

lemma mainLoop_snoc: "mainLoop c (es @ [ev]) = conn_step (mainLoop c es) ev"
  by (simp add: mainLoop_def)

lemma history_snoc: "history c (es @ [ev]) h = observe (mainLoop c es) (snd ev) (history c es h)"
  by (induction es arbitrary: c h) (simp_all)

end
