(* ===== verification/ServerInv.thy ===== *)
theory ServerInv
  imports Server
begin

text \<open>
  The server endpoint keeps its table consistent and runs every connection as \<^verbatim>\<open>mainLoop\<close> prescribes:
  the state of each connection is that of a run of its own main loop on packets that arrived from
  its peer's address under its number.
\<close>

section \<open>The table\<close>

text \<open>
  Identifiers are the numbers of the goroutines plus one; the connections of the table and the
  addresses correspond to each other.
\<close>

definition table_ok :: "(u32, nat) gomap \<Rightarrow> (addr, u32) gomap \<Rightarrow> addr list \<Rightarrow> bool" where
  "table_ok cs ba as \<longleftrightarrow> mwf cs \<and> mwf ba \<and>
     (\<forall>i k. mget cs i = Some k \<longrightarrow> k < length as \<and> i = of_nat (Suc k) \<and> mget ba (addr_key (as ! k)) = Some i) \<and>
     (\<forall>key i. mget ba key = Some i \<longrightarrow> (\<exists>k. mget cs i = Some k \<and> addr_key (as ! k) = key))"

lemma of_nat_Suc_inj: "k < 2 ^ 32 - 1 \<Longrightarrow> k' < 2 ^ 32 - 1 \<Longrightarrow> (of_nat (Suc k) :: u32) = of_nat (Suc k') \<Longrightarrow> k = k'"
proof -
  assume k: "k < 2 ^ 32 - 1" "k' < 2 ^ 32 - 1" and eq: "(of_nat (Suc k) :: u32) = of_nat (Suc k')"
  have "unat (of_nat (Suc k) :: u32) = Suc k" "unat (of_nat (Suc k') :: u32) = Suc k'"
    using k by (simp_all add: unat_of_nat del: of_nat_Suc)
  with eq show "k = k'" by simp
qed

lemma table_okI:
  assumes "mwf cs" "mwf ba"
    and "\<And>i k. mget cs i = Some k \<Longrightarrow> k < length as \<and> i = of_nat (Suc k) \<and> mget ba (addr_key (as ! k)) = Some i"
    and "\<And>key i. mget ba key = Some i \<Longrightarrow> \<exists>k. mget cs i = Some k \<and> addr_key (as ! k) = key"
  shows "table_ok cs ba as"
  using assms unfolding table_ok_def by blast

lemma table_okD:
  assumes "table_ok cs ba as"
  shows "mwf cs" "mwf ba" "mget cs i = Some k \<Longrightarrow> k < length as" "mget cs i = Some k \<Longrightarrow> i = of_nat (Suc k)"
    "mget cs i = Some k \<Longrightarrow> mget ba (addr_key (as ! k)) = Some i"
    "mget ba key = Some i \<Longrightarrow> \<exists>k. mget cs i = Some k \<and> addr_key (as ! k) = key"
  using assms unfolding table_ok_def by blast+

lemma table_forget:
  assumes t: "table_ok cs ba as" and i: "mget cs i = Some k"
  shows "table_ok (mdel cs i) (mdel ba (addr_key (as ! k))) as"
proof (rule table_okI)
  fix j k' assume "mget (mdel cs i) j = Some k'"
  then have j: "j \<noteq> i" "mget cs j = Some k'" by (auto split: if_splits)
  have "addr_key (as ! k') \<noteq> addr_key (as ! k)" using table_okD(5) [OF t i] table_okD(5) [OF t j(2)] j(1) by auto
  then show "k' < length as \<and> j = of_nat (Suc k') \<and> mget (mdel ba (addr_key (as ! k))) (addr_key (as ! k')) = Some j"
    using table_okD(3-5) [OF t j(2)] by (simp del: of_nat_Suc)
next
  fix key j assume "mget (mdel ba (addr_key (as ! k))) key = Some j"
  then have j: "key \<noteq> addr_key (as ! k)" "mget ba key = Some j" by (auto split: if_splits)
  obtain k' where k': "mget cs j = Some k'" "addr_key (as ! k') = key" using table_okD(6) [OF t j(2)] by blast
  then have "j \<noteq> i" using j(1) i by auto
  with k' show "\<exists>k'. mget (mdel cs i) j = Some k' \<and> addr_key (as ! k') = key" by simp
qed (use table_okD(1,2) [OF t] in simp_all)

lemma table_new:
  assumes t: "table_ok cs ba as" and new: "mget ba (addr_key a) = None" and n: "Suc (length as) < 2 ^ 32"
  shows "table_ok (mput cs (of_nat (Suc (length as))) (length as)) (mput ba (addr_key a) (of_nat (Suc (length as)))) (as @ [a])"
    (is "table_ok (mput cs ?i ?k) ?ba ?as")
proof (rule table_okI)
  fix j k assume j: "mget (mput cs ?i ?k) j = Some k"
  show "k < length ?as \<and> j = of_nat (Suc k) \<and> mget ?ba (addr_key (?as ! k)) = Some j"
  proof (cases "j = ?i")
    case True
    with j show ?thesis by (auto simp del: of_nat_Suc)
  next
    case False
    with j have m: "mget cs j = Some k" by (simp del: of_nat_Suc)
    note d = table_okD(3-5) [OF t m]
    then have "addr_key (as ! k) \<noteq> addr_key a" using new by auto
    with d show ?thesis by (simp add: nth_append del: of_nat_Suc)
  qed
next
  fix key j assume j: "mget ?ba key = Some j"
  show "\<exists>k. mget (mput cs ?i ?k) j = Some k \<and> addr_key (?as ! k) = key"
  proof (cases "key = addr_key a")
    case True
    with j show ?thesis by (auto simp del: of_nat_Suc)
  next
    case False
    with j have "mget ba key = Some j" by (simp del: of_nat_Suc)
    then obtain k where k: "mget cs j = Some k" "addr_key (as ! k) = key" using table_okD(6) [OF t] by blast
    note d = table_okD(3,4) [OF t k(1)]
    have "j \<noteq> ?i" using of_nat_Suc_inj [of k ?k] d n by auto
    with k d show ?thesis by (auto simp: nth_append simp del: of_nat_Suc)
  qed
qed (use table_okD(1,2) [OF t] in simp_all)

section \<open>The connections\<close>

text \<open>A packet that arrived from the address \<open>a\<close> for connection \<open>i\<close>.\<close>

definition peer_packet :: "(addr \<times> bytes) list \<Rightarrow> addr \<Rightarrow> u32 \<Rightarrow> packet \<Rightarrow> bool" where
  "peer_packet A a i q \<longleftrightarrow> connID q = i \<and> (\<exists>b d. (b, d) \<in> set A \<and> sameAddr b a \<and> parse (take (maxPacket + 1) d) = Ret (Some q))"

definition from_peer :: "(addr \<times> bytes) list \<Rightarrow> addr \<Rightarrow> u32 \<Rightarrow> (env \<times> event) list \<Rightarrow> bool" where
  "from_peer A a i es \<longleftrightarrow> (\<forall>x \<in> set es. case snd x of EvPacket q \<Rightarrow> peer_packet A a i q | _ \<Rightarrow> True)"

text \<open>\<open>n\<close> bounds the number of messages written to the connection.\<close>

definition proc_ok :: "rudpParams \<Rightarrow> (addr \<times> bytes) list \<Rightarrow> bool \<Rightarrow> nat \<Rightarrow> u32 \<Rightarrow> proc \<Rightarrow> bool" where
  "proc_ok p A closing n i pr \<longleftrightarrow>
     (\<exists>es. prConn pr = mainLoop (newConn i False p) es \<and> from_peer A (prAddr pr) i es \<and> (\<not> closing \<longrightarrow> stays_open es) \<and>
        length (written (history (newConn i False p) es no_hist)) \<le> n) \<and>
     (\<forall>q \<in> set (prIn pr). peer_packet A (prAddr pr) i q)"

lemma peer_packet_mono: "peer_packet A a i q \<Longrightarrow> set A \<subseteq> set B \<Longrightarrow> peer_packet B a i q"
  unfolding peer_packet_def by blast

lemma from_peer_mono: "from_peer A a i es \<Longrightarrow> set A \<subseteq> set B \<Longrightarrow> from_peer B a i es"
  unfolding from_peer_def by (auto split: event.splits intro: peer_packet_mono)

lemma proc_ok_mono:
  assumes "proc_ok p A c n i pr" "set A \<subseteq> set B" "c \<Longrightarrow> c'" "n \<le> m"
  shows "proc_ok p B c' m i pr"
proof -
  obtain es where "prConn pr = mainLoop (newConn i False p) es" "from_peer A (prAddr pr) i es" "\<not> c \<longrightarrow> stays_open es"
    "length (written (history (newConn i False p) es no_hist)) \<le> n"
    using assms(1) unfolding proc_ok_def by blast
  then have "\<exists>es. prConn pr = mainLoop (newConn i False p) es \<and> from_peer B (prAddr pr) i es \<and> (\<not> c' \<longrightarrow> stays_open es) \<and>
      length (written (history (newConn i False p) es no_hist)) \<le> m"
    using from_peer_mono assms(2-4) by (meson order_trans)
  moreover have "\<forall>q \<in> set (prIn pr). peer_packet B (prAddr pr) i q"
    using assms(1,2) peer_packet_mono unfolding proc_ok_def by blast
  ultimately show ?thesis unfolding proc_ok_def by blast
qed

definition is_write :: "event \<Rightarrow> bool" where
  "is_write ev \<longleftrightarrow> (\<exists>d. ev = EvWrite d)"

lemma observe_length: "length (written (observe c ev h)) \<le> length (written h) + (if is_write ev then 1 else 0)"
  by (cases ev) (simp_all add: is_write_def)

lemma proc_ok_step:
  assumes "proc_ok p A c n i pr" "case ev of EvPacket q \<Rightarrow> peer_packet A (prAddr pr) i q | EvClose \<Rightarrow> c | _ \<Rightarrow> True"
    and m: "n + (if is_write ev then 1 else 0) \<le> m"
  shows "proc_ok p A c m i (pr\<lparr>prConn := conn_step (prConn pr) (e, ev)\<rparr>)"
proof -
  obtain es where es: "prConn pr = mainLoop (newConn i False p) es" "from_peer A (prAddr pr) i es" "\<not> c \<longrightarrow> stays_open es"
    "length (written (history (newConn i False p) es no_hist)) \<le> n"
    using assms(1) unfolding proc_ok_def by blast
  have "from_peer A (prAddr pr) i (es @ [(e, ev)])" using es(2) assms(2) by (auto simp: from_peer_def split: event.splits)
  moreover have "\<not> c \<longrightarrow> stays_open (es @ [(e, ev)])" using es(3) assms(2) by (auto simp: stays_open_def split: event.splits)
  moreover have "conn_step (prConn pr) (e, ev) = mainLoop (newConn i False p) (es @ [(e, ev)])"
    using es(1) by (simp add: mainLoop_snoc)
  moreover have "length (written (history (newConn i False p) (es @ [(e, ev)]) no_hist)) \<le> m"
    using es(4) observe_length [of "mainLoop (newConn i False p) es" ev "history (newConn i False p) es no_hist"] m
    by (simp add: history_snoc)
  ultimately have "\<exists>es. conn_step (prConn pr) (e, ev) = mainLoop (newConn i False p) es \<and> from_peer A (prAddr pr) i es \<and>
      (\<not> c \<longrightarrow> stays_open es) \<and> length (written (history (newConn i False p) es no_hist)) \<le> m" by blast
  then show ?thesis using assms(1) by (simp add: proc_ok_def)
qed

lemma dead_ends [simp]:
  "dead (sendAck q c) = dead c" "dead (drainAndExit now r err c)" "dead (finish now r c)"
  by (simp_all add: sendAck_def drainAndExit_def finish_def Let_def)

lemma dead_step: "dead c \<Longrightarrow> dead (conn_step c ev)"
  by (cases "snd ev"; cases "phase c") (auto simp: conn_step_def Let_def flush_guard_def split: list.split)

section \<open>The invariant\<close>

text \<open>Every acknowledged Connect names the connection of its address.\<close>

definition acks_ok :: "addr list \<Rightarrow> (addr \<times> bytes) list \<Rightarrow> bool" where
  "acks_ok as acks \<longleftrightarrow> (\<forall>(b, d) \<in> set acks. \<exists>k < length as. d = marshal typeConnAck (of_nat (Suc k)) 0 [] \<and> addr_key b = addr_key (as ! k))"

lemma acks_ok_new:
  assumes "acks_ok as acks" "k < length (as @ as')" "addr_key a = addr_key ((as @ as') ! k)"
  shows "acks_ok (as @ as') (acks @ [(a, marshal typeConnAck (of_nat (Suc k)) 0 [])])"
  unfolding acks_ok_def
proof (rule ballI, clarify)
  fix b d
  assume "(b, d) \<in> set (acks @ [(a, marshal typeConnAck (of_nat (Suc k)) 0 [])])"
  then consider "(b, d) \<in> set acks" | "b = a" "d = marshal typeConnAck (of_nat (Suc k)) 0 []" by (auto simp del: of_nat_Suc)
  then show "\<exists>k < length (as @ as'). d = marshal typeConnAck (of_nat (Suc k)) 0 [] \<and> addr_key b = addr_key ((as @ as') ! k)"
  proof cases
    case 1
    then obtain k where "k < length as" "d = marshal typeConnAck (of_nat (Suc k)) 0 []" "addr_key b = addr_key (as ! k)"
      using assms(1) unfolding acks_ok_def by blast
    then show ?thesis by (intro exI [of _ k]) (simp add: nth_append del: of_nat_Suc)
  next
    case 2
    then show ?thesis using assms(2,3) by blast
  qed
qed

definition server_ok :: "rudpParams \<Rightarrow> (addr \<times> bytes) list \<Rightarrow> nat \<Rightarrow> server \<Rightarrow> bool" where
  "server_ok p A n s \<longleftrightarrow> svP s = p \<and> length (svProcs s) \<le> n \<and> svNextID s = of_nat (length (svProcs s)) \<and>
     table_ok (svConns s) (svByAddr s) (map prAddr (svProcs s)) \<and>
     (\<forall>k < length (svProcs s). proc_ok p A (svClosing s) n (of_nat (Suc k)) (svProcs s ! k) \<and>
        (isDead k s \<or> mget (svConns s) (of_nat (Suc k)) = Some k)) \<and>
     (svClosingCh s \<longleftrightarrow> svClosing s \<or> svLoop s = LDone) \<and> (svSockClosed s \<longrightarrow> svLoop s = LDone \<and> svConns s = []) \<and>
     acks_ok (map prAddr (svProcs s)) (svAcks s)"

lemma server_okD:
  assumes "server_ok p A n s"
  shows "svP s = p" "length (svProcs s) \<le> n" "svNextID s = of_nat (length (svProcs s))"
    "table_ok (svConns s) (svByAddr s) (map prAddr (svProcs s))"
    "k < length (svProcs s) \<Longrightarrow> proc_ok p A (svClosing s) n (of_nat (Suc k)) (svProcs s ! k)"
    "k < length (svProcs s) \<Longrightarrow> isDead k s \<or> mget (svConns s) (of_nat (Suc k)) = Some k"
    "svClosingCh s \<longleftrightarrow> svClosing s \<or> svLoop s = LDone" "svSockClosed s \<Longrightarrow> svLoop s = LDone \<and> svConns s = []"
    "acks_ok (map prAddr (svProcs s)) (svAcks s)"
  using assms unfolding server_ok_def by (simp_all del: of_nat_Suc)

lemma server_ok_entry:
  assumes "server_ok p A n s" "mget (svConns s) i = Some k"
  shows "k < length (svProcs s)" "i = of_nat (Suc k)" "mget (svByAddr s) (addr_key (prAddr (svProcs s ! k))) = Some i"
proof -
  have "k < length (svProcs s) \<and> i = of_nat (Suc k) \<and> mget (svByAddr s) (addr_key (map prAddr (svProcs s) ! k)) = Some i"
    using server_okD(4) [OF assms(1)] assms(2) unfolding table_ok_def length_map by blast
  then show "k < length (svProcs s)" "i = of_nat (Suc k)" "mget (svByAddr s) (addr_key (prAddr (svProcs s ! k))) = Some i"
    by (auto simp del: of_nat_Suc)
qed

lemma server_ok_mono:
  assumes "server_ok p A n s" "set A \<subseteq> set B" "n \<le> m"
  shows "server_ok p B m s"
  using assms(1,3) proc_ok_mono [OF _ assms(2) _ assms(3)] unfolding server_ok_def by (auto simp del: of_nat_Suc)

text \<open>A step of one connection.\<close>

lemma map_prAddr_upd: "k < length ps \<Longrightarrow> prAddr pr = prAddr (ps ! k) \<Longrightarrow> map prAddr (ps[k := pr]) = map prAddr ps"
  by (metis list_update_id map_update)

lemma server_ok_upd:
  assumes ok: "server_ok p A n s" and k: "k < length (svProcs s)"
    and pr: "proc_ok p A (svClosing s) n (of_nat (Suc k)) pr" "prAddr pr = prAddr (svProcs s ! k)"
    and d: "dead (prConn (svProcs s ! k)) \<Longrightarrow> dead (prConn pr)"
  shows "server_ok p A n (s\<lparr>svProcs := (svProcs s)[k := pr]\<rparr>)"
  using ok k pr d map_prAddr_upd [OF k pr(2)] unfolding server_ok_def isDead_def
  by (auto simp: nth_list_update simp del: of_nat_Suc)

lemma server_ok_proc_step:
  assumes "server_ok p A n s" "k < length (svProcs s)"
    and "case ev of EvPacket q \<Rightarrow> peer_packet A (prAddr (svProcs s ! k)) (of_nat (Suc k)) q | EvClose \<Rightarrow> svClosing s | _ \<Rightarrow> True"
    and m: "n + (if is_write ev then 1 else 0) \<le> m"
  shows "server_ok p A m (proc_step k e ev s)"
proof -
  have "n \<le> m" using m by simp
  then have "server_ok p A m s" by (rule server_ok_mono [OF assms(1) order_refl])
  then show ?thesis
    unfolding proc_step_def using assms(2) proc_ok_step [OF server_okD(5) [OF assms(1,2)] assms(3) m] dead_step
    by (intro server_ok_upd) auto
qed

lemma proc_step_frame [simp]:
  "svConns (proc_step k e ev s) = svConns s" "svByAddr (proc_step k e ev s) = svByAddr s" "svClosing (proc_step k e ev s) = svClosing s"
  "svLoop (proc_step k e ev s) = svLoop s" "length (svProcs (proc_step k e ev s)) = length (svProcs s)"
  "svClosingCh (proc_step k e ev s) = svClosingCh s" "svAcks (proc_step k e ev s) = svAcks s" "svP (proc_step k e ev s) = svP s"
  by (simp_all add: proc_step_def)

text \<open>Forgetting a connection that has ended.\<close>

lemma forget_frame [simp]:
  "svLoop (forget_conn i k s) = svLoop s" "svSockClosed (forget_conn i k s) = svSockClosed s" "svProcs (forget_conn i k s) = svProcs s"
  "svClosing (forget_conn i k s) = svClosing s" "svConns (forget_conn i k s) = mdel (svConns s) i" "svAcks (forget_conn i k s) = svAcks s"
  "svNextID (forget_conn i k s) = svNextID s" "svP (forget_conn i k s) = svP s"
  by (simp_all add: forget_conn_def Let_def)

lemma forget_eq:
  assumes "server_ok p A n s" "mget (svConns s) i = Some k"
  shows "forget_conn i k s = s\<lparr>svConns := mdel (svConns s) i, svByAddr := mdel (svByAddr s) (addr_key (prAddr (svProcs s ! k)))\<rparr>"
  using server_ok_entry [OF assms] by (simp add: forget_conn_def)

lemma server_ok_forget:
  assumes ok: "server_ok p A n s" and i: "mget (svConns s) i = Some k" and d: "isDead k s"
  shows "server_ok p A n (forget_conn i k s)"
proof -
  have k: "k < length (svProcs s)" by (rule server_ok_entry [OF ok i])
  have t: "table_ok (mdel (svConns s) i) (mdel (svByAddr s) (addr_key (prAddr (svProcs s ! k)))) (map prAddr (svProcs s))"
    using table_forget [OF server_okD(4) [OF ok] i] k by simp
  have "isDead j s \<or> mget (mdel (svConns s) i) (of_nat (Suc j)) = Some j" if "j < length (svProcs s)" for j
    using server_okD(6) [OF ok that] d i by auto
  with ok t show ?thesis
    unfolding forget_eq [OF ok i] server_ok_def isDead_def by (auto simp: mdel_def simp del: of_nat_Suc)
qed

text \<open>A new connection for an address without one, and its acknowledgement.\<close>

definition add_conn :: "addr \<Rightarrow> server \<Rightarrow> server" where
  "add_conn a s =
     s\<lparr>svNextID := svNextID s + 1, svConns := mput (svConns s) (svNextID s + 1) (length (svProcs s)),
       svByAddr := mput (svByAddr s) (addr_key a) (svNextID s + 1),
       svProcs := svProcs s @ [\<lparr>prAddr = a, prConn = newConn (svNextID s + 1) False (svP s), prIn = []\<rparr>],
       svAcks := svAcks s @ [(a, marshal typeConnAck (svNextID s + 1) 0 [])]\<rparr>"

lemma proc_ok_new: "proc_ok p A c n i \<lparr>prAddr = a, prConn = newConn i False p, prIn = []\<rparr>"
  unfolding proc_ok_def by (auto intro!: exI [of _ "[]"] simp: from_peer_def stays_open_def no_hist_def)

lemma server_ok_add:
  assumes ok: "server_ok p A n s" and new: "mget (svByAddr s) (addr_key a) = None" and n: "Suc n < 2 ^ 32"
    and l: "\<not> svSockClosed s"
  shows "server_ok p A (Suc n) (add_conn a s)"
proof -
  let ?k = "length (svProcs s)"
  have id: "svNextID s + 1 = of_nat (Suc ?k)" "svP s = p" "?k \<le> n" using server_okD [OF ok] by simp_all
  have t: "table_ok (mput (svConns s) (of_nat (Suc ?k)) ?k) (mput (svByAddr s) (addr_key a) (of_nat (Suc ?k))) (map prAddr (svProcs s) @ [a])"
    using table_new [OF server_okD(4) [OF ok] new] id(3) n by (simp del: of_nat_Suc)
  have inj: "(of_nat (Suc j) :: u32) = of_nat (Suc ?k) \<Longrightarrow> j = ?k" if "j < ?k" for j
    using of_nat_Suc_inj [of j ?k] that id(3) n by linarith
  have "proc_ok p A (svClosing s) (Suc n) (of_nat (Suc j)) (svProcs (add_conn a s) ! j) \<and>
      (isDead j (add_conn a s) \<or> mget (svConns (add_conn a s)) (of_nat (Suc j)) = Some j)" if "j < Suc ?k" for j
  proof (cases "j = ?k")
    case True
    then show ?thesis using id proc_ok_new by (simp add: add_conn_def nth_append del: of_nat_Suc)
  next
    case False
    then have "j < ?k" using that by simp
    with proc_ok_mono [OF server_okD(5) [OF ok this] subset_refl _ le_SucI [OF order_refl]] server_okD(6) [OF ok this] inj [OF this] id show ?thesis
      by (auto simp: add_conn_def nth_append isDead_def simp del: of_nat_Suc)
  qed
  moreover have "acks_ok (map prAddr (svProcs (add_conn a s))) (svAcks (add_conn a s))"
    using acks_ok_new [OF server_okD(9) [OF ok], of ?k "[a]" a] id by (simp add: add_conn_def nth_append del: of_nat_Suc)
  ultimately show ?thesis
    using ok t id l unfolding server_ok_def by (simp add: add_conn_def del: of_nat_Suc)
qed

lemma server_ok_ack:
  assumes "server_ok p A n s" "mget (svConns s) i = Some k" "addr_key (prAddr (svProcs s ! k)) = addr_key a"
  shows "server_ok p A n (s\<lparr>svAcks := svAcks s @ [(a, marshal typeConnAck i 0 [])]\<rparr>)"
  using assms(1,3) acks_ok_new [OF server_okD(9) [OF assms(1)], of k "[]" a] server_ok_entry [OF assms(1,2)]
  by (simp add: server_ok_def isDead_def del: of_nat_Suc)

text \<open>A Connect, by cases.\<close>

lemma on_connect_cases:
  assumes ok: "server_ok p A n s"
  obtains (closing) "svClosing s" "on_connect a s = Ret s"
  | (known) i k where "\<not> svClosing s" "mget (svByAddr s) (addr_key a) = Some i" "mget (svConns s) i = Some k" "\<not> isDead k s"
      "addr_key (prAddr (svProcs s ! k)) = addr_key a"
      "on_connect a s = Ret (s\<lparr>svAcks := svAcks s @ [(a, marshal typeConnAck i 0 [])]\<rparr>)"
  | (fresh) s1 where "\<not> svClosing s" "server_ok p A n s1" "mget (svByAddr s1) (addr_key a) = None" "svAcks s1 = svAcks s"
      "svLoop s1 = svLoop s" "svSockClosed s1 = svSockClosed s" "svProcs s1 = svProcs s" "svClosing s1 = svClosing s"
      "on_connect a s = Ret (add_conn a s1)"
      "\<And>i k. mget (svByAddr s) (addr_key a) = Some i \<Longrightarrow> mget (svConns s) i = Some k \<Longrightarrow> isDead k s"
proof (cases "svClosing s")
  case True
  then show thesis by (intro closing) (simp_all add: on_connect_def)
next
  case open': False
  show thesis
  proof (cases "mget (svByAddr s) (addr_key a)")
    case None
    then show thesis using open' ok by (intro fresh [of s]) (simp_all add: on_connect_def add_conn_def Let_def)
  next
    case (Some i)
    then obtain k where k: "mget (svConns s) i = Some k" "addr_key (prAddr (svProcs s ! k)) = addr_key a"
      using server_okD(4) [OF ok] server_ok_entry(1) [OF ok] unfolding table_ok_def by (metis nth_map)
    show thesis
    proof (cases "isDead k s")
      case False
      with Some k open' show thesis by (intro known) (simp_all add: on_connect_def Let_def)
    next
      case True
      let ?s = "forget_conn i k s"
      have "mget (svByAddr ?s) (addr_key a) = None" using k(2) by (simp add: forget_eq [OF ok k(1)])
      moreover have "on_connect a s = Ret (add_conn a ?s)"
        using Some k(1) open' True by (simp add: on_connect_def add_conn_def Let_def)
      ultimately show thesis
        using open' server_ok_forget [OF ok k(1) True] Some k True by (intro fresh [of ?s]) (simp_all add: forget_eq [OF ok k(1)])
    qed
  qed
qed

section \<open>Every step keeps it\<close>

lemma server_ok_connect:
  assumes "server_ok p A n s" "Suc n < 2 ^ 32" "svLoop s = LRead"
  shows "\<exists>s'. on_connect a s = Ret s' \<and> server_ok p A (Suc n) s' \<and> svLoop s' = LRead \<and> \<not> svSockClosed s'"
proof -
  have l: "\<not> svSockClosed s" using server_okD(8) [OF assms(1)] assms(3) by auto
  have ok': "server_ok p A (Suc n) s" using server_ok_mono [OF assms(1)] by simp
  show ?thesis
  proof (rule on_connect_cases [OF assms(1), of a])
    fix s1
    assume s1: "server_ok p A n s1" "mget (svByAddr s1) (addr_key a) = None" "svLoop s1 = svLoop s" "svSockClosed s1 = svSockClosed s"
      "on_connect a s = Ret (add_conn a s1)"
    then show ?thesis using server_ok_add [OF s1(1,2) assms(2)] assms(3) l by (simp add: add_conn_def)
  next
    fix i k
    assume k: "mget (svConns s) i = Some k" "addr_key (prAddr (svProcs s ! k)) = addr_key a"
      "on_connect a s = Ret (s\<lparr>svAcks := svAcks s @ [(a, marshal typeConnAck i 0 [])]\<rparr>)"
    then show ?thesis using server_ok_ack [OF ok' k(1,2)] assms(3) l by simp
  qed (use ok' assms(3) l in simp_all)
qed

lemma server_ok_route:
  assumes ok: "server_ok p A n s" and r: "route a q pick s = Some s'"
    and A: "(a, d) \<in> set A" "parse (take (maxPacket + 1) d) = Ret (Some q)"
  shows "server_ok p A n s' \<and> svLoop s' = svLoop s \<and> svSockClosed s' = svSockClosed s"
proof (cases "mget (svConns s) (connID q)")
  case None
  with ok r show ?thesis by (simp add: route_def)
next
  case (Some k)
  note e = server_ok_entry [OF ok Some]
  let ?pr = "svProcs s ! k"
  have "proc_ok p A (svClosing s) n (of_nat (Suc k)) (?pr\<lparr>prIn := prIn ?pr @ [q]\<rparr>)" if "sameAddr a (prAddr ?pr)"
    using server_okD(5) [OF ok e(1)] that A e(2) unfolding proc_ok_def peer_packet_def by (auto simp del: of_nat_Suc)
  then have "server_ok p A n (s\<lparr>svProcs := (svProcs s)[k := ?pr\<lparr>prIn := prIn ?pr @ [q]\<rparr>]\<rparr>)" if "sameAddr a (prAddr ?pr)"
    using that e(1) by (intro server_ok_upd [OF ok]) simp_all
  then show ?thesis
    using r Some ok server_ok_forget [OF ok Some] forget_eq [OF ok Some] by (auto simp: route_def Let_def split: if_splits)
qed

lemma server_ok_loop: "server_ok p A n s \<Longrightarrow> \<not> svSockClosed s \<Longrightarrow> svLoop s \<noteq> LDone \<Longrightarrow> l \<noteq> LDone \<Longrightarrow> server_ok p A n (s\<lparr>svLoop := l\<rparr>)"
  by (simp add: server_ok_def isDead_def)

lemma server_ok_read:
  assumes ok: "server_ok p A n s" and n: "Suc n < 2 ^ 32" and l: "svLoop s = LRead"
    and A: "\<And>a d b. r = SockData a d b \<Longrightarrow> (a, d) \<in> set A"
  shows "\<exists>s'. loop_read r s = Ret s' \<and> server_ok p A (Suc n) s'"
proof -
  have nc: "\<not> svSockClosed s" using server_okD(8) [OF ok] l by auto
  have ok': "server_ok p A (Suc n) s" using server_ok_mono [OF ok] by simp
  note top = server_ok_loop [OF ok' nc, of LTop]
  show ?thesis
  proof (cases r)
    case (SockData a d b)
    obtain x where x: "parse (take (maxPacket + 1) d) = Ret x" using parse_total by blast
    show ?thesis
    proof (cases x)
      case None
      with SockData x top l show ?thesis by simp
    next
      case (Some q)
      show ?thesis
      proof (cases "ptyp q = typeConnect")
        case True
        with server_ok_connect [OF ok n l, of a] SockData x Some server_ok_loop show ?thesis by fastforce
      next
        case False
        show ?thesis
        proof (cases "route a q b s")
          case None
          with SockData x Some False ok' show ?thesis by simp
        next
          case (Some s')
          with server_ok_route [OF ok' Some A [OF SockData]] x \<open>x = Some q\<close> have "server_ok p A (Suc n) (s'\<lparr>svLoop := LTop\<rparr>)"
            using l nc by (intro server_ok_loop) auto
          with SockData x \<open>x = Some q\<close> False Some show ?thesis by simp
        qed
      qed
    qed
  next
    case SockClosed
    have "server_ok p A (Suc n) (s\<lparr>svLoop := LDone, svClosingCh := True\<rparr>)"
      using ok' nc by (simp add: server_ok_def isDead_def)
    with SockClosed show ?thesis by simp
  qed (use top l in simp_all)
qed

text \<open>The top of the loop.\<close>

lemma sweep_frame [simp]:
  "svClosing (sweep now s) = svClosing s" "svLoop (sweep now s) = svLoop s" "svSockClosed (sweep now s) = svSockClosed s"
  "svProcs (sweep now s) = svProcs s" "svP (sweep now s) = svP s" "svAcks (sweep now s) = svAcks s"
proof -
  have "svClosing (foldl sweep_one s es) = svClosing s \<and> svLoop (foldl sweep_one s es) = svLoop s \<and>
      svSockClosed (foldl sweep_one s es) = svSockClosed s \<and> svProcs (foldl sweep_one s es) = svProcs s \<and>
      svP (foldl sweep_one s es) = svP s \<and> svAcks (foldl sweep_one s es) = svAcks s" for es s
    by (induction es arbitrary: s) (simp_all add: sweep_one_def)
  then show "svClosing (sweep now s) = svClosing s" "svLoop (sweep now s) = svLoop s" "svSockClosed (sweep now s) = svSockClosed s"
    "svProcs (sweep now s) = svProcs s" "svP (sweep now s) = svP s" "svAcks (sweep now s) = svAcks s"
    by (simp_all add: sweep_def)
qed

lemma server_ok_sweep_fold:
  "server_ok p A n s \<Longrightarrow> distinct (map fst es) \<Longrightarrow> \<forall>x \<in> set es. mget (svConns s) (fst x) = Some (snd x) \<Longrightarrow>
   server_ok p A n (foldl sweep_one s es)"
proof (induction es arbitrary: s)
  case (Cons x es)
  have x: "mget (svConns s) (fst x) = Some (snd x)" using Cons.prems(3) by simp
  have 1: "server_ok p A n (sweep_one s x)"
    using Cons.prems(1) server_ok_forget [OF Cons.prems(1) x] by (simp add: sweep_one_def)
  have "mget (svConns (sweep_one s x)) (fst y) = Some (snd y)" if "y \<in> set es" for y
  proof -
    have "fst y \<noteq> fst x" using Cons.prems(2) that by (simp add: image_iff) metis
    then show ?thesis using Cons.prems(3) that by (simp add: sweep_one_def)
  qed
  with Cons.IH [OF 1] Cons.prems(2) show ?case by simp
qed simp

lemma server_ok_sweep: "server_ok p A n s \<Longrightarrow> server_ok p A n (sweep now s)"
proof -
  assume ok: "server_ok p A n s"
  have "server_ok p A n (s\<lparr>svLastSweep := now\<rparr>)" using ok by (simp add: server_ok_def isDead_def)
  moreover have "mwf (svConns s)" by (rule table_okD(1) [OF server_okD(4) [OF ok]])
  ultimately show ?thesis
    using ok server_ok_sweep_fold [of p A n "s\<lparr>svLastSweep := now\<rparr>" "svConns s"]
    by (simp add: sweep_def mwf_def mget_def)
qed

lemma server_ok_closing: "server_ok p A n s \<Longrightarrow> server_ok p A n (s\<lparr>svCloseReq := r, svClosing := True, svClosingCh := True\<rparr>)"
  using proc_ok_mono [of p A _ n _ _ A True n] by (auto simp: server_ok_def isDead_def simp del: of_nat_Suc)

lemma close_one_frame [simp]:
  "svConns (close_one env s x) = svConns s" "svClosing (close_one env s x) = svClosing s" "svLoop (close_one env s x) = svLoop s"
  "svSockClosed (close_one env s x) = svSockClosed s"
  by (simp_all add: close_one_def proc_step_def split: option.split)

lemma server_ok_close_fold:
  "server_ok p A n s \<Longrightarrow> svClosing s \<Longrightarrow> \<forall>x \<in> set es. mget (svConns s) (fst x) = Some (snd x) \<Longrightarrow>
   server_ok p A n (foldl (close_one env) s es) \<and> svClosing (foldl (close_one env) s es) \<and>
   svLoop (foldl (close_one env) s es) = svLoop s \<and> svSockClosed (foldl (close_one env) s es) = svSockClosed s"
proof (induction es arbitrary: s)
  case (Cons x es)
  have x: "mget (svConns s) (fst x) = Some (snd x)" using Cons.prems(3) by simp
  have "server_ok p A n (close_one env s x)"
    using Cons.prems(1,2) server_ok_proc_step [OF Cons.prems(1) server_ok_entry(1) [OF Cons.prems(1) x]]
    by (simp add: close_one_def handle_Close_def is_write_def)
  with Cons.IH [OF this] Cons.prems(2,3) show ?case by simp
qed simp

lemma server_ok_top:
  assumes ok: "server_ok p A n s" and l: "svLoop s = LTop"
  shows "\<exists>s'. loop_top now env s = Ret s' \<and> server_ok p A n s'"
proof -
  have nc: "\<not> svSockClosed s" using server_okD(8) [OF ok] l by auto
  have "\<exists>s1. (if \<not> svClosing s \<and> svCloseReq s then beginShutdown env (s\<lparr>svCloseReq := False\<rparr>) else Ret s) = Ret s1 \<and>
      server_ok p A n s1 \<and> svLoop s1 = LTop \<and> \<not> svSockClosed s1"
  proof (cases "\<not> svClosing s \<and> svCloseReq s")
    case True
    let ?s = "s\<lparr>svCloseReq := False, svClosing := True, svClosingCh := True\<rparr>"
    have "\<not> svClosingCh s" using server_okD(7) [OF ok] True l by simp
    moreover have "mwf (svConns s)" by (rule table_okD(1) [OF server_okD(4) [OF ok]])
    then have "\<forall>x \<in> set (svConns s). mget (svConns ?s) (fst x) = Some (snd x)" by (simp add: mget_mem)
    ultimately show ?thesis
      using server_ok_close_fold [OF server_ok_closing [OF ok], of False "svConns s" env] True l nc by (simp add: beginShutdown_def Let_def)
  next
    case False
    then show ?thesis using ok l nc by auto
  qed
  then obtain s1 where s1: "loop_top now env s = (let s2 = sweep now s1 in
        if svClosing s2 \<and> svConns s2 = [] then Ret (s2\<lparr>svSockClosed := True, svLoop := LDone\<rparr>) else Ret (s2\<lparr>svLoop := LRead\<rparr>))"
      "server_ok p A n s1" "svLoop s1 = LTop" "\<not> svSockClosed s1" by (auto simp: loop_top_def)
  note sw = server_ok_sweep [OF s1(2), of now]
  have "server_ok p A n ((sweep now s1)\<lparr>svLoop := LRead\<rparr>)" using sw s1(3,4) by (intro server_ok_loop) simp_all
  moreover have "server_ok p A n ((sweep now s1)\<lparr>svSockClosed := True, svLoop := LDone\<rparr>)"
    if "svClosing s1" "svConns (sweep now s1) = []"
    using sw that by (simp add: server_ok_def isDead_def)
  ultimately show ?thesis using s1(1) by (auto simp: Let_def)
qed

text \<open>A connection takes a packet of its channel.\<close>

lemma server_ok_take:
  assumes ok: "server_ok p A n s" and k: "k < length (svProcs s)"
  shows "server_ok p A n (take_packet k e s)"
proof (cases "prIn (svProcs s ! k)")
  case Nil
  with ok show ?thesis by (simp add: take_packet_def)
next
  case (Cons q qs)
  let ?s = "s\<lparr>svProcs := (svProcs s)[k := (svProcs s ! k)\<lparr>prIn := qs\<rparr>]\<rparr>"
  note pr = server_okD(5) [OF ok k]
  have "peer_packet A (prAddr (svProcs s ! k)) (of_nat (Suc k)) q" using pr Cons by (simp add: proc_ok_def)
  moreover have "server_ok p A n ?s"
    using pr Cons k by (intro server_ok_upd [OF ok]) (auto simp: proc_ok_def simp del: of_nat_Suc)
  ultimately have "server_ok p A n (proc_step k e (EvPacket q) ?s)"
    using k by (intro server_ok_proc_step [where n = n]) (simp_all add: is_write_def)
  with Cons ok show ?thesis by (simp add: take_packet_def)
qed

section \<open>Runs\<close>

fun arrival :: "server_event \<Rightarrow> (addr \<times> bytes) list" where
  "arrival (SvSock (SockData a d b)) = [(a, d)]"
| "arrival _ = []"

text \<open>The datagrams that arrived during a run.\<close>

definition arrived :: "server_event list \<Rightarrow> (addr \<times> bytes) list" where
  "arrived evs = concat (map arrival evs)"

text \<open>The application writes payloads that fit; \<^verbatim>\<open>Write\<close> panics on others.\<close>

fun write_fits :: "server_event \<Rightarrow> bool" where
  "write_fits (SvWrite k e d) \<longleftrightarrow> length d \<le> MaxPayload"
| "write_fits _ \<longleftrightarrow> True"

lemma server_ok_handle:
  assumes ok: "server_ok p A n s" and n: "Suc n < 2 ^ 32" and w: "write_fits ev"
  shows "\<exists>s'. server_handle ev s = Ret s' \<and> server_ok p (A @ arrival ev) (Suc n) s'"
proof -
  have up: "server_ok p (A @ arrival ev) m s'" if "server_ok p A n s'" "n \<le> m" for s' m
    using server_ok_mono [OF that(1) _ that(2)] by simp
  have up': "server_ok p (A @ arrival ev) m s'" if "server_ok p A m s'" for s' m
    using server_ok_mono [OF that] by simp
  show ?thesis
  proof (cases ev)
    case (SvTop now env)
    show ?thesis
    proof (cases "svLoop s = LTop")
      case True
      obtain s' where "loop_top now env s = Ret s'" "server_ok p A n s'" using server_ok_top [OF ok True] by blast
      then show ?thesis using SvTop True up [of s' "Suc n"] by simp
    qed (use SvTop up [OF ok] in simp)
  next
    case (SvSock r)
    show ?thesis
    proof (cases "svLoop s = LRead")
      case True
      have "\<exists>s'. loop_read r s = Ret s' \<and> server_ok p (A @ arrival ev) (Suc n) s'"
        using SvSock by (intro server_ok_read [OF up [OF ok order_refl] n True]) simp
      then show ?thesis using SvSock True by simp
    qed (use SvSock up [OF ok] in simp)
  next
    case SvClose
    have "server_ok p A n (s\<lparr>svCloseReq := True\<rparr>)" using ok by (simp add: server_ok_def isDead_def)
    then show ?thesis using SvClose up by simp
  next
    case (SvWrite k e d)
    then show ?thesis
      using w ok server_ok_proc_step [OF ok, of k "EvWrite d" "Suc n" e] up' [where m = "Suc n"] up by (auto simp: handle_Write_def is_write_def)
  next
    case (SvPacket k e)
    then show ?thesis using ok server_ok_take [OF ok, of k e] up by simp
  next
    case (SvTick k e)
    then show ?thesis using ok server_ok_proc_step [OF ok, of k EvTick n e] up by (simp add: is_write_def)
  next
    case (SvTake k e)
    then show ?thesis using ok server_ok_proc_step [OF ok, of k EvRead n e] up by (simp add: is_write_def)
  next
    case (SvStop k e)
    then show ?thesis using ok server_ok_proc_step [OF ok, of k EvStop n e] up by (simp add: is_write_def)
  qed
qed

lemma server_ok_new: "NewServer q now True = Some s \<Longrightarrow> server_ok (WithDefaults q) [] 0 s"
  by (auto simp: NewServer_def server_ok_def table_ok_def acks_ok_def)

lemma server_run_snoc: "server_run s (evs @ [ev]) = go_bind (server_run s evs) (server_handle ev)"
  by (simp add: server_run_def server_step_def)

lemma server_ok_run:
  assumes "NewServer q now True = Some s0" "length evs < 2 ^ 32" "list_all write_fits evs"
  shows "\<exists>s. server_run s0 evs = Ret s \<and> server_ok (WithDefaults q) (arrived evs) (length evs) s"
  using assms(2,3)
proof (induction evs rule: rev_induct)
  case Nil
  then show ?case using server_ok_new [OF assms(1)] by (simp add: server_run_def arrived_def)
next
  case (snoc ev evs)
  then obtain s where s: "server_run s0 evs = Ret s" "server_ok (WithDefaults q) (arrived evs) (length evs) s" by auto
  have "Suc (length evs) < 2 ^ 32" "write_fits ev" using snoc.prems by simp_all
  from server_ok_handle [OF s(2) this] s(1) show ?case by (auto simp: server_run_snoc arrived_def)
qed

end
