(* ===== verification/Client.thy ===== *)
theory Client
  imports Server
begin

text \<open>
  The client endpoint (\<^verbatim>\<open>rudp/client.go\<close>): \<^verbatim>\<open>readLoop\<close> fills the channel \<^verbatim>\<open>inCh\<close>, \<^verbatim>\<open>run\<close> performs the
  handshake and then becomes the connection's \<^verbatim>\<open>mainLoop\<close>. The machine interleaves both with the calls of
  the application in any way. \<^verbatim>\<open>NewClient\<close> has returned once the handshake has ended; the name
  resolution and the socket are inputs.
\<close>

section \<open>State\<close>

datatype client_error = ErrConnectTimeout

datatype hphase = Connecting | Connected | TimedOut

record client_st =
  clConn :: conn
  clHand :: hphase
  clEpochs :: int
  clSock :: "bytes list"
  clIn :: "packet list"
  clResult :: "client_error option option"
  clCloseCalled :: bool
  clSockClosed :: bool

text \<open>\<^verbatim>\<open>connect\<close>, the closure of \<^verbatim>\<open>run\<close>.\<close>

definition connect :: "client_st \<Rightarrow> client_st" where
  "connect s = s\<lparr>clSock := clSock s @ [marshal typeConnect 0 0 []]\<rparr>"

text \<open>\<open>resolved\<close> and \<open>listened\<close> are the outcomes of \<^verbatim>\<open>ResolveUDPAddr\<close> and \<^verbatim>\<open>ListenPacket\<close>.\<close>

definition NewClient :: "rudpParams option \<Rightarrow> bool \<Rightarrow> bool \<Rightarrow> client_st option" where
  "NewClient p resolved listened =
     (if \<not> resolved \<or> \<not> listened then None
      else Some (connect \<lparr>clConn = newConn 0 True (WithDefaults p), clHand = Connecting, clEpochs = 0, clSock = [], clIn = [],
        clResult = None, clCloseCalled = False, clSockClosed = False\<rparr>))"

definition client_conn_step :: "env \<Rightarrow> event \<Rightarrow> client_st \<Rightarrow> client_st" where
  "client_conn_step e ev s = s\<lparr>clConn := conn_step (clConn s) (e, ev)\<rparr>"

section \<open>The goroutines\<close>

text \<open>The handshake: a packet of \<^verbatim>\<open>inCh\<close>, and an epoch without an answer.\<close>

definition hand_packet :: "packet \<Rightarrow> client_st \<Rightarrow> client_st" where
  "hand_packet p s =
     (if ptyp p \<noteq> typeConnAck \<or> connID p = 0 then s
      else s\<lparr>clConn := (clConn s)\<lparr>cid := connID p\<rparr>, clHand := Connected, clResult := Some None\<rparr>)"

definition hand_tick :: "client_st \<Rightarrow> client_st" where
  "hand_tick s =
     (let s1 = s\<lparr>clEpochs := clEpochs s + 1\<rparr> in
      if clEpochs s1 \<ge> EpochLimit (params (clConn s1))
      then s1\<lparr>clConn := (clConn s1)\<lparr>dead := True\<rparr>, clHand := TimedOut, clResult := Some (Some ErrConnectTimeout)\<rparr>
      else connect s1)"

text \<open>
  One turn of \<^verbatim>\<open>readLoop\<close>: \<open>pick\<close> chooses when both cases of its \<^verbatim>\<open>select\<close> are ready; a full channel of a live
  connection makes it wait.
\<close>

definition client_read :: "bytes \<Rightarrow> bool \<Rightarrow> client_st \<Rightarrow> client_st go" where
  "client_read d pick s =
     (if clSockClosed s then Ret s
      else go_bind (parse (take (maxPacket + 1) d)) (\<lambda>r. case r of
        None \<Rightarrow> Ret s
      | Some p \<Rightarrow>
          if length (clIn s) < inCap \<and> (pick \<or> \<not> dead (clConn s)) then Ret (s\<lparr>clIn := clIn s @ [p]\<rparr>) else Ret s))"

definition client_take :: "env \<Rightarrow> client_st \<Rightarrow> client_st" where
  "client_take e s =
     (case clIn s of
        [] \<Rightarrow> s
      | p # ps \<Rightarrow>
          (case clHand s of
             Connecting \<Rightarrow> hand_packet p (s\<lparr>clIn := ps\<rparr>)
           | Connected \<Rightarrow>
               if phase (clConn s) \<in> {Running, Flushing} then client_conn_step e (EvPacket p) (s\<lparr>clIn := ps\<rparr>) else s
           | TimedOut \<Rightarrow> s))"

datatype client_event =
    ClDatagram bytes bool
  | ClPacket env
  | ClTick env
  | ClWrite env bytes
  | ClTake env
  | ClClose env
  | ClCloseSock

text \<open>
  \<^verbatim>\<open>Close\<close> asks the main loop to flush and waits for it to end; then it closes the socket, which
  ends the read loop. When the handshake has timed out, \<^verbatim>\<open>NewClient\<close> closes the socket.
\<close>

fun client_handle :: "client_event \<Rightarrow> client_st \<Rightarrow> client_st go" where
  "client_handle (ClDatagram d pick) s = client_read d pick s"
| "client_handle (ClPacket e) s = Ret (client_take e s)"
| "client_handle (ClTick e) s =
     Ret (case clHand s of Connecting \<Rightarrow> hand_tick s | Connected \<Rightarrow> client_conn_step e EvTick s | TimedOut \<Rightarrow> s)"
| "client_handle (ClWrite e d) s =
     (if clHand s \<noteq> Connected then Ret s
      else go_bind (handle_Write (clConn s) d) (\<lambda>r. case r of None \<Rightarrow> Ret s | Some ev \<Rightarrow> Ret (client_conn_step e ev s)))"
| "client_handle (ClTake e) s = Ret (if clHand s = Connected then client_conn_step e EvRead s else s)"
| "client_handle (ClClose e) s =
     Ret (if clHand s = Connected then (client_conn_step e EvClose s)\<lparr>clCloseCalled := True\<rparr> else s)"
| "client_handle ClCloseSock s =
     Ret (if clHand s = TimedOut \<or> clHand s = Connected \<and> clCloseCalled s \<and> phase (clConn s) = Ended
          then s\<lparr>clSockClosed := True\<rparr> else s)"

definition client_step :: "client_st go \<Rightarrow> client_event \<Rightarrow> client_st go" where
  "client_step m ev = go_bind m (client_handle ev)"

definition client_run :: "client_st \<Rightarrow> client_event list \<Rightarrow> client_st go" where
  "client_run s evs = foldl client_step (Ret s) evs"

text \<open>Everything the client has put on the wire.\<close>

definition client_sent :: "client_st \<Rightarrow> bytes list" where
  "client_sent s = clSock s @ sock (clConn s)"

text \<open>\<^verbatim>\<open>Client.Read\<close>: a delivery, or that the main loop has ended; \<open>None\<close> while neither is ready.\<close>

definition Client_Read :: "client_st \<Rightarrow> bool \<Rightarrow> (conn_error + bytes) option" where
  "Client_Read s done =
     (if done then (if clHand s = TimedOut \<or> phase (clConn s) = Ended then Some (Inl ErrConnClosed) else None)
      else if phase (clConn s) \<in> {Running, Draining}
      then (case deliverQ (clConn s) of [] \<Rightarrow> None | d # _ \<Rightarrow> Some (case dErr d of None \<Rightarrow> Inr (dData d) | Some err \<Rightarrow> Inl err))
      else None)"

section \<open>Invariant\<close>

text \<open>The number of epochs and of datagrams that arrived in a run.\<close>

definition ticks :: "client_event list \<Rightarrow> nat" where
  "ticks evs = length (filter (\<lambda>ev. case ev of ClTick _ \<Rightarrow> True | _ \<Rightarrow> False) evs)"

definition dgrams :: "client_event list \<Rightarrow> bytes list" where
  "dgrams evs = concat (map (\<lambda>ev. case ev of ClDatagram d _ \<Rightarrow> [d] | _ \<Rightarrow> []) evs)"

definition got :: "bytes list \<Rightarrow> packet \<Rightarrow> bool" where
  "got D q \<longleftrightarrow> (\<exists>d \<in> set D. parse (take (maxPacket + 1) d) = Ret (Some q))"

definition got_all :: "bytes list \<Rightarrow> (env \<times> event) list \<Rightarrow> bool" where
  "got_all D es \<longleftrightarrow> (\<forall>x \<in> set es. case snd x of EvPacket q \<Rightarrow> got D q | _ \<Rightarrow> True)"

text \<open>The payload an event writes, when the connection takes it.\<close>

fun accepted :: "client_event \<Rightarrow> client_st \<Rightarrow> bytes list" where
  "accepted (ClWrite e d) s = (if clHand s = Connected \<and> phase (clConn s) = Running \<and> \<not> dead (clConn s) then [d] else [])"
| "accepted _ s = []"

fun client_writes :: "client_st \<Rightarrow> client_event list \<Rightarrow> bytes list" where
  "client_writes s [] = []"
| "client_writes s (ev # evs) = accepted ev s @ (case client_handle ev s of Ret s' \<Rightarrow> client_writes s' evs | Panic \<Rightarrow> [])"

fun hand_ok :: "rudpParams \<Rightarrow> bytes list \<Rightarrow> nat \<Rightarrow> bytes list \<Rightarrow> hphase \<Rightarrow> conn \<Rightarrow> int \<Rightarrow> bytes list \<Rightarrow> client_error option option \<Rightarrow> bool" where
  "hand_ok p D n W Connecting c k out r \<longleftrightarrow> c = newConn 0 True p \<and> k = int n \<and> int n < EpochLimit p \<and>
     out = replicate (Suc n) (marshal typeConnect 0 0 []) \<and> r = None \<and> W = []"
| "hand_ok p D n W Connected c k out r \<longleftrightarrow> cid c \<noteq> 0 \<and> r = Some None \<and>
     (\<exists>m. int m < EpochLimit p \<and> m \<le> n \<and> out = replicate (Suc m) (marshal typeConnect 0 0 [])) \<and>
     (\<exists>q. got D q \<and> ptyp q = typeConnAck \<and> connID q = cid c) \<and>
     (\<exists>es. c = mainLoop (newConn (cid c) True p) es \<and> got_all D es \<and> written (history (newConn (cid c) True p) es no_hist) = W)"
| "hand_ok p D n W TimedOut c k out r \<longleftrightarrow> r = Some (Some ErrConnectTimeout) \<and> int n \<ge> EpochLimit p \<and> dead c \<and>
     out = replicate (nat (EpochLimit p)) (marshal typeConnect 0 0 [])"

definition client_ok :: "rudpParams \<Rightarrow> bytes list \<Rightarrow> nat \<Rightarrow> bytes list \<Rightarrow> client_st \<Rightarrow> bool" where
  "client_ok p D n W s \<longleftrightarrow> list_all (got D) (clIn s) \<and>
     hand_ok p D n W (clHand s) (clConn s) (clEpochs s) (clSock s) (clResult s)"

fun client_fits :: "client_event \<Rightarrow> bool" where
  "client_fits (ClWrite e d) \<longleftrightarrow> length d \<le> MaxPayload"
| "client_fits _ \<longleftrightarrow> True"

lemma got_mono: "got D q \<Longrightarrow> set D \<subseteq> set D' \<Longrightarrow> got D' q"
  unfolding got_def by blast

lemma got_all_mono: "got_all D es \<Longrightarrow> set D \<subseteq> set D' \<Longrightarrow> got_all D' es"
  unfolding got_all_def by (auto split: event.splits intro: got_mono)

text \<open>More datagrams change nothing; more epochs only matter to a client that waits for its answer.\<close>

lemma client_ok_mono:
  assumes "client_ok p D n W s" "set D \<subseteq> set D'" "n \<le> m" "clHand s = Connecting \<Longrightarrow> m = n"
  shows "client_ok p D' m W s"
proof -
  have "list_all (got D') (clIn s)" using assms(1,2) got_mono by (auto simp: client_ok_def list_all_iff)
  moreover have "\<exists>q. got D' q \<and> ptyp q = typeConnAck \<and> connID q = cid (clConn s)"
    "\<exists>es. clConn s = mainLoop (newConn (cid (clConn s)) True p) es \<and> got_all D' es \<and>
       written (history (newConn (cid (clConn s)) True p) es no_hist) = W"
    "\<exists>k. int k < EpochLimit p \<and> k \<le> m \<and> clSock s = replicate (Suc k) (marshal typeConnect 0 0 [])" if "clHand s = Connected"
    using assms(1-3) that got_mono got_all_mono order_trans unfolding client_ok_def by (simp, blast)+
  ultimately show ?thesis using assms(1,3,4) unfolding client_ok_def by (cases "clHand s") auto
qed

lemma client_ok_conn_step:
  assumes ok: "client_ok p D n W s" and h: "clHand s = Connected" and ev: "case ev of EvPacket q \<Rightarrow> got D q | _ \<Rightarrow> True"
    and W: "W' = W @ (case ev of EvWrite d \<Rightarrow> if phase (clConn s) = Running then [d] else [] | _ \<Rightarrow> [])"
  shows "client_ok p D n W' (client_conn_step e ev s)"
proof -
  let ?c = "newConn (cid (clConn s)) True p"
  obtain es where es: "clConn s = mainLoop ?c es" "got_all D es" "written (history ?c es no_hist) = W"
    using ok h unfolding client_ok_def by auto
  have "got_all D (es @ [(e, ev)])" using es(2) ev by (auto simp: got_all_def)
  moreover have "conn_step (clConn s) (e, ev) = mainLoop ?c (es @ [(e, ev)])" using es(1) by (simp add: mainLoop_snoc)
  moreover have "written (history ?c (es @ [(e, ev)]) no_hist) = W'"
    using es W by (cases ev) (simp_all add: history_snoc)
  ultimately have "\<exists>es. conn_step (clConn s) (e, ev) = mainLoop ?c es \<and> got_all D es \<and> written (history ?c es no_hist) = W'" by blast
  then show ?thesis using ok h unfolding client_ok_def client_conn_step_def by simp
qed

lemma client_ok_tick:
  assumes ok: "client_ok p D n W s" and h: "clHand s = Connecting"
  shows "client_ok p D (Suc n) W (hand_tick s)"
proof -
  have c: "clConn s = newConn 0 True p" "clEpochs s = int n" "int n < EpochLimit p"
    "clSock s = replicate (Suc n) (marshal typeConnect 0 0 [])" "clResult s = None" "list_all (got D) (clIn s)" "W = []"
    using ok h unfolding client_ok_def by auto
  have p: "params (newConn 0 True p) = p" by (simp add: newConn_def)
  show ?thesis
  proof (cases "int n + 1 \<ge> EpochLimit p")
    case True
    then have "nat (EpochLimit p) = Suc n" using c(3) by linarith
    then show ?thesis using True c h p by (simp add: client_ok_def hand_tick_def)
  next
    case False
    then show ?thesis using c h p by (simp add: client_ok_def hand_tick_def connect_def replicate_append_same)
  qed
qed

lemma client_ok_hand_packet:
  assumes ok: "client_ok p D n W s" and h: "clHand s = Connecting" and q: "got D q"
  shows "client_ok p D n W (hand_packet q s)"
proof (cases "ptyp q \<noteq> typeConnAck \<or> connID q = 0")
  case True
  with ok show ?thesis by (simp add: hand_packet_def)
next
  case False
  let ?c = "(newConn 0 True p)\<lparr>cid := connID q\<rparr>"
  have "?c = mainLoop (newConn (connID q) True p) []" "got_all D []"
    "written (history (newConn (connID q) True p) [] no_hist) = []" by (simp_all add: newConn_def got_all_def no_hist_def)
  then have "\<exists>es. ?c = mainLoop (newConn (connID q) True p) es \<and> got_all D es \<and>
      written (history (newConn (connID q) True p) es no_hist) = []" by blast
  moreover have "\<exists>q'. got D q' \<and> ptyp q' = typeConnAck \<and> connID q' = connID q" using q False by blast
  moreover have "\<exists>m. int m < EpochLimit p \<and> m \<le> n \<and> replicate (Suc n) (marshal typeConnect 0 0 []) = replicate (Suc m) (marshal typeConnect 0 0 [])"
    using ok h by (auto simp: client_ok_def intro!: exI [of _ n])
  ultimately show ?thesis using ok h False by (simp add: client_ok_def hand_packet_def del: replicate_Suc)
qed

lemma client_ok_take:
  assumes ok: "client_ok p D n W s"
  shows "client_ok p D n W (client_take e s)"
proof (cases "clIn s")
  case Nil
  with ok show ?thesis by (simp add: client_take_def)
next
  case (Cons q qs)
  have q: "got D q" and ok': "client_ok p D n W (s\<lparr>clIn := qs\<rparr>)" using ok Cons by (simp_all add: client_ok_def)
  then show ?thesis
    using Cons ok client_ok_hand_packet [OF ok' _ q] client_ok_conn_step [OF ok', of "EvPacket q" W e]
    by (cases "clHand s") (simp_all add: client_take_def)
qed

text \<open>The flags of \<^verbatim>\<open>Close\<close> are not part of the invariant.\<close>

lemma client_ok_flags [simp]:
  "client_ok p D n W (s\<lparr>clCloseCalled := b\<rparr>) = client_ok p D n W s" "client_ok p D n W (s\<lparr>clSockClosed := b\<rparr>) = client_ok p D n W s"
  by (simp_all add: client_ok_def)

lemma client_ok_handle:
  assumes ok: "client_ok p D n W s" and w: "client_fits ev"
  shows "\<exists>s'. client_handle ev s = Ret s' \<and> client_ok p (D @ dgrams [ev]) (n + ticks [ev]) (W @ accepted ev s) s'"
proof (cases ev)
  case (ClDatagram d b)
  obtain r where r: "parse (take (maxPacket + 1) d) = Ret r" using parse_total by blast
  have ok': "client_ok p (D @ [d]) n W s" by (rule client_ok_mono [OF ok]) auto
  have "client_ok p (D @ [d]) n W (s\<lparr>clIn := clIn s @ [q]\<rparr>)" if "r = Some q" for q
    using ok' r that by (auto simp: client_ok_def got_def)
  with ok' r ClDatagram show ?thesis by (auto simp: client_read_def dgrams_def ticks_def split: option.split)
next
  case (ClTick e)
  have up: "client_ok p D (Suc n) W s'" if "client_ok p D n W s'" "clHand s' \<noteq> Connecting" for s'
    using that by (intro client_ok_mono [OF that(1)]) simp_all
  have "clHand (client_conn_step e EvTick s) = clHand s" by (simp add: client_conn_step_def)
  with ClTick show ?thesis
    using client_ok_tick [OF ok] client_ok_conn_step [OF ok, of EvTick W e] up ok
    by (cases "clHand s") (auto simp: dgrams_def ticks_def)
next
  case (ClWrite e d)
  have "dead (clConn s) \<or> client_ok p D n (W @ accepted ev s) (client_conn_step e (EvWrite d) s)" if "clHand s = Connected"
    using client_ok_conn_step [OF ok that, of "EvWrite d" "W @ accepted ev s" e] ClWrite that by auto
  with ClWrite w ok show ?thesis by (auto simp: handle_Write_def dgrams_def ticks_def)
next
  case (ClPacket e)
  then show ?thesis using client_ok_take [OF ok] by (simp add: dgrams_def ticks_def)
next
  case (ClTake e)
  then show ?thesis using ok client_ok_conn_step [OF ok, of EvRead W e] by (simp add: dgrams_def ticks_def)
next
  case (ClClose e)
  then show ?thesis using ok client_ok_conn_step [OF ok, of EvClose W e] by (simp add: dgrams_def ticks_def)
next
  case ClCloseSock
  then show ?thesis using ok by (simp add: dgrams_def ticks_def)
qed

lemma client_ok_new: "NewClient q True True = Some s \<Longrightarrow> client_ok (WithDefaults q) [] 0 [] s"
  using WithDefaults_ok [of q] by (auto simp: NewClient_def client_ok_def connect_def params_ok_def)

lemma client_run_Cons: "client_run s (ev # evs) = go_bind (client_handle ev s) (\<lambda>s'. client_run s' evs)"
proof -
  have "foldl client_step Panic evs = Panic" by (induction evs) (simp_all add: client_step_def)
  then show ?thesis by (cases "client_handle ev s") (simp_all add: client_run_def client_step_def)
qed

lemma client_ok_run:
  "client_ok p D n W s \<Longrightarrow> list_all client_fits evs \<Longrightarrow>
   \<exists>s'. client_run s evs = Ret s' \<and> client_ok p (D @ dgrams evs) (n + ticks evs) (W @ client_writes s evs) s'"
proof (induction evs arbitrary: s D n W)
  case Nil
  then show ?case by (simp add: client_run_def dgrams_def ticks_def)
next
  case (Cons ev evs)
  then obtain s1 where s1: "client_handle ev s = Ret s1" "client_ok p (D @ dgrams [ev]) (n + ticks [ev]) (W @ accepted ev s) s1"
    using client_ok_handle [of p D n W s ev] by auto
  have "dgrams (ev # evs) = dgrams [ev] @ dgrams evs" "ticks (ev # evs) = ticks [ev] + ticks evs"
    by (simp_all add: dgrams_def ticks_def)
  with Cons.IH [OF s1(2)] Cons.prems(2) s1(1) show ?case by (simp add: client_run_Cons add.assoc)
qed

end
