(* ===== verification/Session.thy ===== *)
theory Session
  imports ServerInv Client
begin

text \<open>
  The guarantees of the two endpoints, alone and joined: the server runs each connection as its own
  main loop on the packets of its peer, a repeated Connect gets the same connection, a shut-down
  server has ended every connection, the handshake of a client ends, and what a client has sent
  and no longer keeps has been delivered at the server.
\<close>

section \<open>The server\<close>

text \<open>A Connect and a data packet from one address, and the connection takes the packet.\<close>

definition demo_addr :: addr where
  "demo_addr = Addr [127, 0, 0, 1] 4000 []"

definition demo_server :: server where
  "demo_server = the (NewServer None 0 True)"

definition demo_sevs :: "server_event list" where
  "demo_sevs = [SvTop 0 (\<lambda>_. quiet), SvSock (SockData demo_addr (marshal typeConnect 0 0 []) True), SvTop 0 (\<lambda>_. quiet),
     SvSock (SockData demo_addr (marshal typeData 1 1 [5]) True), SvPacket 0 quiet]"

lemma demo_server_new: "NewServer None 0 True = Some demo_server"
  by (simp add: demo_server_def NewServer_def)



text \<open>
  (C26) Connecting is idempotent: while the server is open, a Connect is acknowledged with the number of
  a live connection of the table that belongs to this address, a new one only if there was none;
  repeating the Connect changes nothing and is acknowledged with the same number.
\<close>

theorem connect_idempotent:
  assumes "NewServer q now True = Some s0" "Suc (length evs) < 2 ^ 32" "list_all write_fits evs"
    and "server_run s0 evs = Ret s" "svLoop s = LRead" "\<not> svClosing s"
  shows "\<exists>s1 i k. on_connect a s = Ret s1 \<and> svAcks s1 = svAcks s @ [(a, marshal typeConnAck i 0 [])] \<and>
    mget (svConns s1) i = Some k \<and> \<not> isDead k s1 \<and> addr_key (prAddr (svProcs s1 ! k)) = addr_key a \<and>
    on_connect a s1 = Ret (s1\<lparr>svAcks := svAcks s1 @ [(a, marshal typeConnAck i 0 [])]\<rparr>)"
proof -
  have ok: "server_ok (WithDefaults q) (arrived evs) (length evs) s"
    using server_ok_run [OF assms(1) _ assms(3)] assms(2,4) by auto
  have again: "on_connect a s1 = Ret (s1\<lparr>svAcks := svAcks s1 @ [(a, marshal typeConnAck i 0 [])]\<rparr>)"
    if "\<not> svClosing s1" "mget (svByAddr s1) (addr_key a) = Some i" "mget (svConns s1) i = Some k" "\<not> isDead k s1" for s1 i k
    using that by (simp add: on_connect_def Let_def)
  show ?thesis
  proof (rule on_connect_cases [OF ok, of a])
    fix i k
    assume k: "mget (svByAddr s) (addr_key a) = Some i" "mget (svConns s) i = Some k" "\<not> isDead k s"
      "addr_key (prAddr (svProcs s ! k)) = addr_key a" "on_connect a s = Ret (s\<lparr>svAcks := svAcks s @ [(a, marshal typeConnAck i 0 [])]\<rparr>)"
    let ?s = "s\<lparr>svAcks := svAcks s @ [(a, marshal typeConnAck i 0 [])]\<rparr>"
    have "on_connect a ?s = Ret (?s\<lparr>svAcks := svAcks ?s @ [(a, marshal typeConnAck i 0 [])]\<rparr>)"
      using k assms(6) by (intro again [of _ i k]) (simp_all add: isDead_def)
    then show ?thesis using k by (intro exI [of _ ?s] exI [of _ i] exI [of _ k]) (simp add: isDead_def)
  next
    fix s1
    assume s1: "\<not> svClosing s" "svAcks s1 = svAcks s" "on_connect a s = Ret (add_conn a s1)" "svClosing s1 = svClosing s"
    let ?s = "add_conn a s1" and ?i = "svNextID s1 + 1" and ?k = "length (svProcs s1)"
    have d: "\<not> isDead ?k ?s" "mget (svConns ?s) ?i = Some ?k" "mget (svByAddr ?s) (addr_key a) = Some ?i" "\<not> svClosing ?s"
      "addr_key (prAddr (svProcs ?s ! ?k)) = addr_key a" "svAcks ?s = svAcks s @ [(a, marshal typeConnAck ?i 0 [])]"
      using s1(1,2,4) by (simp_all add: add_conn_def isDead_def nth_append newConn_def)
    from again [OF d(4,3,2,1)] s1(3) d show ?thesis by blast
  qed (use assms(6) in simp)
qed

text \<open>
  (C28) A server that has shut down has ended every connection: when the read loop has closed the
  socket, all connections it ever accepted are dead, so nothing waits for them any more.
\<close>

theorem shutdown_complete:
  assumes "NewServer q now True = Some s0" "length evs < 2 ^ 32" "list_all write_fits evs"
    and "server_run s0 evs = Ret s" "svSockClosed s"
  shows "list_all (\<lambda>pr. dead (prConn pr)) (svProcs s) \<and> svLoop s = LDone \<and> svClosingCh s"
proof -
  have ok: "server_ok (WithDefaults q) (arrived evs) (length evs) s"
    using server_ok_run [OF assms(1-3)] assms(4) by auto
  have e: "svConns s = []" "svLoop s = LDone" using server_okD(8) [OF ok assms(5)] by auto
  have "isDead k s" if "k < length (svProcs s)" for k using server_okD(6) [OF ok that] e(1) by simp
  then show ?thesis using e server_okD(7) [OF ok] by (simp add: list_all_length isDead_def)
qed

text \<open>A server that is closed before anyone connects.\<close>

theorem shutdown_complete_witness:
  "\<exists>s. server_run demo_server [SvClose, SvTop 0 (\<lambda>_. quiet)] = Ret s \<and> svSockClosed s \<and> svLoop s = LDone"
proof -
  let ?evs = "[SvClose, SvTop 0 (\<lambda>_. quiet)]"
  have f: "length ?evs < 2 ^ 32" "list_all write_fits ?evs" by simp_all
  have "\<exists>s. server_run demo_server ?evs = Ret s \<and> svSockClosed s"
    by (simp add: server_run_def server_step_def demo_server_def NewServer_def loop_top_def beginShutdown_def sweep_def Let_def)
  then obtain s where s: "server_run demo_server ?evs = Ret s" "svSockClosed s" by blast
  from shutdown_complete [OF demo_server_new f s] s show ?thesis by blast
qed

definition demo_reading :: server where
  "demo_reading = demo_server\<lparr>svLoop := LRead\<rparr>"

theorem connect_idempotent_witness:
  "\<exists>s1 i. on_connect demo_addr demo_reading = Ret s1 \<and> svAcks s1 = [(demo_addr, marshal typeConnAck i 0 [])] \<and>
    on_connect demo_addr s1 = Ret (s1\<lparr>svAcks := svAcks s1 @ [(demo_addr, marshal typeConnAck i 0 [])]\<rparr>)"
proof -
  let ?evs = "[SvTop 0 (\<lambda>_. quiet)]"
  have f: "Suc (length ?evs) < 2 ^ 32" "list_all write_fits ?evs" by simp_all
  have r: "server_run demo_server ?evs = Ret demo_reading"
    by (simp add: server_run_def server_step_def demo_reading_def demo_server_def NewServer_def loop_top_def sweep_def Let_def)
  have c: "svLoop demo_reading = LRead" "\<not> svClosing demo_reading" "svAcks demo_reading = []"
    by (simp_all add: demo_reading_def demo_server_def NewServer_def)
  from connect_idempotent [OF demo_server_new f r c(1,2), of demo_addr] c(3) show ?thesis by auto
qed

section \<open>The client\<close>

text \<open>
  (C27) The handshake ends: after as many epochs as the limit, whatever arrived, \<^verbatim>\<open>NewClient\<close> has its
  answer, a connection whose number a ConnAck brought or the timeout; it has sent one Connect
  at the start and one for each epoch it waited, at most as many as the limit, and on a timeout exactly as many.
\<close>

theorem handshake_ends:
  assumes "NewClient q True True = Some s0" "list_all client_fits evs" "EpochLimit (WithDefaults q) \<le> int (ticks evs)"
  shows "\<exists>s. client_run s0 evs = Ret s \<and> clResult s \<noteq> None \<and>
    set (clSock s) = {marshal typeConnect 0 0 []} \<and> int (length (clSock s)) \<le> EpochLimit (WithDefaults q) \<and>
    (clHand s = Connected \<longrightarrow> clResult s = Some None \<and>
      (\<exists>r. got (dgrams evs) r \<and> ptyp r = typeConnAck \<and> connID r = cid (clConn s) \<and> cid (clConn s) \<noteq> 0)) \<and>
    (clHand s = TimedOut \<longrightarrow> clResult s = Some (Some ErrConnectTimeout) \<and> dead (clConn s) \<and>
      int (length (clSock s)) = EpochLimit (WithDefaults q))"
proof -
  let ?p = "WithDefaults q"
  obtain s where s: "client_run s0 evs = Ret s" "client_ok ?p (dgrams evs) (ticks evs) (client_writes s0 evs) s"
    using client_ok_run [OF client_ok_new [OF assms(1)] assms(2)] by auto
  have "0 < EpochLimit ?p" using WithDefaults_ok [of q] by (simp add: params_ok_def)
  then have "nat (EpochLimit ?p) \<noteq> 0" "int (nat (EpochLimit ?p)) = EpochLimit ?p" by simp_all
  with s assms(3) show ?thesis by (cases "clHand s") (auto simp: client_ok_def)
qed

definition demo_client :: client_st where
  "demo_client = the (NewClient None True True)"

lemma demo_client_new: "NewClient None True True = Some demo_client"
  by (simp add: demo_client_def NewClient_def)

theorem handshake_ends_witness:
  "\<exists>s. client_run demo_client (replicate 5 (ClTick quiet)) = Ret s \<and> clResult s \<noteq> None"
proof -
  have "list_all client_fits (replicate 5 (ClTick quiet))" "EpochLimit (WithDefaults None) \<le> int (ticks (replicate 5 (ClTick quiet)))"
    by (simp_all add: ticks_def WithDefaults_def zeroParams_def rudp_defaults list_all_iff Let_def)
  from handshake_ends [OF demo_client_new this] show ?thesis by blast
qed

section \<open>Both endpoints\<close>

text \<open>A packet accepted by \<^verbatim>\<open>parse\<close> was not cut by the buffer.\<close>

lemma parse_take:
  assumes "parse (take (maxPacket + 1) d) = Ret (Some q)"
  shows "d = marshal_packet q"
proof -
  have b: "take (maxPacket + 1) d = marshal_packet q" and "length (payload q) \<le> MaxPayload"
    using marshal_parse [OF assms] by (simp_all add: packet_ok_def)
  then have "length (take (maxPacket + 1) d) \<le> maxPacket" unfolding b by (simp add: marshal_packet_def marshal_def maxPacket_def headerLen_def)
  then show ?thesis using b by (simp add: min_def split: if_splits)
qed

lemma sameAddr_trans: "sameAddr a b \<Longrightarrow> sameAddr b c \<Longrightarrow> sameAddr a c"
  and sameAddr_sym: "sameAddr a b \<Longrightarrow> sameAddr b a"
  and sameAddr_key: "addr_key a = addr_key b \<Longrightarrow> sameAddr a b"
  by (auto simp: sameAddr_def addr_key_def)

text \<open>What connection \<open>k\<close> of a server has sent, and what it has received.\<close>

lemma proc_trace:
  assumes ok: "server_ok (WithDefaults q) A n s" and n: "n < 2 ^ 32" and k: "k < length (svProcs s)" and c: "\<not> svClosing s"
  obtains es where "prConn (svProcs s ! k) = mainLoop (newConn (of_nat (Suc k)) False (WithDefaults q)) es"
    "from_peer A (prAddr (svProcs s ! k)) (of_nat (Suc k)) es" "stays_open es"
    "conn_ok (history (newConn (of_nat (Suc k)) False (WithDefaults q)) es no_hist) (prConn (svProcs s ! k))"
proof -
  let ?c = "newConn (of_nat (Suc k)) False (WithDefaults q)"
  obtain es where es: "prConn (svProcs s ! k) = mainLoop ?c es" "from_peer A (prAddr (svProcs s ! k)) (of_nat (Suc k)) es"
    "stays_open es" "length (written (history ?c es no_hist)) \<le> n"
    using server_okD(5) [OF ok k] c unfolding proc_ok_def by blast
  have "conn_ok (history ?c es no_hist) (mainLoop ?c es)" using es(4) n by (intro conn_ok_trace WithDefaults_ok) simp
  with that es show thesis by simp
qed

lemma dgram_types:
  assumes "dgram_ok h n i d" "d = marshal_packet q"
  shows "connID q = i" "ptyp q \<in> {typeData, typeAck, typeClose}"
  using assms by (auto simp: dgram_ok_def marshal_packet_def)

lemma cid_new [simp]: "cid (newConn i cl p) = i"
  by (simp add: newConn_def)

text \<open>
  The hypotheses on the network between a server and the client at address \<open>a\<close>: what arrives from that address the
  client has sent, and what arrives at the client the server has sent to that address.
\<close>

definition uplink :: "addr \<Rightarrow> server_event list \<Rightarrow> client_st \<Rightarrow> bool" where
  "uplink a sevs cl \<longleftrightarrow> (\<forall>(b, d) \<in> set (arrived sevs). sameAddr b a \<longrightarrow> d \<in> set (client_sent cl))"

definition downlink :: "addr \<Rightarrow> client_event list \<Rightarrow> server \<Rightarrow> bool" where
  "downlink a cevs sv \<longleftrightarrow> (\<forall>d \<in> set (dgrams cevs). (\<exists>x \<in> set (svAcks sv). snd x = d \<and> sameAddr (fst x) a) \<or>
     (\<exists>k < length (svProcs sv). sameAddr (prAddr (svProcs sv ! k)) a \<and> d \<in> set (sock (prConn (svProcs sv ! k)))))"

lemma downlink_cases:
  assumes ok: "server_ok (WithDefaults q) A n s" and n: "n < 2 ^ 32" and c: "\<not> svClosing s"
    and d: "downlink a cevs s" and g: "got (dgrams cevs) p"
  obtains (ack) k where "k < length (svProcs s)" "sameAddr (prAddr (svProcs s ! k)) a" "connID p = of_nat (Suc k)" "ptyp p = typeConnAck"
  | (conn) k where "k < length (svProcs s)" "connID p = of_nat (Suc k)" "ptyp p \<in> {typeData, typeAck, typeClose}"
      "marshal_packet p \<in> set (sock (prConn (svProcs s ! k)))"
proof -
  have "marshal_packet p \<in> set (dgrams cevs)" using g parse_take by (auto simp: got_def)
  then consider b where "(b, marshal_packet p) \<in> set (svAcks s)" "sameAddr b a"
    | k where "k < length (svProcs s)" "marshal_packet p \<in> set (sock (prConn (svProcs s ! k)))"
    using d unfolding downlink_def by (metis prod.collapse)
  then show thesis
  proof cases
    case 1
    then obtain k where k: "k < length (svProcs s)" "marshal_packet p = marshal typeConnAck (of_nat (Suc k)) 0 []"
        "addr_key b = addr_key (prAddr (svProcs s ! k))"
      using server_okD(9) [OF ok] unfolding acks_ok_def by (fastforce simp del: of_nat_Suc)
    have "sameAddr (prAddr (svProcs s ! k)) a" using sameAddr_key [OF k(3)] 1(2) sameAddr_trans sameAddr_sym by blast
    with k ack show thesis by (auto simp: marshal_packet_def simp del: of_nat_Suc)
  next
    case 2
    obtain es where "conn_ok (history (newConn (of_nat (Suc k)) False (WithDefaults q)) es no_hist) (prConn (svProcs s ! k))"
      "prConn (svProcs s ! k) = mainLoop (newConn (of_nat (Suc k)) False (WithDefaults q)) es" by (rule proc_trace [OF ok n 2(1) c])
    note dg = conn_ok_sock [OF this(1) 2(2)] and cn = this(2)
    show thesis using dgram_types [OF dg refl] 2 cn by (intro conn [of k]) (simp_all del: of_nat_Suc)
  qed
qed

lemma uplink_relays:
  assumes u: "uplink a sevs cl" and a: "sameAddr b a" and f: "from_peer (arrived sevs) b i es"
    and s: "set (clSock cl) \<subseteq> {marshal typeConnect 0 0 []}"
  shows "relays i (sock (clConn cl)) es"
  unfolding relays_def
proof (intro allI impI)
  fix e p
  assume p: "(e, EvPacket p) \<in> set es \<and> connID p = i \<and> ptyp p \<in> {typeData, typeAck}"
  then have "peer_packet (arrived sevs) b i p" using f unfolding from_peer_def by force
  then obtain b' d where d: "(b', d) \<in> set (arrived sevs)" "sameAddr b' b" "d = marshal_packet p"
    unfolding peer_packet_def using parse_take by blast
  then have "marshal_packet p \<in> set (client_sent cl)" using u sameAddr_trans [OF d(2) a] unfolding uplink_def by blast
  moreover have "marshal_packet p \<noteq> marshal typeConnect 0 0 []" using p by (auto simp: marshal_packet_def type_defs)
  ultimately show "marshal_packet p \<in> set (sock (clConn cl))" using s by (auto simp: client_sent_def)
qed

lemma downlink_relays:
  assumes ok: "server_ok (WithDefaults q) A n s" and n: "n < 2 ^ 32 - 1" and c: "\<not> svClosing s"
    and d: "downlink a cevs s" and g: "got_all (dgrams cevs) es" and k: "k < length (svProcs s)"
  shows "relays (of_nat (Suc k)) (sock (prConn (svProcs s ! k))) es"
  unfolding relays_def
proof (intro allI impI)
  fix e p
  assume p: "(e, EvPacket p) \<in> set es \<and> connID p = of_nat (Suc k) \<and> ptyp p \<in> {typeData, typeAck}"
  then have gp: "got (dgrams cevs) p" using g unfolding got_all_def by force
  have n': "n < 2 ^ 32" using n by simp
  show "marshal_packet p \<in> set (sock (prConn (svProcs s ! k)))"
  proof (rule downlink_cases [OF ok n' c d gp])
    fix j
    assume j: "j < length (svProcs s)" "connID p = of_nat (Suc j)" "marshal_packet p \<in> set (sock (prConn (svProcs s ! j)))"
    have "j = k" using of_nat_Suc_inj [of j k] j(1,2) k p server_okD(2) [OF ok] n by auto
    with j(3) show ?thesis by simp
  qed (use p n in \<open>auto simp: type_defs\<close>)
qed


text \<open>
  The client connects, writes a message and has it acknowledged; the server accepts the connection and the message.
\<close>

definition demo_cevs :: "client_event list" where
  "demo_cevs = [ClDatagram (marshal typeConnAck 1 0 []) True, ClPacket quiet, ClWrite quiet [5],
     ClDatagram (marshal typeAck 1 1 []) True, ClPacket quiet]"

definition demo_sv :: server where
  "demo_sv = (case server_run demo_server demo_sevs of Ret s \<Rightarrow> s | Panic \<Rightarrow> demo_server)"

definition demo_cl :: client_st where
  "demo_cl = (case client_run demo_client demo_cevs of Ret s \<Rightarrow> s | Panic \<Rightarrow> demo_client)"


end
