(* ===== verification/Wire.thy ===== *)
theory Wire
  imports Codec
begin

text \<open>
  Package \<^verbatim>\<open>wire\<close> (\<^verbatim>\<open>wire/wire.go\<close>): the application messages, \<^verbatim>\<open>Encode\<close> and \<^verbatim>\<open>Decode\<close>.
  A panic is the outcome \<open>Panic\<close>, the error return of \<^verbatim>\<open>Decode\<close> is \<open>Inl ErrMalformed\<close>.
  The lemmas show that decoding never panics, that it inverts encoding, and that the bytes
  accepted are exactly the encodings, so that every message has one representation.
\<close>

section \<open>Messages\<close>

definition KindJoin :: u8 where "KindJoin = 1"
definition KindRequest :: u8 where "KindRequest = 2"
definition KindChunk :: u8 where "KindChunk = 3"
definition KindChunkResult :: u8 where "KindChunkResult = 4"
definition KindResult :: u8 where "KindResult = 5"

lemmas kind_defs = KindJoin_def KindRequest_def KindChunk_def KindChunkResult_def KindResult_def

definition MaxMsgLen :: nat where
  "MaxMsgLen = 1024"

datatype wire_error = ErrMalformed

datatype TaskID = TaskID (Job: u64) (Idx: u32)

datatype Request = Request (rqJob: u64) (rqLo: u64) (rqHi: u64) (rqMsg: gostring)

datatype Chunk = Chunk (ckID: TaskID) (ckLo: u64) (ckHi: u64) (ckMsg: gostring)

datatype ChunkResult = ChunkResult (crID: TaskID) (crHash: u64) (crNonce: u64)

datatype Result = Result (rsJob: u64) (rsHash: u64) (rsNonce: u64)

datatype Message =
    MJoin
  | MRequest Request
  | MChunk Chunk
  | MChunkResult ChunkResult
  | MResult Result

section \<open>Encoding\<close>

definition msgLen :: "gostring \<Rightarrow> u16 go" where
  "msgLen s = (if length s > MaxMsgLen then Panic else Ret (of_nat (length s)))"

fun Encode :: "Message \<Rightarrow> bytes go" where
  "Encode MJoin = Ret [KindJoin]"
| "Encode (MRequest m) = go_bind (msgLen (rqMsg m)) (\<lambda>n.
     Ret ([KindRequest] @ PutUint64 (rqJob m) @ PutUint64 (rqLo m) @ PutUint64 (rqHi m)
       @ PutUint16 n @ rqMsg m))"
| "Encode (MChunk m) = go_bind (msgLen (ckMsg m)) (\<lambda>n.
     Ret ([KindChunk] @ PutUint64 (Job (ckID m)) @ PutUint32 (Idx (ckID m))
       @ PutUint64 (ckLo m) @ PutUint64 (ckHi m) @ PutUint16 n @ ckMsg m))"
| "Encode (MChunkResult m) =
     Ret ([KindChunkResult] @ PutUint64 (Job (crID m)) @ PutUint32 (Idx (crID m))
       @ PutUint64 (crHash m) @ PutUint64 (crNonce m))"
| "Encode (MResult m) =
     Ret ([KindResult] @ PutUint64 (rsJob m) @ PutUint64 (rsHash m) @ PutUint64 (rsNonce m))"

section \<open>Decoding\<close>

definition tail :: "bytes \<Rightarrow> nat \<Rightarrow> gostring option go" where
  "tail b at =
     (if length b < at + 2 then Ret None
      else go_bind (Uint16 (drop at b)) (\<lambda>v. let n = unat v in
        if n > MaxMsgLen \<or> length b \<noteq> at + 2 + n then Ret None
        else Ret (Some (drop (at + 2) b))))"

definition Decode :: "bytes \<Rightarrow> (wire_error + Message) go" where
  "Decode b =
     (if length b = 0 then Ret (Inl ErrMalformed)
      else if b ! 0 = KindJoin then
        (if length b = 1 then Ret (Inr MJoin) else Ret (Inl ErrMalformed))
      else if b ! 0 = KindRequest then
        go_bind (tail b 25) (\<lambda>t. case t of
          None \<Rightarrow> Ret (Inl ErrMalformed)
        | Some s \<Rightarrow>
            go_bind (Uint64 (drop 1 b)) (\<lambda>job.
            go_bind (Uint64 (drop 9 b)) (\<lambda>lo.
            go_bind (Uint64 (drop 17 b)) (\<lambda>hi.
              Ret (Inr (MRequest (Request job lo hi s)))))))
      else if b ! 0 = KindChunk then
        go_bind (tail b 29) (\<lambda>t. case t of
          None \<Rightarrow> Ret (Inl ErrMalformed)
        | Some s \<Rightarrow>
            go_bind (Uint64 (drop 1 b)) (\<lambda>job.
            go_bind (Uint32 (drop 9 b)) (\<lambda>idx.
            go_bind (Uint64 (drop 13 b)) (\<lambda>lo.
            go_bind (Uint64 (drop 21 b)) (\<lambda>hi.
              Ret (Inr (MChunk (Chunk (TaskID job idx) lo hi s))))))))
      else if b ! 0 = KindChunkResult then
        (if length b = 29 then
            go_bind (Uint64 (drop 1 b)) (\<lambda>job.
            go_bind (Uint32 (drop 9 b)) (\<lambda>idx.
            go_bind (Uint64 (drop 13 b)) (\<lambda>hash.
            go_bind (Uint64 (drop 21 b)) (\<lambda>nonce.
              Ret (Inr (MChunkResult (ChunkResult (TaskID job idx) hash nonce)))))))
         else Ret (Inl ErrMalformed))
      else if b ! 0 = KindResult then
        (if length b = 25 then
            go_bind (Uint64 (drop 1 b)) (\<lambda>job.
            go_bind (Uint64 (drop 9 b)) (\<lambda>hash.
            go_bind (Uint64 (drop 17 b)) (\<lambda>nonce.
              Ret (Inr (MResult (Result job hash nonce))))))
         else Ret (Inl ErrMalformed))
      else Ret (Inl ErrMalformed))"

section \<open>Lemmas\<close>

lemma of_nat_u16: "n \<le> MaxMsgLen \<Longrightarrow> unat (of_nat n :: u16) = n"
  by (simp add: MaxMsgLen_def unat_of_nat)

lemma msgLen_Ret: "msgLen s = Ret n \<longleftrightarrow> length s \<le> MaxMsgLen \<and> n = of_nat (length s)"
  by (auto simp: msgLen_def)

lemma tail_put:
  assumes "length p = at" and "length s \<le> MaxMsgLen"
  shows "tail (p @ PutUint16 (of_nat (length s)) @ s) at = Ret (Some s)"
  using assms by (simp add: tail_def Uint16_Put Let_def of_nat_u16)

lemma tail_total: "\<exists>t. tail b at = Ret t"
proof (cases "length b < at + 2")
  case True
  then show ?thesis by (simp add: tail_def)
next
  case False
  then obtain v where "Uint16 (drop at b) = Ret v"
    using Uint_returns(1) [of "drop at b"] by fastforce
  with False show ?thesis
    by (cases "unat v > MaxMsgLen \<or> length b \<noteq> at + 2 + unat v") (auto simp: tail_def Let_def)
qed

lemma tail_SomeD:
  assumes "tail b at = Ret (Some s)"
  shows "length s \<le> MaxMsgLen" and "b = take at b @ PutUint16 (of_nat (length s)) @ s"
proof -
  from assms obtain v where v: "Uint16 (drop at b) = Ret v" and n: "unat v \<le> MaxMsgLen"
    and len: "length b = at + 2 + unat v" and s: "s = drop (at + 2) b"
    by (auto simp: tail_def Let_def go_bind_Ret_iff split: if_splits)
  from s len have sl: "length s = unat v" by simp
  with n show "length s \<le> MaxMsgLen" by simp
  have "PutUint16 (of_nat (length s)) = take 2 (drop at b)"
    using Put_Uint16 [OF v] sl by simp
  with s show "b = take at b @ PutUint16 (of_nat (length s)) @ s"
    by (metis append_take_drop_id drop_drop add.commute)
qed

lemmas Uint_eqs = Uint16_def Uint32_def Uint64_def

lemma tail_Some_length: "tail b at = Ret (Some s) \<Longrightarrow> at + 2 \<le> length b"
  by (auto simp: tail_def split: if_splits)

lemma Decode_total: "\<exists>r. Decode b = Ret r"
proof -
  obtain t t' where t: "tail b 25 = Ret t" and t': "tail b 29 = Ret t'"
    using tail_total by metis
  have "t = None \<or> (\<exists>s. t = Some s \<and> 27 \<le> length b)"
    using t tail_Some_length [of b 25] by (cases t) auto
  moreover have "t' = None \<or> (\<exists>s. t' = Some s \<and> 31 \<le> length b)"
    using t' tail_Some_length [of b 29] by (cases t') auto
  ultimately show ?thesis
    by (elim disjE exE conjE) (simp_all add: Decode_def t t' Uint32_def Uint64_def)
qed

definition msg_ok :: "Message \<Rightarrow> bool" where
  "msg_ok m = (case m of
     MRequest r \<Rightarrow> length (rqMsg r) \<le> MaxMsgLen
   | MChunk c \<Rightarrow> length (ckMsg c) \<le> MaxMsgLen
   | _ \<Rightarrow> True)"

lemma Encode_Ret_iff: "(\<exists>b. Encode m = Ret b) \<longleftrightarrow> msg_ok m"
  by (cases m) (auto simp: msg_ok_def go_bind_Ret_iff msgLen_Ret)

lemma Decode_Encode:
  assumes "Encode m = Ret b"
  shows "Decode b = Ret (Inr m)"
proof (cases m)
  case MJoin
  with assms show ?thesis by (auto simp: Decode_def)
next
  case (MRequest r)
  with assms have r: "length (rqMsg r) \<le> MaxMsgLen"
    and b: "b = ([KindRequest] @ PutUint64 (rqJob r) @ PutUint64 (rqLo r) @ PutUint64 (rqHi r))
      @ PutUint16 (of_nat (length (rqMsg r))) @ rqMsg r"
    by (auto simp: go_bind_Ret_iff msgLen_Ret)
  have "tail b 25 = Ret (Some (rqMsg r))"
    unfolding b by (rule tail_put) (use r in auto)
  with b MRequest show ?thesis
    by (cases r) (simp add: Decode_def kind_defs codec_simps)
next
  case (MChunk c)
  with assms have c: "length (ckMsg c) \<le> MaxMsgLen"
    and b: "b = ([KindChunk] @ PutUint64 (Job (ckID c)) @ PutUint32 (Idx (ckID c)) @ PutUint64 (ckLo c)
      @ PutUint64 (ckHi c)) @ PutUint16 (of_nat (length (ckMsg c))) @ ckMsg c"
    by (auto simp: go_bind_Ret_iff msgLen_Ret)
  have "tail b 29 = Ret (Some (ckMsg c))"
    unfolding b by (rule tail_put) (use c in auto)
  with b MChunk show ?thesis
    by (cases c) (simp add: Decode_def kind_defs codec_simps)
next
  case (MChunkResult c)
  with assms show ?thesis
    using Uint64_Put [of "crNonce c" "[]"]
    by (cases c) (auto simp: Decode_def kind_defs codec_simps)
next
  case (MResult r)
  with assms show ?thesis
    using Uint64_Put [of "rsNonce r" "[]"]
    by (cases r) (auto simp: Decode_def kind_defs codec_simps)
qed

text \<open>The bytes that decode are exactly the encodings.\<close>

lemma Decode_request:
  assumes b: "b \<noteq> []" "b ! 0 = KindRequest" and d: "Decode b = Ret (Inr m)"
  shows "Encode m = Ret b"
proof -
  from b d obtain s job lo hi where t: "tail b 25 = Ret (Some s)"
    and f: "Uint64 (drop 1 b) = Ret job" "Uint64 (drop 9 b) = Ret lo" "Uint64 (drop 17 b) = Ret hi"
    and m: "m = MRequest (Request job lo hi s)"
    by (auto simp: Decode_def kind_defs go_bind_Ret_iff split: option.splits)
  note fs = f [THEN Put_Uint64]
  have "PutUint16 (of_nat (length s)) @ s = drop 25 b"
    using tail_SomeD(2) [OF t] by (metis append_eq_append_conv append_take_drop_id)
  then have "[KindRequest] @ PutUint64 job @ PutUint64 lo @ PutUint64 hi @ PutUint16 (of_nat (length s)) @ s = b"
    using b by (simp add: fs take_drop_join nth_drop_join)
  with tail_SomeD(1) [OF t] show ?thesis
    by (auto simp: m go_bind_Ret_iff msgLen_Ret)
qed

lemma Decode_chunk:
  assumes b: "b \<noteq> []" "b ! 0 = KindChunk" and d: "Decode b = Ret (Inr m)"
  shows "Encode m = Ret b"
proof -
  from b d obtain s job idx lo hi where t: "tail b 29 = Ret (Some s)"
    and f: "Uint64 (drop 1 b) = Ret job" "Uint64 (drop 13 b) = Ret lo" "Uint64 (drop 21 b) = Ret hi"
    and i: "Uint32 (drop 9 b) = Ret idx"
    and m: "m = MChunk (Chunk (TaskID job idx) lo hi s)"
    by (auto simp: Decode_def kind_defs go_bind_Ret_iff split: option.splits)
  note fs = f [THEN Put_Uint64] Put_Uint32 [OF i]
  have "PutUint16 (of_nat (length s)) @ s = drop 29 b"
    using tail_SomeD(2) [OF t] by (metis append_eq_append_conv append_take_drop_id)
  then have "[KindChunk] @ PutUint64 job @ PutUint32 idx @ PutUint64 lo @ PutUint64 hi
      @ PutUint16 (of_nat (length s)) @ s = b"
    using b by (simp add: fs take_drop_join nth_drop_join)
  with tail_SomeD(1) [OF t] show ?thesis
    by (auto simp: m go_bind_Ret_iff msgLen_Ret)
qed

lemma Decode_chunk_result:
  assumes b: "b \<noteq> []" "b ! 0 = KindChunkResult" and d: "Decode b = Ret (Inr m)"
  shows "Encode m = Ret b"
proof -
  from b d obtain job idx hash nonce where len: "length b = 29"
    and f: "Uint64 (drop 1 b) = Ret job" "Uint64 (drop 13 b) = Ret hash" "Uint64 (drop 21 b) = Ret nonce"
    and i: "Uint32 (drop 9 b) = Ret idx"
    and m: "m = MChunkResult (ChunkResult (TaskID job idx) hash nonce)"
    by (auto simp: Decode_def kind_defs go_bind_Ret_iff split: if_splits)
  note fs = f [THEN Put_Uint64] Put_Uint32 [OF i]
  have "[KindChunkResult] @ PutUint64 job @ PutUint32 idx @ PutUint64 hash @ PutUint64 nonce = b"
    using b len by (simp add: fs take_drop_join take_drop_last nth_drop_join)
  then show ?thesis by (simp add: m)
qed

lemma Decode_result:
  assumes b: "b \<noteq> []" "b ! 0 = KindResult" and d: "Decode b = Ret (Inr m)"
  shows "Encode m = Ret b"
proof -
  from b d obtain job hash nonce where len: "length b = 25"
    and f: "Uint64 (drop 1 b) = Ret job" "Uint64 (drop 9 b) = Ret hash" "Uint64 (drop 17 b) = Ret nonce"
    and m: "m = MResult (Result job hash nonce)"
    by (auto simp: Decode_def kind_defs go_bind_Ret_iff split: if_splits)
  note fs = f [THEN Put_Uint64]
  have "[KindResult] @ PutUint64 job @ PutUint64 hash @ PutUint64 nonce = b"
    using b len by (simp add: fs take_drop_join take_drop_last nth_drop_join)
  then show ?thesis by (simp add: m)
qed

lemma Encode_Decode: "Decode b = Ret (Inr m) \<Longrightarrow> Encode m = Ret b"
proof -
  assume d: "Decode b = Ret (Inr m)"
  then have b: "b \<noteq> []" by (auto simp: Decode_def)
  from d consider "b = [KindJoin]" "m = MJoin" | "b ! 0 = KindRequest" | "b ! 0 = KindChunk"
    | "b ! 0 = KindChunkResult" | "b ! 0 = KindResult"
    by (auto simp: Decode_def length_Suc_conv split: if_splits)
  then show ?thesis
  proof cases
    case 1
    then show ?thesis by simp
  qed (use b d in \<open>blast intro: Decode_request Decode_chunk Decode_chunk_result Decode_result\<close>)+
qed

text \<open>The contract, over the codec as a pair of partial functions.\<close>

definition wire_enc :: "Message \<Rightarrow> bytes option" where
  "wire_enc m = (case Encode m of Ret b \<Rightarrow> Some b | Panic \<Rightarrow> None)"

definition wire_dec :: "bytes \<Rightarrow> Message option" where
  "wire_dec b = (case Decode b of Ret (Inr m) \<Rightarrow> Some m | _ \<Rightarrow> None)"

lemma wire_enc_Some: "wire_enc m = Some b \<longleftrightarrow> Encode m = Ret b"
  by (auto simp: wire_enc_def split: go.splits)

lemma wire_dec_Some: "wire_dec b = Some m \<longleftrightarrow> Decode b = Ret (Inr m)"
  by (auto simp: wire_dec_def split: go.splits sum.splits)

interpretation wirec: codec wire_enc wire_dec msg_ok
proof
  show "\<exists>b. wire_enc m = Some b" if "msg_ok m" for m
    using that Encode_Ret_iff by (simp add: wire_enc_Some)
  show "wire_dec b = Some m" if "wire_enc m = Some b" for m b
    using that Decode_Encode by (simp add: wire_enc_Some wire_dec_Some)
  show "msg_ok m \<and> wire_enc m = Some b" if "wire_dec b = Some m" for m b
    using that Encode_Decode Encode_Ret_iff by (auto simp: wire_enc_Some wire_dec_Some)
qed

lemma Encode_length:
  assumes "Encode m = Ret b"
  shows "length b \<le> 1055"
  using assms by (cases m) (auto simp: go_bind_Ret_iff msgLen_Ret MaxMsgLen_def)

section \<open>Properties\<close>

text \<open>
  (C32) Wire codec: decoding never panics, and it accepts exactly the byte strings that encode
  some message, returning that message; so every message has one encoding and no two messages
  share one.
\<close>

theorem decode_exact: "Decode b \<noteq> Panic \<and> (\<forall>m. Decode b = Ret (Inr m) \<longleftrightarrow> Encode m = Ret b)"
proof -
  have "Decode b = Ret (Inr m) \<longleftrightarrow> Encode m = Ret b" for m
    using Decode_Encode Encode_Decode by blast
  moreover have "Decode b \<noteq> Panic"
    using Decode_total [of b] by (metis go.distinct(1))
  ultimately show ?thesis by blast
qed

end
