(* ===== verification/HashSearch.thy ===== *)
theory HashSearch
  imports Workload
begin

text \<open>
  Package \<^verbatim>\<open>workload/hashsearch\<close>. Partial answers are ordered lexicographically by hash and
  nonce; \<open>Merge\<close> is the minimum of that order and \<open>Zero\<close> its greatest element, from which
  the contract of \<^verbatim>\<open>workload.go\<close> follows. \<open>Compute\<close> is the loop of the source over 64-bit
  nonces.
\<close>

section \<open>The order of partial answers\<close>

instantiation Partial :: linorder
begin

definition less_Partial :: "Partial \<Rightarrow> Partial \<Rightarrow> bool" where
  "less_Partial a b \<longleftrightarrow> Hash a < Hash b \<or> (Hash a = Hash b \<and> Nonce a < Nonce b)"

definition less_eq_Partial :: "Partial \<Rightarrow> Partial \<Rightarrow> bool" where
  "less_eq_Partial a b \<longleftrightarrow> Hash a < Hash b \<or> (Hash a = Hash b \<and> Nonce a \<le> Nonce b)"

instance
  by standard (auto simp: less_Partial_def less_eq_Partial_def Partial.expand)

end

section \<open>The workload\<close>

definition hs_Hash :: "gostring \<Rightarrow> u64 \<Rightarrow> u64" where
  "hs_Hash msg nonce =
     (let buf = AppendUint (msg @ [0x20]) nonce; sum = Sum256 buf
      in of_nat (be_to_nat (take 8 sum)))"

definition Zero :: Partial where
  "Zero = Partial 0xFFFFFFFFFFFFFFFF 0xFFFFFFFFFFFFFFFF"

definition Merge :: "Partial \<Rightarrow> Partial \<Rightarrow> Partial" where
  "Merge a b = (if Hash b < Hash a \<or> (Hash b = Hash a \<and> Nonce b < Nonce a) then b else a)"

function scan :: "gostring \<Rightarrow> u64 \<Rightarrow> u64 \<Rightarrow> Partial \<Rightarrow> Partial" where
  "scan msg nonce hi best =
     (if nonce < hi then
        let h = hs_Hash msg nonce in
        scan msg (nonce + 1) hi
          (if h < Hash best \<or> (h = Hash best \<and> nonce < Nonce best) then Partial h nonce else best)
      else best)"
  by pat_completeness auto
termination
proof (relation "measure (\<lambda>(msg, nonce, hi, best). unat hi - unat nonce)")
  fix msg :: gostring and nonce hi :: u64 and best :: Partial and h
  assume "nonce < hi"
  then have "unat (nonce + 1) = Suc (unat nonce)" "unat nonce < unat hi"
    using unat_bound [of hi] by (auto simp: unat_word_ariths word_less_nat_alt)
  then show "((msg, nonce + 1, hi, if h < Hash best \<or> h = Hash best \<and> nonce < Nonce best
      then Partial h nonce else best), msg, nonce, hi, best)
      \<in> measure (\<lambda>(msg, nonce, hi, best). unat hi - unat nonce)"
    by simp
qed simp

declare scan.simps [simp del]

definition Compute :: "gostring \<Rightarrow> u64 \<Rightarrow> u64 \<Rightarrow> Partial" where
  "Compute msg lo hi = scan msg lo hi Zero"

definition hashsearch :: Workload where
  "hashsearch = \<lparr>wlCompute = Compute, wlMerge = Merge, wlZero = Zero\<rparr>"

section \<open>Merge is a minimum\<close>

lemma Merge_min: "Merge a b = min a b"
  by (auto simp: Merge_def min_def less_Partial_def less_eq_Partial_def Partial.expand)

lemma u64_max: "(x :: u64) \<le> 0xFFFFFFFFFFFFFFFF"
  using unat_bound [of x] by (simp add: word_le_nat_alt)

lemma Zero_top: "a \<le> Zero"
  using u64_max [of "Hash a"] u64_max [of "Nonce a"]
  by (auto simp: Zero_def less_eq_Partial_def)

lemma suc_no_wrap: "(x :: u64) < y \<Longrightarrow> unat (x + 1) = Suc (unat x)"
  using unat_bound [of y] by (auto simp: unat_word_ariths word_less_nat_alt)

lemma suc_le: "(x :: u64) < y \<Longrightarrow> x + 1 \<le> y"
  by (simp add: word_le_nat_alt suc_no_wrap word_less_nat_alt)

text \<open>The candidate a nonce contributes, and the scan as a minimum over candidates.\<close>

definition cand :: "gostring \<Rightarrow> u64 \<Rightarrow> Partial" where
  "cand msg nonce = Partial (hs_Hash msg nonce) nonce"

lemma scan_step:
  "scan msg nonce hi best = (if nonce < hi then scan msg (nonce + 1) hi (min best (cand msg nonce)) else best)"
  by (auto simp: scan.simps [of msg nonce] cand_def Let_def Merge_def simp flip: Merge_min)

lemma Min_insert_min: "finite A \<Longrightarrow> Min (insert (min a b) A) = Min (insert a (insert b A))"
  for a b :: Partial
  by (cases "A = {}") (simp_all add: ac_simps)

lemma scan_min: "scan msg nonce hi best = Min (insert best (cand msg ` {n. nonce \<le> n \<and> n < hi}))"
proof (induction msg nonce hi best rule: scan.induct)
  case (1 msg nonce hi best)
  show ?case
  proof (cases "nonce < hi")
    case False
    then have e: "{n. nonce \<le> n \<and> n < hi} = {}" by auto
    show ?thesis using False by (simp add: scan_step [of msg nonce] e)
  next
    case True
    let ?R = "{n. nonce + 1 \<le> n \<and> n < hi}"
    have "nonce \<le> n \<longleftrightarrow> n = nonce \<or> nonce + 1 \<le> n" if "n < hi" for n
      using True that suc_no_wrap [OF True] by (auto simp: word_le_nat_alt word_less_nat_alt word_unat_eq_iff)
    with True have R: "{n. nonce \<le> n \<and> n < hi} = insert nonce ?R" by auto
    have "scan msg nonce hi best = Min (insert (min best (cand msg nonce)) (cand msg ` ?R))"
      using "1.IH" [OF True refl] True
      by (simp add: scan_step [of msg nonce] cand_def flip: Merge_min) (simp add: Merge_def)
    also have "\<dots> = Min (insert best (insert (cand msg nonce) (cand msg ` ?R)))"
      by (rule Min_insert_min) simp
    finally show ?thesis by (simp add: R)
  qed
qed

lemma Compute_Min: "Compute msg lo hi = Min (insert Zero (cand msg ` {n. lo \<le> n \<and> n < hi}))"
  by (simp add: Compute_def scan_min)

interpretation hs: splittable hashsearch
proof
  fix a b c :: Partial
  show "wlMerge hashsearch a b = wlMerge hashsearch b a"
    by (simp add: hashsearch_def Merge_min min.commute)
  show "wlMerge hashsearch (wlMerge hashsearch a b) c = wlMerge hashsearch a (wlMerge hashsearch b c)"
    by (simp add: hashsearch_def Merge_min min.assoc)
  show "wlMerge hashsearch a a = a" "wlMerge hashsearch (wlZero hashsearch) a = a"
    by (simp_all add: hashsearch_def Merge_min Zero_top min_absorb2)
next
  fix lo mid hi :: u64 and msg
  show "wlCompute hashsearch msg lo hi = wlZero hashsearch" if "hi \<le> lo"
  proof -
    have e: "{n. lo \<le> n \<and> n < hi} = {}" using that by auto
    show ?thesis by (simp add: hashsearch_def Compute_Min e)
  qed
  show "wlCompute hashsearch msg lo hi =
      wlMerge hashsearch (wlCompute hashsearch msg lo mid) (wlCompute hashsearch msg mid hi)"
    if "lo \<le> mid" "mid \<le> hi"
  proof -
    let ?A = "cand msg ` {n. lo \<le> n \<and> n < mid}" and ?B = "cand msg ` {n. mid \<le> n \<and> n < hi}"
    have "{n. lo \<le> n \<and> n < hi} = {n. lo \<le> n \<and> n < mid} \<union> {n. mid \<le> n \<and> n < hi}"
      using that by auto
    then have "insert Zero (cand msg ` {n. lo \<le> n \<and> n < hi}) = insert Zero ?A \<union> insert Zero ?B"
      by auto
    then have "Compute msg lo hi = Min (insert Zero ?A \<union> insert Zero ?B)"
      by (simp only: Compute_Min)
    also have "\<dots> = min (Min (insert Zero ?A)) (Min (insert Zero ?B))"
      by (rule Min_Un) auto
    finally show ?thesis
      by (simp add: hashsearch_def Merge_min Compute_Min)
  qed
qed

lemma Compute_range:
  assumes "lo < hi"
  shows "lo \<le> Nonce (Compute msg lo hi)" "Nonce (Compute msg lo hi) < hi"
    "Hash (Compute msg lo hi) = hs_Hash msg (Nonce (Compute msg lo hi))"
proof -
  let ?C = "cand msg ` {n. lo \<le> n \<and> n < hi}"
  have C: "Compute msg lo hi \<in> insert Zero ?C"
    unfolding Compute_Min by (rule Min_in) auto
  have "Nonce (cand msg lo) < Nonce Zero"
    using assms u64_max [of hi] by (auto simp: cand_def Zero_def)
  then have "cand msg lo \<noteq> Zero" by auto
  then have "cand msg lo < Zero"
    using Zero_top [of "cand msg lo"] by simp
  moreover have "Compute msg lo hi \<le> cand msg lo"
    unfolding Compute_Min using assms by (intro Min_le) auto
  ultimately have "Compute msg lo hi \<noteq> Zero" by auto
  with C obtain n where "lo \<le> n" "n < hi" "Compute msg lo hi = cand msg n"
    by auto
  then show "lo \<le> Nonce (Compute msg lo hi)" "Nonce (Compute msg lo hi) < hi"
    "Hash (Compute msg lo hi) = hs_Hash msg (Nonce (Compute msg lo hi))"
    by (simp_all add: cand_def)
qed

lemma Compute_least:
  assumes "lo \<le> n" "n < hi"
  shows "Compute msg lo hi \<le> Partial (hs_Hash msg n) n"
  using assms unfolding Compute_Min by (intro Min_le) (auto simp: cand_def)

section \<open>Properties\<close>

text \<open>
  (C34) Hash search: on a non-empty range \<open>Compute\<close> returns a nonce of the range together with
  its hash, and no nonce of the range has a smaller hash, or the same hash and a smaller nonce.
\<close>

theorem compute_minimum:
  assumes "lo < hi"
  shows "lo \<le> Nonce (Compute msg lo hi) \<and> Nonce (Compute msg lo hi) < hi \<and>
    Hash (Compute msg lo hi) = hs_Hash msg (Nonce (Compute msg lo hi)) \<and>
    (\<forall>n. lo \<le> n \<and> n < hi \<longrightarrow> Hash (Compute msg lo hi) < hs_Hash msg n \<or>
       Hash (Compute msg lo hi) = hs_Hash msg n \<and> Nonce (Compute msg lo hi) \<le> n)"
proof -
  have "Compute msg lo hi \<le> Partial (hs_Hash msg n) n" if "lo \<le> n" "n < hi" for n
    using that by (rule Compute_least)
  then have "Hash (Compute msg lo hi) < hs_Hash msg n \<or>
      Hash (Compute msg lo hi) = hs_Hash msg n \<and> Nonce (Compute msg lo hi) \<le> n" if "lo \<le> n \<and> n < hi" for n
    using that unfolding less_eq_Partial_def by simp
  with Compute_range [OF assms, of msg] show ?thesis by blast
qed

theorem compute_minimum_witness:
  "3 \<le> Nonce (Compute [104] 3 5) \<and> Nonce (Compute [104] 3 5) < 5 \<and>
   Hash (Compute [104] 3 5) \<le> hs_Hash [104] 4"
proof -
  have a: "(3::u64) < 5" "(3::u64) \<le> 4" "(4::u64) < 5" by simp_all
  note m = compute_minimum [OF a(1), of "[104]"]
  then have "Hash (Compute [104] 3 5) < hs_Hash [104] 4 \<or> Hash (Compute [104] 3 5) = hs_Hash [104] 4"
    using a(2,3) by blast
  with m show ?thesis by (simp only: order_le_less simp_thms)
qed

text \<open>
  (C35) The contract of \<^verbatim>\<open>Merge\<close> holds for hash search: it is commutative, associative and
  idempotent with \<open>Zero\<close> as identity, so any accumulation depends only on the set of partial
  answers, not on their order or repetition.
\<close>

theorem merge_contract:
  "Merge a b = Merge b a \<and> Merge (Merge a b) c = Merge a (Merge b c) \<and> Merge a a = a \<and> Merge Zero a = a \<and>
   (set ps = set qs \<longrightarrow> foldl Merge Zero ps = foldl Merge Zero qs)"
proof -
  have h: "wlMerge hashsearch = Merge" "wlZero hashsearch = Zero" by (simp_all add: hashsearch_def)
  show ?thesis
    using hs.merge_comm [of a b] hs.merge_assoc [of a b c] hs.merge_idem [of a] hs.merge_zero [of a]
      hs.acc_of_set [of ps qs] unfolding h by blast
qed

theorem merge_contract_witness:
  "foldl Merge Zero [Partial 5 1, Partial 2 9, Partial 5 1] = foldl Merge Zero [Partial 2 9, Partial 5 1]"
proof -
  have "set [Partial 5 1, Partial 2 9, Partial 5 1] = set [Partial 2 9, Partial 5 1]" by auto
  with merge_contract [of Zero Zero Zero "[Partial 5 1, Partial 2 9, Partial 5 1]" "[Partial 2 9, Partial 5 1]"]
  show ?thesis by blast
qed

end
