(* ===== verification/Splitter.thy ===== *)
theory Splitter
  imports Wire HashSearch
begin

text \<open>
  Splitting a job into tasks (\<^verbatim>\<open>split\<close>, \<^verbatim>\<open>feed\<close> and the types \<^verbatim>\<open>Task\<close> and \<^verbatim>\<open>jobSpec\<close> of
  \<^verbatim>\<open>sched/sched.go\<close>), over 64-bit arithmetic. A zero chunk size makes \<^verbatim>\<open>split\<close> divide by zero;
  \<^verbatim>\<open>withDefaults\<close> excludes it. The lemmas show that the tasks tile the job's range without
  wrap-around.
\<close>

section \<open>Tasks and job specifications\<close>

datatype Task = Task (tID: TaskID) (tMsg: gostring) (tLo: u64) (tHi: u64)

datatype jobSpec = jobSpec (sId: u64) (sLo: u64) (sHi: u64) (sSize: u64) (sN: u32) (sMsg: gostring)

definition maxChunksPerJob :: u64 where
  "maxChunksPerJob = 1048576"

definition split :: "u64 \<Rightarrow> u64 \<Rightarrow> u64 \<Rightarrow> (u32 \<times> u64) go" where
  "split lo hi chunkSize =
     (if hi \<le> lo then Ret (0, chunkSize)
      else if chunkSize = 0 then Panic
      else let span = hi - lo;
               size = (if span div chunkSize \<ge> maxChunksPerJob then span div maxChunksPerJob + 1 else chunkSize);
               count = span div size + (if span mod size \<noteq> 0 then 1 else 0);
               count = (if count > 0xFFFFFFFF then 0xFFFFFFFF else count)
           in Ret (ucast count, size))"

definition feed_task :: "jobSpec \<Rightarrow> u32 \<Rightarrow> Task" where
  "feed_task spec i =
     (let lo = sLo spec + ucast i * sSize spec;
          hi = (if sHi spec - lo > sSize spec then lo + sSize spec else sHi spec)
      in Task (TaskID (sId spec) i) (sMsg spec) lo hi)"

text \<open>
  The tasks a feeder pushes into \<^verbatim>\<open>nq\<close>, in order. \<open>quit i\<close> says that the \<^verbatim>\<open>select\<close> at task \<open>i\<close>
  took \<^verbatim>\<open>cancel\<close> or \<^verbatim>\<open>stop\<close> instead of the queue.
\<close>

function feed_from :: "jobSpec \<Rightarrow> u32 set \<Rightarrow> (u32 \<Rightarrow> bool) \<Rightarrow> u32 \<Rightarrow> Task list" where
  "feed_from spec skip quit i =
     (if i < sN spec then
        (if i \<in> skip then feed_from spec skip quit (i + 1)
         else if quit i then []
         else feed_task spec i # feed_from spec skip quit (i + 1))
      else [])"
  by pat_completeness auto
termination
proof (relation "measure (\<lambda>(spec, skip, quit, i). unat (sN spec) - unat i)")
  fix spec :: jobSpec and skip quit and i :: u32
  assume "i < sN spec"
  then have "unat (i + 1) = Suc (unat i)" "unat i < unat (sN spec)"
    using unat_bound [of "sN spec"] by (auto simp: unat_word_ariths word_less_nat_alt)
  then show "((spec, skip, quit, i + 1), spec, skip, quit, i) \<in> measure (\<lambda>(spec, skip, quit, i). unat (sN spec) - unat i)"
    and "((spec, skip, quit, i + 1), spec, skip, quit, i) \<in> measure (\<lambda>(spec, skip, quit, i). unat (sN spec) - unat i)"
    by simp_all
qed simp

declare feed_from.simps [simp del]

definition feed :: "jobSpec \<Rightarrow> u32 set \<Rightarrow> (u32 \<Rightarrow> bool) \<Rightarrow> Task list" where
  "feed spec skip quit = feed_from spec skip quit 0"

section \<open>The tasks tile the range\<close>

text \<open>The \<open>i\<close>-th cut of a job, and when a specification is one \<open>split\<close> produces.\<close>

definition cut_at :: "jobSpec \<Rightarrow> nat \<Rightarrow> nat" where
  "cut_at spec i = min (unat (sLo spec) + i * unat (sSize spec)) (unat (sHi spec))"

definition spec_ok :: "jobSpec \<Rightarrow> bool" where
  "spec_ok spec \<longleftrightarrow> (if sHi spec \<le> sLo spec then sN spec = 0
     else sSize spec \<noteq> 0 \<and> unat (sN spec) \<le> 2 ^ 20 \<and>
       (unat (sN spec) - 1) * unat (sSize spec) < unat (sHi spec) - unat (sLo spec) \<and>
       unat (sHi spec) - unat (sLo spec) \<le> unat (sN spec) * unat (sSize spec))"

lemma ceil_div_bounds:
  assumes "0 < (sz::nat)" "0 < (span::nat)"
  defines "cnt \<equiv> span div sz + (if span mod sz \<noteq> 0 then 1 else 0)"
  shows "(cnt - 1) * sz < span" "span \<le> cnt * sz"
proof -
  have d: "span = span div sz * sz + span mod sz" by simp
  show "span \<le> cnt * sz"
  proof (cases "span mod sz = 0")
    case True
    then show ?thesis using d by (simp add: cnt_def)
  next
    case False
    then have "cnt * sz = span div sz * sz + sz" by (simp add: cnt_def)
    then show ?thesis using d mod_less_divisor [OF assms(1), of span] by linarith
  qed
  show "(cnt - 1) * sz < span"
  proof (cases "span mod sz = 0")
    case True
    then have "span = span div sz * sz" using d by simp
    moreover from this assms(2) have "0 < span div sz" by (metis gr0I mult_0)
    ultimately have "(span div sz - 1) * sz < span"
      using assms(1) by (metis Suc_pred diff_less mult_less_cancel2 zero_less_one less_nat_zero_code)
    with True show ?thesis by (simp add: cnt_def)
  next
    case False
    then have "span div sz * sz < span"
      using d by linarith
    with False show ?thesis by (simp add: cnt_def)
  qed
qed

lemma split_size_count:
  assumes "0 < c" "0 < (span::nat)"
  defines "sz \<equiv> (if span div c \<ge> 2 ^ 20 then span div 2 ^ 20 + 1 else c)"
  shows "span div sz + (if span mod sz \<noteq> 0 then 1 else 0) \<le> 2 ^ 20"
proof (cases "span div c \<ge> 2 ^ 20")
  case True
  then have s: "sz = span div 2 ^ 20 + 1" by (simp add: sz_def)
  have "span < 2 ^ 20 * sz"
    unfolding s using mod_less_divisor [of "2 ^ 20" span] div_mult_mod_eq [of span "2 ^ 20"]
    by (simp add: algebra_simps)
  then have "span div sz < 2 ^ 20"
    by (simp add: less_mult_imp_div_less mult.commute)
  then show ?thesis by auto
next
  case False
  then show ?thesis by (auto simp: sz_def)
qed

lemma unat_add_if: "unat x + 1 < 2 ^ 64 \<Longrightarrow> unat (x + (if b then 1 else 0)) = unat x + (if b then 1 else 0)"
  for x :: u64
  by (auto simp: unat_word_ariths)

lemma split_total: "chunkSize \<noteq> 0 \<Longrightarrow> \<exists>n sz. split lo hi chunkSize = Ret (n, sz)"
  unfolding split_def Let_def by simp

lemma split_spec_ok:
  assumes "chunkSize \<noteq> 0" "split lo hi chunkSize = Ret (n, sz)"
  shows "spec_ok (jobSpec job lo hi sz n msg)"
proof (cases "hi \<le> lo")
  case True
  with assms show ?thesis by (simp add: split_def spec_ok_def)
next
  case False
  let ?span = "hi - lo"
  define S where "S = unat hi - unat lo"
  have span: "unat ?span = S" "0 < S" "S < 2 ^ 64"
    using False unat_bound [of hi] by (auto simp: S_def unat_sub word_less_nat_alt word_le_nat_alt)
  define Z where "Z = (if S div unat chunkSize \<ge> 2 ^ 20 then S div 2 ^ 20 + 1 else unat chunkSize)"
  have c: "0 < unat chunkSize" using assms(1) by (simp add: unat_gt_0)
  have "S div 2 ^ 20 + 1 < 2 ^ 64"
    using span(3) less_mult_imp_div_less [of S "2 ^ 44" "2 ^ 20"] by simp
  then have "unat (?span div maxChunksPerJob + 1) = S div 2 ^ 20 + 1"
    by (simp add: unat_word_ariths unat_div span maxChunksPerJob_def)
  then have sz: "unat sz = Z"
    using assms False by (auto simp: split_def Let_def Z_def word_le_nat_alt unat_div span maxChunksPerJob_def)
  define C where "C = S div Z + (if S mod Z \<noteq> 0 then 1 else 0)"
  have C: "C \<le> 2 ^ 20"
    unfolding C_def Z_def by (rule split_size_count) (use c span in auto)
  have m: "(?span mod sz \<noteq> 0) = (S mod Z \<noteq> 0)"
    using unat_0_iff [of "?span mod sz"] by (simp only: unat_mod span sz)
  have "unat (?span div sz) = S div Z" by (simp add: unat_div span sz)
  moreover have "S div Z \<le> C" by (simp add: C_def)
  ultimately have "unat (?span div sz + (if ?span mod sz \<noteq> 0 then 1 else 0)) = C"
    using C unfolding m by (subst unat_add_if) (auto simp: C_def)
  with C have n: "unat n = C"
    using assms False
    by (auto simp: split_def Let_def word_less_nat_alt unsigned_ucast_eq take_bit_eq_mod)
  have "0 < Z" using c by (simp add: Z_def)
  from ceil_div_bounds [OF this span(2)] C n sz show ?thesis
    using False \<open>0 < Z\<close> by (auto simp: spec_ok_def C_def S_def)
qed

lemma spec_bounds:
  assumes "spec_ok spec" "i < unat (sN spec)"
  shows "unat (sLo spec) + i * unat (sSize spec) < unat (sHi spec)"
proof -
  have ne: "\<not> sHi spec \<le> sLo spec" and s: "(unat (sN spec) - 1) * unat (sSize spec) < unat (sHi spec) - unat (sLo spec)"
    using assms by (auto simp: spec_ok_def split: if_splits)
  have "i * unat (sSize spec) \<le> (unat (sN spec) - 1) * unat (sSize spec)"
    using assms(2) by (intro mult_right_mono) auto
  with s show ?thesis by linarith
qed

lemma cut_at_0: "sLo spec \<le> sHi spec \<Longrightarrow> cut_at spec 0 = unat (sLo spec)"
  by (simp add: cut_at_def word_le_nat_alt)

lemma cut_at_n: "spec_ok spec \<Longrightarrow> sLo spec \<le> sHi spec \<Longrightarrow> cut_at spec (unat (sN spec)) = unat (sHi spec)"
  by (auto simp: cut_at_def spec_ok_def word_le_nat_alt split: if_splits)

lemma cut_at_mono: "cut_at spec i \<le> cut_at spec (Suc i)"
  by (auto simp: cut_at_def)

lemma feed_task_bounds:
  assumes ok: "spec_ok spec" and i: "i < sN spec"
  shows "unat (tLo (feed_task spec i)) = cut_at spec (unat i)"
    and "unat (tHi (feed_task spec i)) = cut_at spec (Suc (unat i))"
    and "tLo (feed_task spec i) < tHi (feed_task spec i)"
proof -
  let ?lo = "sLo spec + ucast i * sSize spec"
  have b: "unat (sLo spec) + unat i * unat (sSize spec) < unat (sHi spec)"
    using spec_bounds [OF ok] i by (simp add: word_less_nat_alt)
  have h: "unat (sHi spec) < 2 ^ 64" using unat_bound [of "sHi spec"] by simp
  have u: "unat (ucast i :: u64) = unat i"
    using unat_bound [of i] by (simp add: unsigned_ucast_eq take_bit_eq_mod)
  have m: "unat (ucast i * sSize spec :: u64) = unat i * unat (sSize spec)"
    using b h u by (simp add: unat_word_ariths)
  have lo: "unat ?lo = unat (sLo spec) + unat i * unat (sSize spec)"
    using b h m by (simp add: unat_word_ariths)
  then have "?lo \<le> sHi spec" using b by (simp add: word_le_nat_alt)
  then have d: "unat (sHi spec - ?lo) = unat (sHi spec) - unat ?lo"
    by (rule unat_sub)
  show *: "unat (tLo (feed_task spec i)) = cut_at spec (unat i)"
    using b lo by (simp add: feed_task_def Let_def cut_at_def)
  show hi: "unat (tHi (feed_task spec i)) = cut_at spec (Suc (unat i))"
  proof (cases "sHi spec - ?lo > sSize spec")
    case True
    then have t: "unat ?lo + unat (sSize spec) < unat (sHi spec)"
      using d b lo by (simp add: word_less_nat_alt)
    then have "unat (?lo + sSize spec) = unat ?lo + unat (sSize spec)"
      using h by (simp add: unat_word_ariths)
    with True t lo show ?thesis by (simp add: feed_task_def Let_def cut_at_def)
  next
    case False
    then have "unat (sHi spec) \<le> unat ?lo + unat (sSize spec)"
      using d by (simp add: word_less_nat_alt)
    with False lo show ?thesis by (simp add: feed_task_def Let_def cut_at_def)
  qed
  have "0 < unat (sSize spec)"
    using ok i unat_0_iff [of "sSize spec"] by (auto simp: spec_ok_def split: if_splits)
  then show "tLo (feed_task spec i) < tHi (feed_task spec i)"
    using * hi b by (simp add: word_less_nat_alt cut_at_def)
qed

text \<open>The indices a feeder visits, and the whole feed.\<close>

definition idxs :: "u32 \<Rightarrow> u32 list" where
  "idxs n = map of_nat [0..<unat n]"

lemma set_idxs: "set (idxs n) = {i. i < n}"
proof -
  have "i < n \<Longrightarrow> i \<in> set (idxs n)" for i
    unfolding idxs_def set_map by (rule image_eqI [of _ _ "unat i"]) (auto simp: word_less_nat_alt)
  moreover have "i \<in> set (idxs n) \<Longrightarrow> i < n" for i
    using unat_bound [of n] by (auto simp: idxs_def word_less_nat_alt unat_of_nat)
  ultimately show ?thesis by auto
qed

lemma distinct_idxs: "distinct (idxs n)"
  using unat_bound [of n] unfolding idxs_def distinct_map
  by (auto simp: inj_on_def word_unat_eq_iff unat_of_nat)

lemma length_idxs [simp]: "length (idxs n) = unat n"
  by (simp add: idxs_def)

lemma feed_from_all:
  "feed_from spec skip (\<lambda>_. False) i =
     map (feed_task spec) (filter (\<lambda>j. j \<notin> skip) (map of_nat [unat i..<unat (sN spec)]))"
proof (induction spec skip "\<lambda>_ :: u32. False" i rule: feed_from.induct)
  case (1 spec skip i)
  show ?case
  proof (cases "i < sN spec")
    case True
    then have s: "unat (i + 1) = Suc (unat i)" "unat i < unat (sN spec)"
      using unat_bound [of "sN spec"] by (auto simp: unat_word_ariths word_less_nat_alt)
    then have "[unat i..<unat (sN spec)] = unat i # [unat (i + 1)..<unat (sN spec)]"
      by (simp add: upt_conv_Cons)
    with 1 True show ?thesis by (simp add: feed_from.simps [of spec skip _ i])
  next
    case False
    then show ?thesis by (simp add: feed_from.simps [of spec skip _ i] word_less_nat_alt)
  qed
qed

lemma feed_all: "feed spec skip (\<lambda>_. False) = map (feed_task spec) (filter (\<lambda>j. j \<notin> skip) (idxs (sN spec)))"
  by (simp add: feed_def feed_from_all idxs_def)

lemma feed_from_sub: "set (feed_from spec skip quit i) \<subseteq> feed_task spec ` {j. j < sN spec \<and> j \<notin> skip}"
proof (induction spec skip quit i rule: feed_from.induct)
  case (1 spec skip quit i)
  then show ?case by (subst feed_from.simps) auto
qed

lemma feed_sub: "set (feed spec skip quit) \<subseteq> feed_task spec ` {j. j < sN spec \<and> j \<notin> skip}"
  by (simp add: feed_def feed_from_sub)

lemma tID_feed_task [simp]: "tID (feed_task spec i) = TaskID (sId spec) i"
  by (simp add: feed_task_def Let_def)

lemma tMsg_feed_task [simp]: "tMsg (feed_task spec i) = sMsg spec"
  by (simp add: feed_task_def Let_def)

section \<open>The tasks' answers make up the job's answer\<close>

definition task_value :: "Workload \<Rightarrow> Task \<Rightarrow> Partial" where
  "task_value wl t = wlCompute wl (tMsg t) (tLo t) (tHi t)"

context splittable
begin

lemma tasks_value:
  assumes ok: "spec_ok spec"
  shows "acc_of (map (\<lambda>i. task_value wl (feed_task spec i)) (idxs (sN spec)))
    = wlCompute wl (sMsg spec) (sLo spec) (sHi spec)"
proof (cases "sHi spec \<le> sLo spec")
  case True
  with ok show ?thesis by (simp add: spec_ok_def idxs_def compute_empty)
next
  case False
  let ?n = "unat (sN spec)"
  let ?pt = "\<lambda>i. of_nat (cut_at spec i) :: u64"
  have c: "cut_at spec i < 2 ^ 64" for i
    using unat_bound [of "sHi spec"] by (simp add: cut_at_def min_less_iff_disj)
  then have un: "unat (?pt i) = cut_at spec i" for i
    by (simp add: unat_of_nat)
  have "task_value wl (feed_task spec (of_nat i)) = wlCompute wl (sMsg spec) (?pt i) (?pt (Suc i))" if "i < ?n" for i
  proof -
    have i: "unat (of_nat i :: u32) = i"
      using that unat_bound [of "sN spec"] by (simp add: unat_of_nat)
    then have "(of_nat i :: u32) < sN spec" using that by (simp add: word_less_nat_alt)
    note fb = feed_task_bounds(1,2) [OF ok this]
    have "tLo (feed_task spec (of_nat i)) = ?pt i" "tHi (feed_task spec (of_nat i)) = ?pt (Suc i)"
      using fb i un unfolding word_unat_eq_iff by simp_all
    then show ?thesis by (simp add: task_value_def)
  qed
  then have "acc_of (map (\<lambda>i. task_value wl (feed_task spec i)) (idxs (sN spec)))
      = acc_of (map (\<lambda>i. wlCompute wl (sMsg spec) (?pt i) (?pt (Suc i))) [0..<?n])"
    unfolding idxs_def map_map by (intro arg_cong [of _ _ acc_of] map_cong) auto
  also have "\<dots> = wlCompute wl (sMsg spec) (?pt 0) (?pt ?n)"
    by (rule compute_pieces) (simp add: word_le_nat_alt un cut_at_mono)
  finally show ?thesis
    using False cut_at_0 [of spec] cut_at_n [OF ok] by simp
qed

end

section \<open>Properties\<close>

text \<open>
  (C18) Splitting: for every non-zero chunk size \<^verbatim>\<open>split\<close> returns at most \<open>2 ^ 20\<close> chunks, and the
  tasks the feeder makes of them are non-empty, consecutive and cover exactly \<open>[lo, hi)\<close>,
  without wrap-around at 64 bits.
\<close>

theorem split_tiles:
  assumes "chunkSize \<noteq> 0" "lo < hi"
  shows "\<exists>n sz. split lo hi chunkSize = Ret (n, sz) \<and> 0 < n \<and> unat n \<le> 2 ^ 20 \<and>
    (let ts = feed (jobSpec job lo hi sz n msg) {} (\<lambda>_. False) in
      length ts = unat n \<and> tLo (ts ! 0) = lo \<and> tHi (ts ! (unat n - 1)) = hi \<and>
      (\<forall>i < unat n. tID (ts ! i) = TaskID job (of_nat i) \<and> tLo (ts ! i) < tHi (ts ! i)) \<and>
      (\<forall>i. Suc i < unat n \<longrightarrow> tHi (ts ! i) = tLo (ts ! Suc i)))"
proof -
  obtain n sz where s: "split lo hi chunkSize = Ret (n, sz)"
    using split_total [OF assms(1)] by blast
  let ?spec = "jobSpec job lo hi sz n msg"
  let ?ts = "feed ?spec {} (\<lambda>_. False)"
  have ok: "spec_ok ?spec" by (rule split_spec_ok [OF assms(1) s])
  then have n: "0 < unat n" "unat n \<le> 2 ^ 20"
    using assms(2) by (auto simp: spec_ok_def word_less_nat_alt word_le_nat_alt split: if_splits intro!: gr0I)
  have nth: "?ts ! i = feed_task ?spec (of_nat i)" if "i < unat n" for i
    using that by (simp add: feed_all idxs_def)
  have u: "unat (of_nat i :: u32) = i" "(of_nat i :: u32) < n" if "i < unat n" for i
    using that unat_bound [of n] by (simp_all add: unat_of_nat word_less_nat_alt)
  note fb = feed_task_bounds [OF ok, simplified, OF u(2), unfolded u(1)]
  have b: "unat (tLo (?ts ! i)) = cut_at ?spec i" "unat (tHi (?ts ! i)) = cut_at ?spec (Suc i)"
    "tLo (?ts ! i) < tHi (?ts ! i)" if "i < unat n" for i
    using fb(1,2,3) [OF that] by (simp_all add: nth [OF that] u(1) [OF that])
  have "tHi (?ts ! i) = tLo (?ts ! Suc i)" if "Suc i < unat n" for i
    using b(1) [OF that] b(2) [of i] that by (simp add: word_unat_eq_iff)
  moreover have "tLo (?ts ! 0) = lo" "tHi (?ts ! (unat n - 1)) = hi"
    using b(1) [of 0] b(2) [of "unat n - 1"] n assms(2) cut_at_0 [of ?spec] cut_at_n [OF ok]
    by (simp_all add: word_unat_eq_iff)
  ultimately show ?thesis
    using s n b(3) by (auto simp: Let_def feed_all idxs_def word_less_nat_alt intro!: exI [of _ n] exI [of _ sz])
qed

theorem split_tiles_witness:
  "\<exists>n sz. split 10 35 10 = Ret (n, sz) \<and> 0 < n \<and> unat n \<le> 2 ^ 20 \<and>
    (let ts = feed (jobSpec 1 10 35 sz n [104]) {} (\<lambda>_. False) in
      length ts = unat n \<and> tLo (ts ! 0) = 10 \<and> tHi (ts ! (unat n - 1)) = 35 \<and>
      (\<forall>i < unat n. tID (ts ! i) = TaskID 1 (of_nat i) \<and> tLo (ts ! i) < tHi (ts ! i)) \<and>
      (\<forall>i. Suc i < unat n \<longrightarrow> tHi (ts ! i) = tLo (ts ! Suc i)))"
  by (rule split_tiles) simp_all

text \<open>
  (C17) Split, compute, merge: merging the answers of all tasks of a job gives the answer of the
  whole job, in any order and with any repetition of tasks.
\<close>

theorem split_compute:
  assumes "chunkSize \<noteq> 0" "split lo hi chunkSize = Ret (n, sz)"
    and "set ts = set (feed (jobSpec job lo hi sz n msg) {} (\<lambda>_. False))"
  shows "foldl Merge Zero (map (\<lambda>t. Compute (tMsg t) (tLo t) (tHi t)) ts) = Compute msg lo hi"
proof -
  let ?spec = "jobSpec job lo hi sz n msg"
  have "foldl Merge Zero (map (task_value hashsearch) ts) =
      foldl Merge Zero (map (\<lambda>i. task_value hashsearch (feed_task ?spec i)) (idxs n))"
    using hs.acc_of_set [of "map (task_value hashsearch) ts" "map (\<lambda>i. task_value hashsearch (feed_task ?spec i)) (idxs n)"]
      assms(3) by (simp add: hashsearch_def feed_all image_image)
  moreover have "foldl Merge Zero (map (\<lambda>i. task_value hashsearch (feed_task ?spec i)) (idxs n)) = Compute msg lo hi"
    using hs.tasks_value [OF split_spec_ok [OF assms(1,2), of job msg]] by (simp add: hashsearch_def)
  ultimately show ?thesis by (simp add: task_value_def [abs_def] hashsearch_def)
qed

theorem split_compute_witness:
  "foldl Merge Zero (map (\<lambda>t. Compute (tMsg t) (tLo t) (tHi t)) [Task (TaskID 1 1) [104] 20 25, Task (TaskID 1 0) [104] 10 20])
   = Compute [104] 10 25"
proof (rule split_compute [of 10 10 25 2 10 _ 1])
  show "split 10 25 10 = Ret (2, 10)" by code_simp
  show "set [Task (TaskID 1 1) [104] 20 25, Task (TaskID 1 0) [104] 10 20] = set (feed (jobSpec 1 10 25 10 2 [104]) {} (\<lambda>_. False))"
    by code_simp
qed simp

end
