(* ===== verification/Worker.thy ===== *)
theory Worker
  imports Params Splitter "HOL-Library.Signed_Division"
begin

text \<open>
  The server-side proxy of a worker (\<^verbatim>\<open>sched/worker.go\<close>). \<^verbatim>\<open>workerLoop\<close> is a machine: at the top of
  the loop it looks at \<^verbatim>\<open>pq\<close> without waiting, then it blocks in its \<^verbatim>\<open>select\<close> with the cases
  \<^verbatim>\<open>pqCh\<close> and \<^verbatim>\<open>nqCh\<close> open or closed; after the connection is lost it hands its tasks back one by
  one, blocking while \<^verbatim>\<open>pq\<close> is full. The queues are arguments and results of the operations that
  use them; \<open>cap\<close> is the capacity of \<^verbatim>\<open>pq\<close>. Clock readings come as a sequence \<open>clk\<close>. The product
  \<^verbatim>\<open>StragglerFactor * float64(srtt)\<close> is taken over the rationals.
\<close>

section \<open>State\<close>

record entry =
  eTask :: Task
  eSentAt :: time
  eSpeculated :: bool

record WorkerStats =
  wsWorker :: int
  wsInflight :: nat
  wsSRTT :: duration
  wsSent :: u64
  wsResults :: u64
  wsDupResults :: u64
  wsSpeculated :: u64
  wsRequeued :: u64
  wsBusy :: duration
  wsAlive :: duration
  wsGone :: bool

text \<open>Where the goroutine is: \<open>AtSelect\<close> carries whether \<^verbatim>\<open>pqCh\<close> and \<^verbatim>\<open>nqCh\<close> are open.\<close>

datatype wphase = AtTop | AtSelect bool bool | HandingBack | Exited

record worker =
  wH :: int
  wResultCh :: "ChunkResult list"
  wDead :: bool
  wInflight :: "(TaskID, entry) gomap"
  wSrtt :: duration
  wHasSRTT :: bool
  wPqHold :: bool
  wStats :: WorkerStats
  wJoined :: time
  wLastAccount :: time
  wPhase :: wphase

text \<open>What leaves the goroutine.\<close>

datatype wact =
    WWrite int bytes
  | WOnSend int TaskID nat
  | WOnSpeculate int TaskID
  | WForward ChunkResult
  | WPublish WorkerStats

definition newWorker :: "time \<Rightarrow> int \<Rightarrow> worker" where
  "newWorker now h = \<lparr>wH = h, wResultCh = [], wDead = False, wInflight = [], wSrtt = 0, wHasSRTT = False,
     wPqHold = False, wStats = \<lparr>wsWorker = h, wsInflight = 0, wsSRTT = 0, wsSent = 0, wsResults = 0, wsDupResults = 0,
       wsSpeculated = 0, wsRequeued = 0, wsBusy = 0, wsAlive = 0, wsGone = False\<rparr>,
     wJoined = now, wLastAccount = now, wPhase = AtTop\<rparr>"

text \<open>The capacity of \<^verbatim>\<open>resultCh\<close>.\<close>

definition resultCap :: "nat \<Rightarrow> nat" where
  "resultCap window = 4 * window"

section \<open>The methods\<close>

definition account :: "time \<Rightarrow> worker \<Rightarrow> worker" where
  "account now w =
     (let st = wStats w;
          st' = (if length (wInflight w) > 0 then st\<lparr>wsBusy := wsBusy st + (now - wLastAccount w)\<rparr> else st)
      in w\<lparr>wStats := st', wLastAccount := now\<rparr>)"

definition updateSRTT :: "duration \<Rightarrow> worker \<Rightarrow> worker" where
  "updateSRTT sample w =
     (if \<not> wHasSRTT w then w\<lparr>wSrtt := sample, wHasSRTT := True\<rparr>
      else w\<lparr>wSrtt := (7 * wSrtt w + sample) sdiv 8\<rparr>)"

text \<open>A non-blocking push.\<close>

definition try_push :: "nat \<Rightarrow> Task list \<Rightarrow> Task \<Rightarrow> Task list \<times> bool" where
  "try_push cap q t = (if length q < cap then (q @ [t], True) else (q, False))"

definition send_task :: "nat \<Rightarrow> (nat \<Rightarrow> time) \<Rightarrow> worker \<Rightarrow> Task list \<Rightarrow> Task \<Rightarrow> (worker \<times> Task list \<times> wact list) go" where
  "send_task cap clk w pq t =
     (if mget (wInflight w) (tID t) \<noteq> None then Ret (w\<lparr>wPqHold := True\<rparr>, fst (try_push cap pq t), [])
      else
        let w1 = account (clk 0) w;
            w2 = w1\<lparr>wInflight := mput (wInflight w1) (tID t) \<lparr>eTask = t, eSentAt = clk 1, eSpeculated = False\<rparr>\<rparr>
        in go_bind (Encode (MChunk (Chunk (tID t) (tLo t) (tHi t) (tMsg t)))) (\<lambda>b.
             Ret (w2\<lparr>wStats := (wStats w2)\<lparr>wsSent := wsSent (wStats w2) + 1\<rparr>\<rparr>, pq,
               [WWrite (wH w) b, WOnSend (wH w) (tID t) (length (wInflight w2))])))"

definition threshold :: "schedParams \<Rightarrow> duration \<Rightarrow> duration" where
  "threshold p srtt =
     (let th = trunc_rat (StragglerFactor p * of_int srtt); flr = MinStragglerMs p * Millisecond
      in if th < flr then flr else th)"

definition spec_one :: "nat \<Rightarrow> time \<Rightarrow> duration \<Rightarrow> worker \<times> Task list \<times> wact list \<Rightarrow> TaskID \<times> entry \<Rightarrow> worker \<times> Task list \<times> wact list" where
  "spec_one cap now th x ie =
     (case x of (w, pq, acts) \<Rightarrow>
        let e = snd ie in
        if eSpeculated e \<or> now - eSentAt e \<le> th then (w, pq, acts)
        else case try_push cap pq (eTask e) of
          (pq', True) \<Rightarrow>
            (w\<lparr>wInflight := mput (wInflight w) (fst ie) (e\<lparr>eSpeculated := True\<rparr>),
               wStats := (wStats w)\<lparr>wsSpeculated := wsSpeculated (wStats w) + 1\<rparr>\<rparr>,
             pq', acts @ [WOnSpeculate (wH w) (fst ie)])
        | (_, False) \<Rightarrow> (w, pq, acts))"

definition speculate :: "schedParams \<Rightarrow> nat \<Rightarrow> time \<Rightarrow> worker \<Rightarrow> Task list \<Rightarrow> worker \<times> Task list \<times> wact list" where
  "speculate p cap now w pq =
     (if NoSpeculate p \<or> \<not> wHasSRTT w then (w, pq, [])
      else foldl (spec_one cap now (threshold p (wSrtt w))) (w, pq, []) (wInflight w))"

definition publishWorker :: "schedParams \<Rightarrow> (nat \<Rightarrow> time) \<Rightarrow> bool \<Rightarrow> bool \<Rightarrow> worker \<Rightarrow> worker \<times> wact list" where
  "publishWorker p clk chroom gone w =
     (if \<not> hasWorkerStats p then (w, [])
      else
        let w1 = account (clk 0) w;
            st = (wStats w1)\<lparr>wsInflight := length (wInflight w1), wsSRTT := wSrtt w1, wsAlive := clk 1 - wJoined w1, wsGone := gone\<rparr>
        in (w1, if chroom then [WPublish st] else []))"

section \<open>The loop\<close>

text \<open>The result case: the result is forwarded to the aggregator unless its task is not in flight.\<close>

definition worker_result :: "(nat \<Rightarrow> time) \<Rightarrow> ChunkResult \<Rightarrow> worker \<Rightarrow> worker \<times> wact list" where
  "worker_result clk r w =
     (case mget (wInflight w) (crID r) of
        None \<Rightarrow> (w\<lparr>wStats := (wStats w)\<lparr>wsDupResults := wsDupResults (wStats w) + 1\<rparr>\<rparr>, [])
      | Some e \<Rightarrow>
          let w1 = account (clk 0) w;
              w2 = w1\<lparr>wInflight := mdel (wInflight w1) (crID r), wStats := (wStats w1)\<lparr>wsResults := wsResults (wStats w1) + 1\<rparr>\<rparr>;
              w3 = (if \<not> eSpeculated e then updateSRTT (clk 1 - eSentAt e) w2 else w2)
          in (w3, [WForward r]))"

datatype wevent = WLook | WRecv | WPullPQ | WPullNQ | WTick | WDeath | WHandBack | WStop

text \<open>
  One step of \<^verbatim>\<open>workerLoop\<close> on the worker and the queues \<open>nq\<close> and \<open>pq\<close>; an event that cannot
  happen in this state changes nothing. \<open>stopped\<close> says that \<^verbatim>\<open>s.stop\<close> is closed.
\<close>

fun worker_step :: "schedParams \<Rightarrow> nat \<Rightarrow> nat \<Rightarrow> bool \<Rightarrow> (nat \<Rightarrow> time) \<Rightarrow> bool \<Rightarrow> wevent \<Rightarrow> worker \<Rightarrow> Task list \<Rightarrow> Task list \<Rightarrow>
    (worker \<times> Task list \<times> Task list \<times> wact list) go" where
  "worker_step p window cap stopped clk chroom WLook w nq pq =
     (if wPhase w \<noteq> AtTop then Ret (w, nq, pq, [])
      else if length (wInflight w) < window then
        (if \<not> wPqHold w then
           (case pq of
              [] \<Rightarrow> Ret (w\<lparr>wPhase := AtSelect True True\<rparr>, nq, pq, [])
            | t # pq' \<Rightarrow> go_bind (send_task cap clk w pq' t) (\<lambda>(w', pq'', acts). Ret (w', nq, pq'', acts)))
         else Ret (w\<lparr>wPhase := AtSelect False True\<rparr>, nq, pq, []))
      else Ret (w\<lparr>wPhase := AtSelect False False\<rparr>, nq, pq, []))"
| "worker_step p window cap stopped clk chroom WRecv w nq pq =
     (case (wPhase w, wResultCh w) of
        (AtSelect _ _, r # rs) \<Rightarrow>
          (case worker_result clk r (w\<lparr>wResultCh := rs\<rparr>) of (w', acts) \<Rightarrow> Ret (w'\<lparr>wPhase := AtTop\<rparr>, nq, pq, acts))
      | _ \<Rightarrow> Ret (w, nq, pq, []))"
| "worker_step p window cap stopped clk chroom WPullPQ w nq pq =
     (case (wPhase w, pq) of
        (AtSelect True _, t # pq') \<Rightarrow>
          go_bind (send_task cap clk w pq' t) (\<lambda>(w', pq'', acts). Ret (w'\<lparr>wPhase := AtTop\<rparr>, nq, pq'', acts))
      | _ \<Rightarrow> Ret (w, nq, pq, []))"
| "worker_step p window cap stopped clk chroom WPullNQ w nq pq =
     (case (wPhase w, nq) of
        (AtSelect _ True, t # nq') \<Rightarrow>
          go_bind (send_task cap clk w pq t) (\<lambda>(w', pq'', acts). Ret (w'\<lparr>wPhase := AtTop\<rparr>, nq', pq'', acts))
      | _ \<Rightarrow> Ret (w, nq, pq, []))"
| "worker_step p window cap stopped clk chroom WTick w nq pq =
     (case wPhase w of
        AtSelect _ _ \<Rightarrow>
          (case speculate p cap (clk 0) (w\<lparr>wPqHold := False\<rparr>) pq of (w1, pq', acts1) \<Rightarrow>
           case publishWorker p (\<lambda>i. clk (Suc i)) chroom False w1 of (w2, acts2) \<Rightarrow>
             Ret (w2\<lparr>wPhase := AtTop\<rparr>, nq, pq', acts1 @ acts2))
      | _ \<Rightarrow> Ret (w, nq, pq, []))"
| "worker_step p window cap stopped clk chroom WDeath w nq pq =
     (case wPhase w of
        AtSelect _ _ \<Rightarrow> if wDead w then Ret ((account (clk 0) w)\<lparr>wPhase := HandingBack\<rparr>, nq, pq, []) else Ret (w, nq, pq, [])
      | _ \<Rightarrow> Ret (w, nq, pq, []))"
| "worker_step p window cap stopped clk chroom WHandBack w nq pq =
     (if wPhase w \<noteq> HandingBack then Ret (w, nq, pq, [])
      else case wInflight w of
        [] \<Rightarrow> (case publishWorker p clk chroom True w of (w1, acts) \<Rightarrow> Ret (w1\<lparr>wPhase := Exited\<rparr>, nq, pq, acts))
      | (i, e) # _ \<Rightarrow>
          (case try_push cap pq (eTask e) of
             (pq', True) \<Rightarrow>
               Ret (w\<lparr>wInflight := mdel (wInflight w) i, wStats := (wStats w)\<lparr>wsRequeued := wsRequeued (wStats w) + 1\<rparr>\<rparr>, nq, pq', [])
           | (_, False) \<Rightarrow> Ret (w, nq, pq, [])))"
| "worker_step p window cap stopped clk chroom WStop w nq pq =
     (if stopped \<and> wPhase w \<noteq> AtTop then Ret (w\<lparr>wPhase := Exited\<rparr>, nq, pq, []) else Ret (w, nq, pq, []))"

section \<open>Invariant\<close>

definition task_ok :: "Task \<Rightarrow> bool" where
  "task_ok t \<longleftrightarrow> length (tMsg t) \<le> MaxMsgLen"

definition worker_ok :: "nat \<Rightarrow> worker \<Rightarrow> bool" where
  "worker_ok window w \<longleftrightarrow> mwf (wInflight w) \<and> length (wInflight w) \<le> window \<and>
     (\<forall>(i, e) \<in> set (wInflight w). tID (eTask e) = i \<and> task_ok (eTask e)) \<and>
     (\<forall>a. wPhase w = AtSelect a True \<longrightarrow> length (wInflight w) < window) \<and> (\<forall>b. wPhase w = AtSelect True b \<longrightarrow> b) \<and>
     length (wResultCh w) \<le> resultCap window"

text \<open>The tasks a worker holds, and the tasks around it.\<close>

definition held :: "worker \<Rightarrow> TaskID set" where
  "held w = (if wPhase w = Exited then {} else mkeys (wInflight w))"

definition tids :: "Task list \<Rightarrow> TaskID set" where
  "tids q = tID ` set q"

definition flight_tasks :: "worker \<Rightarrow> Task set" where
  "flight_tasks w = eTask ` snd ` set (wInflight w)"

lemma flight_mem: "(i, e) \<in> set (wInflight w) \<Longrightarrow> eTask e \<in> flight_tasks w"
  unfolding flight_tasks_def by force

fun forwarded :: "wact list \<Rightarrow> ChunkResult list" where
  "forwarded [] = []"
| "forwarded (WForward r # as) = r # forwarded as"
| "forwarded (_ # as) = forwarded as"

lemma forwarded_append [simp]: "forwarded (as @ bs) = forwarded as @ forwarded bs"
  by (induction as rule: forwarded.induct) simp_all

lemma tids_simps [simp]: "tids [] = {}" "tids (t # q) = insert (tID t) (tids q)" "tids (q @ r) = tids q \<union> tids r"
  by (auto simp: tids_def)

lemma account_simps [simp]:
  "wInflight (account now w) = wInflight w" "wH (account now w) = wH w" "wPhase (account now w) = wPhase w"
  "wResultCh (account now w) = wResultCh w" "wDead (account now w) = wDead w" "wPqHold (account now w) = wPqHold w"
  by (simp_all add: account_def Let_def)

lemma updateSRTT_simps [simp]:
  "wInflight (updateSRTT d w) = wInflight w" "wH (updateSRTT d w) = wH w" "wPhase (updateSRTT d w) = wPhase w"
  "wResultCh (updateSRTT d w) = wResultCh w" "wDead (updateSRTT d w) = wDead w"
  by (simp_all add: updateSRTT_def)

lemma publishWorker_simps:
  assumes "publishWorker p clk r g w = (w', acts)"
  shows "wInflight w' = wInflight w" "wPhase w' = wPhase w" "wResultCh w' = wResultCh w" "wDead w' = wDead w" "wH w' = wH w" "forwarded acts = []"
  using assms by (auto simp: publishWorker_def Let_def split: if_splits)

lemma Encode_chunk: "task_ok t \<Longrightarrow> \<exists>b. Encode (MChunk (Chunk (tID t) (tLo t) (tHi t) (tMsg t))) = Ret b"
  by (simp add: task_ok_def msgLen_def)

text \<open>Sending a task: it is in flight afterwards, or was so before; no other task moves.\<close>

lemma send_task_spec:
  assumes ok: "mwf (wInflight w)" "task_ok t"
  obtains w' pq' acts where "send_task cap clk w pq t = Ret (w', pq', acts)"
    "wPhase w' = wPhase w" "wResultCh w' = wResultCh w" "wDead w' = wDead w" "wH w' = wH w" "mwf (wInflight w')"
    "mkeys (wInflight w') = insert (tID t) (mkeys (wInflight w))"
    "\<forall>(i, e) \<in> set (wInflight w'). (i, e) \<in> set (wInflight w) \<or> i = tID t \<and> eTask e = t"
    "pq' = pq \<or> pq' = pq @ [t]" "length pq \<le> cap \<longrightarrow> length pq' \<le> cap" "forwarded acts = []"
proof (cases "mget (wInflight w) (tID t)")
  case (Some e)
  then have "mkeys (wInflight w) = insert (tID t) (mkeys (wInflight w))" using mget_Some_key by fastforce
  moreover have "fst (try_push cap pq t) = pq \<or> fst (try_push cap pq t) = pq @ [t]"
    "length pq \<le> cap \<longrightarrow> length (fst (try_push cap pq t)) \<le> cap" by (auto simp: try_push_def)
  ultimately show thesis
    using that [of "w\<lparr>wPqHold := True\<rparr>" "fst (try_push cap pq t)" "[]"] ok Some by (simp add: send_task_def split_beta)
next
  case None
  obtain b where b: "Encode (MChunk (Chunk (tID t) (tLo t) (tHi t) (tMsg t))) = Ret b" using Encode_chunk [OF ok(2)] by blast
  define w2 where "w2 = (account (clk 0) w)\<lparr>wInflight := mput (wInflight w) (tID t) \<lparr>eTask = t, eSentAt = clk 1, eSpeculated = False\<rparr>\<rparr>"
  have "send_task cap clk w pq t = Ret (w2\<lparr>wStats := (wStats w2)\<lparr>wsSent := wsSent (wStats w2) + 1\<rparr>\<rparr>, pq,
      [WWrite (wH w) b, WOnSend (wH w) (tID t) (length (wInflight w2))])"
    using None b by (simp add: send_task_def w2_def Let_def del: Encode.simps)
  then show thesis
    by (rule that) (use ok in \<open>auto simp: w2_def set_mput\<close>)
qed

lemma length_sent:
  assumes "send_task cap clk w pq t = Ret (w', pq', acts)" "mwf (wInflight w)"
  shows "length (wInflight w') \<le> Suc (length (wInflight w))"
  using assms by (auto simp: send_task_def length_mput go_bind_Ret_iff Let_def simp del: Encode.simps split: if_splits)

text \<open>Speculation pushes copies of tasks in flight and marks them; the tasks in flight stay.\<close>

lemma spec_fold:
  assumes "foldl (spec_one cap now th) (w, pq, acts) es = (w', pq', acts')" "mwf (wInflight w)"
    and "\<forall>(i, e) \<in> set es. i \<in> mkeys (wInflight w) \<and> Q i (eTask e)" "\<forall>(i, e) \<in> set (wInflight w). Q i (eTask e)"
  shows "mwf (wInflight w') \<and> mkeys (wInflight w') = mkeys (wInflight w) \<and> (\<forall>(i, e) \<in> set (wInflight w'). Q i (eTask e)) \<and>
    wPhase w' = wPhase w \<and> wResultCh w' = wResultCh w \<and> wDead w' = wDead w \<and> wH w' = wH w \<and>
    (\<exists>ts. pq' = pq @ ts \<and> set ts \<subseteq> eTask ` snd ` set es) \<and> (length pq \<le> cap \<longrightarrow> length pq' \<le> cap) \<and> forwarded acts' = forwarded acts"
  using assms
proof (induction es arbitrary: w pq acts)
  case Nil
  then show ?case by simp
next
  case (Cons ie es)
  obtain i e where ie: "ie = (i, e)" by (cases ie)
  obtain w1 pq1 acts1 where one: "spec_one cap now th (w, pq, acts) ie = (w1, pq1, acts1)" by (metis prod_cases3)
  have i: "i \<in> mkeys (wInflight w)" "Q i (eTask e)" using Cons.prems(3) ie by auto
  have 1: "mwf (wInflight w1)" "mkeys (wInflight w1) = mkeys (wInflight w)" "\<forall>(i, e) \<in> set (wInflight w1). Q i (eTask e)"
    "wPhase w1 = wPhase w" "wResultCh w1 = wResultCh w" "wDead w1 = wDead w" "wH w1 = wH w"
    "pq1 = pq \<or> pq1 = pq @ [eTask e]" "length pq \<le> cap \<longrightarrow> length pq1 \<le> cap" "forwarded acts1 = forwarded acts"
    using one i Cons.prems(2,4) ie
    by (auto simp: spec_one_def try_push_def set_mput Let_def insert_absorb split: if_splits)
  have rest: "foldl (spec_one cap now th) (w1, pq1, acts1) es = (w', pq', acts')" using Cons.prems(1) one by simp
  have "mwf (wInflight w') \<and> mkeys (wInflight w') = mkeys (wInflight w1) \<and> (\<forall>(i, e) \<in> set (wInflight w'). Q i (eTask e)) \<and>
    wPhase w' = wPhase w1 \<and> wResultCh w' = wResultCh w1 \<and> wDead w' = wDead w1 \<and> wH w' = wH w1 \<and>
    (\<exists>ts. pq' = pq1 @ ts \<and> set ts \<subseteq> eTask ` snd ` set es) \<and> (length pq1 \<le> cap \<longrightarrow> length pq' \<le> cap) \<and> forwarded acts' = forwarded acts1"
    using Cons.IH [OF rest 1(1) _ 1(3)] Cons.prems(3) 1(2) by auto
  with 1 ie show ?case by auto
qed

section \<open>A step keeps the tasks\<close>

definition step_ok :: "nat \<Rightarrow> nat \<Rightarrow> worker \<Rightarrow> Task list \<Rightarrow> Task list \<Rightarrow> worker \<Rightarrow> Task list \<Rightarrow> Task list \<Rightarrow> wact list \<Rightarrow> bool" where
  "step_ok window cap w nq pq w' nq' pq' acts \<longleftrightarrow> worker_ok window w' \<and> (nq' = nq \<or> nq' = tl nq) \<and> length pq' \<le> cap \<and>
     set pq' \<subseteq> set pq \<union> set nq \<union> flight_tasks w \<and> flight_tasks w' \<subseteq> set pq \<union> set nq \<union> flight_tasks w \<and>
     wDead w' = wDead w \<and> wH w' = wH w \<and>
     tids nq \<union> tids pq \<union> held w \<subseteq> tids nq' \<union> tids pq' \<union> held w' \<union> crID ` set (forwarded acts)"

lemma step_ok_same:
  assumes "worker_ok window w'" "length pq \<le> cap" "wInflight w' = wInflight w" "wDead w' = wDead w" "wH w' = wH w"
    "wPhase w' = Exited \<Longrightarrow> wPhase w = Exited \<or> wInflight w = []"
  shows "step_ok window cap w nq pq w' nq pq acts"
proof -
  have "held w \<subseteq> held w'" using assms(3,6) by (auto simp: held_def)
  moreover have "flight_tasks w' = flight_tasks w" using assms(3) by (simp add: flight_tasks_def)
  ultimately show ?thesis using assms(1,2,4,5) unfolding step_ok_def by blast
qed

lemma step_ok_send:
  assumes w: "worker_ok window w" "length (wInflight w) < window" "wPhase w \<noteq> Exited" and t: "task_ok t" and cap: "length pq \<le> cap"
    and src: "nq = nq' \<and> pq = t # pq0 \<or> nq = t # nq' \<and> pq = pq0"
  shows "\<exists>w' pq' acts. send_task cap clk w pq0 t = Ret (w', pq', acts) \<and> wPhase w' = wPhase w \<and> forwarded acts = [] \<and>
    step_ok window cap w nq pq (w'\<lparr>wPhase := AtTop\<rparr>) nq' pq' acts"
proof -
  have wf: "mwf (wInflight w)" using w(1) by (simp add: worker_ok_def)
  obtain w' pq' acts where s: "send_task cap clk w pq0 t = Ret (w', pq', acts)"
    and f: "wPhase w' = wPhase w" "wResultCh w' = wResultCh w" "wDead w' = wDead w" "wH w' = wH w" "mwf (wInflight w')"
    and k: "mkeys (wInflight w') = insert (tID t) (mkeys (wInflight w))"
    and e: "\<forall>(i, e) \<in> set (wInflight w'). (i, e) \<in> set (wInflight w) \<or> i = tID t \<and> eTask e = t"
    and q: "pq' = pq0 \<or> pq' = pq0 @ [t]" "length pq0 \<le> cap \<longrightarrow> length pq' \<le> cap" and fw: "forwarded acts = []"
    by (rule send_task_spec [OF wf t, of cap clk pq0])
  have len: "length (wInflight w') \<le> window" using length_sent [OF s wf] w(2) by simp
  have e': "(i, d) \<in> set (wInflight w) \<or> i = tID t \<and> eTask d = t" if "(i, d) \<in> set (wInflight w')" for i d
    using e that by blast
  have "tID (eTask d) = i \<and> task_ok (eTask d)" if "(i, d) \<in> set (wInflight w)" for i d
    using w(1) that unfolding worker_ok_def by blast
  then have "\<forall>(i, d) \<in> set (wInflight w'). tID (eTask d) = i \<and> task_ok (eTask d)"
    using e' t by blast
  moreover have "length (wResultCh w') \<le> resultCap window" using w(1) f(2) by (simp add: worker_ok_def)
  ultimately have ok: "worker_ok window (w'\<lparr>wPhase := AtTop\<rparr>)"
    using f(5) len unfolding worker_ok_def by simp
  have fl: "flight_tasks w' \<subseteq> insert t (flight_tasks w)"
  proof
    fix x
    assume "x \<in> flight_tasks w'"
    then obtain i d where "(i, d) \<in> set (wInflight w')" "x = eTask d" by (auto simp: flight_tasks_def)
    then show "x \<in> insert t (flight_tasks w)" using e' [of i d] flight_mem by blast
  qed
  have h: "held (w'\<lparr>wPhase := AtTop\<rparr>) = insert (tID t) (held w)" using k w(3) by (simp add: held_def)
  have fl': "flight_tasks (w'\<lparr>wPhase := AtTop\<rparr>) \<subseteq> insert t (flight_tasks w)" using fl by (simp add: flight_tasks_def)
  have sq: "set pq' \<subseteq> insert t (set pq0)" "tids pq0 \<subseteq> tids pq'" using q(1) by auto
  have "step_ok window cap w nq pq (w'\<lparr>wPhase := AtTop\<rparr>) nq' pq' acts"
    using src
  proof
    assume "nq = nq' \<and> pq = t # pq0"
    then show ?thesis using ok f(3,4) cap q(2) h fl' sq unfolding step_ok_def by simp blast
  next
    assume "nq = t # nq' \<and> pq = pq0"
    then show ?thesis using ok f(3,4) cap q(2) h fl' sq unfolding step_ok_def by simp blast
  qed
  with s f(1) fw show ?thesis by blast
qed

lemma worker_result_simps:
  assumes "worker_result clk r w = (w', acts)"
  shows "wInflight w' = (if mget (wInflight w) (crID r) = None then wInflight w else mdel (wInflight w) (crID r))"
    "wResultCh w' = wResultCh w" "wDead w' = wDead w" "wH w' = wH w"
    "forwarded acts = (if mget (wInflight w) (crID r) = None then [] else [r])"
  using assms by (cases "mget (wInflight w) (crID r)"; simp add: worker_result_def Let_def; force)+

lemma step_ok_result:
  assumes w: "worker_ok window w" "wResultCh w = r # rs" and cap: "length pq \<le> cap"
    and r: "worker_result clk r (w\<lparr>wResultCh := rs\<rparr>) = (w', acts)"
  shows "step_ok window cap w nq pq (w'\<lparr>wPhase := AtTop\<rparr>) nq pq acts"
proof -
  note f = worker_result_simps [OF r]
  have sub: "set (wInflight w') \<subseteq> set (wInflight w)" "length (wInflight w') \<le> length (wInflight w)" "mwf (wInflight w')"
    using f(1) w(1) length_mdel_le [of "wInflight w" "crID r"] by (auto simp: worker_ok_def set_mdel)
  then have ok: "worker_ok window (w'\<lparr>wPhase := AtTop\<rparr>)"
    using w f(2) by (auto simp: worker_ok_def)
  have fl: "flight_tasks (w'\<lparr>wPhase := AtTop\<rparr>) \<subseteq> flight_tasks w" using sub(1) by (auto simp: flight_tasks_def)
  have "held w \<subseteq> held (w'\<lparr>wPhase := AtTop\<rparr>) \<union> crID ` set (forwarded acts)"
    using f(1,5) by (auto simp: held_def)
  with ok fl f(3,4) cap show ?thesis unfolding step_ok_def by simp blast
qed

lemma step_ok_tick:
  assumes w: "worker_ok window w" "wPhase w \<noteq> Exited" and cap: "length pq \<le> cap"
    and s: "speculate p cap now (w\<lparr>wPqHold := False\<rparr>) pq = (w1, pq', acts1)" and pb: "publishWorker p clk room False w1 = (w2, acts2)"
  shows "step_ok window cap w nq pq (w2\<lparr>wPhase := AtTop\<rparr>) nq pq' (acts1 @ acts2)"
proof -
  let ?Q = "\<lambda>i t. tID t = i \<and> task_ok t \<and> t \<in> flight_tasks w"
  have wf: "mwf (wInflight w)" "\<forall>(i, e) \<in> set (wInflight w). ?Q i (eTask e)" "length (wInflight w) \<le> window"
    "length (wResultCh w) \<le> resultCap window"
    using w(1) flight_mem unfolding worker_ok_def by blast+
  have k: "\<forall>(i, e) \<in> set (wInflight w). i \<in> mkeys (wInflight w) \<and> ?Q i (eTask e)"
    using wf(2) by (force simp: mkeys_def)
  have "mwf (wInflight w1) \<and> mkeys (wInflight w1) = mkeys (wInflight w) \<and> (\<forall>(i, e) \<in> set (wInflight w1). ?Q i (eTask e)) \<and>
    wPhase w1 = wPhase w \<and> wResultCh w1 = wResultCh w \<and> wDead w1 = wDead w \<and> wH w1 = wH w \<and>
    (\<exists>ts. pq' = pq @ ts \<and> set ts \<subseteq> flight_tasks w) \<and> (length pq \<le> cap \<longrightarrow> length pq' \<le> cap) \<and> forwarded acts1 = []"
  proof (cases "NoSpeculate p \<or> \<not> wHasSRTT w")
    case True
    with s wf show ?thesis by (auto simp: speculate_def)
  next
    case False
    then have "foldl (spec_one cap now (threshold p (wSrtt w))) (w\<lparr>wPqHold := False\<rparr>, pq, []) (wInflight w) = (w1, pq', acts1)"
      using s by (simp add: speculate_def)
    from spec_fold [OF this, of ?Q] wf k show ?thesis by (auto simp: flight_tasks_def)
  qed
  then have 1: "mwf (wInflight w1)" "mkeys (wInflight w1) = mkeys (wInflight w)" "\<forall>(i, e) \<in> set (wInflight w1). ?Q i (eTask e)"
    "wResultCh w1 = wResultCh w" "wDead w1 = wDead w" "wH w1 = wH w" "length pq' \<le> cap" and
    ts: "\<exists>ts. pq' = pq @ ts \<and> set ts \<subseteq> flight_tasks w"
    using cap by auto
  note p = publishWorker_simps [OF pb]
  have "length (wInflight w1) = length (wInflight w)" using 1(1,2) wf(1) by (simp add: length_mwf)
  then have ok: "worker_ok window (w2\<lparr>wPhase := AtTop\<rparr>)"
    using 1 wf p by (auto simp: worker_ok_def)
  have "flight_tasks (w2\<lparr>wPhase := AtTop\<rparr>) \<subseteq> flight_tasks w" using 1(3) p by (auto simp: flight_tasks_def)
  moreover have "held w \<subseteq> held (w2\<lparr>wPhase := AtTop\<rparr>)" using 1(2) p by (auto simp: held_def)
  moreover have "set pq' \<subseteq> set pq \<union> flight_tasks w" "tids pq \<subseteq> tids pq'" using ts by auto
  ultimately show ?thesis using ok 1(5-7) p unfolding step_ok_def by simp blast
qed

lemma worker_ok_phase:
  assumes "worker_ok window w" "\<And>b. ph = AtSelect True b \<Longrightarrow> b" "\<And>a. ph = AtSelect a True \<Longrightarrow> length (wInflight w) < window"
  shows "worker_ok window (w\<lparr>wPhase := ph\<rparr>)"
  using assms by (auto simp: worker_ok_def)

lemma worker_ok_account: "worker_ok window (account now w) = worker_ok window w"
  by (simp add: worker_ok_def)

text \<open>
  Every step of a worker but the final stop returns, keeps the invariant, and keeps every task:
  in a queue, in flight, or handed to the aggregator as a result.
\<close>

lemma worker_step_look:
  assumes w: "worker_ok window w" and cap: "length pq \<le> cap" and q: "\<forall>t \<in> set pq. task_ok t"
  shows "\<exists>w' nq' pq' acts. worker_step p window cap st clk room WLook w nq pq = Ret (w', nq', pq', acts) \<and>
    forwarded acts = [] \<and> step_ok window cap w nq pq w' nq' pq' acts"
proof (cases "wPhase w = AtTop \<and> length (wInflight w) < window \<and> \<not> wPqHold w \<and> pq \<noteq> []")
  case True
  then obtain t pq0 where pq: "pq = t # pq0" by (cases pq) auto
  obtain w' pq' acts where s: "send_task cap clk w pq0 t = Ret (w', pq', acts)" "wPhase w' = wPhase w" "forwarded acts = []"
    "step_ok window cap w nq pq (w'\<lparr>wPhase := AtTop\<rparr>) nq pq' acts"
    using step_ok_send [OF w, of t pq cap nq nq pq0 clk] True q cap pq by auto
  have "w'\<lparr>wPhase := AtTop\<rparr> = w'" using s(2) True by simp
  with s True pq show ?thesis by auto
next
  case False
  have ph: "worker_ok window (w\<lparr>wPhase := AtSelect True True\<rparr>)" "worker_ok window (w\<lparr>wPhase := AtSelect False True\<rparr>)"
    if "length (wInflight w) < window" using w that by (auto intro!: worker_ok_phase)
  have "worker_ok window (w\<lparr>wPhase := AtSelect False False\<rparr>)" using w by (auto intro!: worker_ok_phase)
  with False ph w cap show ?thesis
    by (cases "wPhase w = AtTop"; cases pq) (auto intro!: step_ok_same)
qed

lemma worker_step_pull:
  assumes w: "worker_ok window w" and cap: "length pq \<le> cap" and q: "\<forall>t \<in> set pq. task_ok t" "\<forall>t \<in> set nq. task_ok t"
    and ev: "ev = WPullPQ \<or> ev = WPullNQ"
  shows "\<exists>w' nq' pq' acts. worker_step p window cap st clk room ev w nq pq = Ret (w', nq', pq', acts) \<and>
    forwarded acts = [] \<and> step_ok window cap w nq pq w' nq' pq' acts"
proof -
  have idle: "step_ok window cap w nq pq w nq pq []" using w cap by (intro step_ok_same) simp_all
  have send: "\<exists>w' nq'' pq' acts. go_bind (send_task cap clk w pq0 t) (\<lambda>(w', pq'', acts). Ret (w'\<lparr>wPhase := AtTop\<rparr>, nq', pq'', acts)) =
      Ret (w', nq'', pq', acts) \<and> forwarded acts = [] \<and> step_ok window cap w nq pq w' nq'' pq' acts"
    if src: "nq = nq' \<and> pq = t # pq0 \<or> nq = t # nq' \<and> pq = pq0" and ph: "wPhase w = AtSelect a True" for t nq' pq0 a
  proof -
    have "length (wInflight w) < window" "wPhase w \<noteq> Exited" "task_ok t" using w src ph q by (auto simp: worker_ok_def)
    then obtain w' pq' acts where "send_task cap clk w pq0 t = Ret (w', pq', acts)" "forwarded acts = []"
      "step_ok window cap w nq pq (w'\<lparr>wPhase := AtTop\<rparr>) nq' pq' acts"
      using step_ok_send [OF w, of t pq cap nq nq' pq0 clk] cap src by blast
    then show ?thesis by auto
  qed
  have b: "b" if "wPhase w = AtSelect True b" for b using w that by (auto simp: worker_ok_def)
  show ?thesis
  proof (cases "wPhase w")
    case (AtSelect a b)
    from ev show ?thesis
    proof
      assume "ev = WPullPQ"
      then show ?thesis using AtSelect idle send [of nq _ _ a] b by (cases pq; cases a) auto
    next
      assume "ev = WPullNQ"
      then show ?thesis using AtSelect idle send [of _ _ pq a] by (cases nq; cases b) auto
    qed
  qed (use ev idle in auto)
qed

lemma worker_step_recv:
  assumes w: "worker_ok window w" and cap: "length pq \<le> cap"
  shows "\<exists>w' nq' pq' acts. worker_step p window cap st clk room WRecv w nq pq = Ret (w', nq', pq', acts) \<and>
    step_ok window cap w nq pq w' nq' pq' acts"
proof (cases "\<exists>a b r rs. wPhase w = AtSelect a b \<and> wResultCh w = r # rs")
  case True
  then obtain a b r rs where ph: "wPhase w = AtSelect a b" and rs: "wResultCh w = r # rs" by blast
  obtain w' acts where r: "worker_result clk r (w\<lparr>wResultCh := rs\<rparr>) = (w', acts)" by fastforce
  with step_ok_result [OF w rs cap r] ph rs show ?thesis by simp
next
  case False
  then have "worker_step p window cap st clk room WRecv w nq pq = Ret (w, nq, pq, [])"
    by (cases "wPhase w"; cases "wResultCh w") simp_all
  moreover have "step_ok window cap w nq pq w nq pq []" using w cap by (intro step_ok_same) simp_all
  ultimately show ?thesis by blast
qed

lemma worker_step_tick:
  assumes w: "worker_ok window w" and cap: "length pq \<le> cap"
  shows "\<exists>w' nq' pq' acts. worker_step p window cap st clk room WTick w nq pq = Ret (w', nq', pq', acts) \<and>
    step_ok window cap w nq pq w' nq' pq' acts"
proof (cases "wPhase w")
  case (AtSelect a b)
  obtain w1 pq1 acts1 where s: "speculate p cap (clk 0) (w\<lparr>wPqHold := False\<rparr>) pq = (w1, pq1, acts1)" by (metis prod_cases3)
  obtain w2 acts2 where pb: "publishWorker p (\<lambda>i. clk (Suc i)) room False w1 = (w2, acts2)" by fastforce
  have "wPhase w \<noteq> Exited" using AtSelect by simp
  from step_ok_tick [OF w this cap s pb] AtSelect s pb show ?thesis by auto
qed (use step_ok_same [OF w cap] in auto)

lemma worker_step_death:
  assumes w: "worker_ok window w" and cap: "length pq \<le> cap"
  shows "\<exists>w' nq' pq' acts. worker_step p window cap st clk room WDeath w nq pq = Ret (w', nq', pq', acts) \<and>
    step_ok window cap w nq pq w' nq' pq' acts"
proof -
  have "worker_ok window ((account (clk 0) w)\<lparr>wPhase := HandingBack\<rparr>)"
    using w by (intro worker_ok_phase) (simp_all add: worker_ok_account)
  then have "step_ok window cap w nq pq ((account (clk 0) w)\<lparr>wPhase := HandingBack\<rparr>) nq pq []"
    using cap by (rule step_ok_same) simp_all
  moreover have "step_ok window cap w nq pq w nq pq []" using w cap by (intro step_ok_same) simp_all
  ultimately show ?thesis by (cases "wPhase w") auto
qed

lemma step_ok_handback:
  assumes w: "worker_ok window w" "wInflight w = (i, e) # es" "wPhase w = HandingBack" and cap: "length pq < cap"
    and w': "w' = w\<lparr>wInflight := mdel (wInflight w) i, wStats := st\<rparr>"
  shows "step_ok window cap w nq pq w' nq (pq @ [eTask e]) []"
proof -
  have id: "tID (eTask e) = i" "eTask e \<in> flight_tasks w" using w(1,2) flight_mem [of i e w] by (auto simp: worker_ok_def)
  have sub: "set (wInflight w') \<subseteq> set (wInflight w)" "length (wInflight w') \<le> length (wInflight w)" "mwf (wInflight w')"
    using w(1) length_mdel_le [of "wInflight w" i] by (auto simp: w' worker_ok_def set_mdel)
  then have ok: "worker_ok window w'" using w(1,3) by (auto simp: w' worker_ok_def)
  have fl: "flight_tasks w' \<subseteq> flight_tasks w" using sub(1) by (auto simp: flight_tasks_def)
  have "held w \<subseteq> insert i (held w')" by (auto simp: held_def w')
  with ok fl id cap show ?thesis unfolding step_ok_def by (simp add: w') blast
qed

lemma worker_step_handback:
  assumes w: "worker_ok window w" and cap: "length pq \<le> cap"
  shows "\<exists>w' nq' pq' acts. worker_step p window cap st clk room WHandBack w nq pq = Ret (w', nq', pq', acts) \<and>
    step_ok window cap w nq pq w' nq' pq' acts"
proof (cases "wPhase w = HandingBack")
  case True
  show ?thesis
  proof (cases "wInflight w")
    case Nil
    obtain w1 acts where pb: "publishWorker p clk room True w = (w1, acts)" by fastforce
    note f = publishWorker_simps [OF pb]
    have "worker_ok window (w1\<lparr>wPhase := Exited\<rparr>)" using w f by (simp add: worker_ok_def)
    then have "step_ok window cap w nq pq (w1\<lparr>wPhase := Exited\<rparr>) nq pq acts"
      using cap by (rule step_ok_same) (simp_all add: f Nil)
    then show ?thesis using True Nil pb by simp
  next
    case (Cons ie es)
    obtain i e where ie: "ie = (i, e)" by (cases ie)
    show ?thesis
    proof (cases "length pq < cap")
      case room: True
      show ?thesis using step_ok_handback [OF w Cons [unfolded ie] True room refl] True Cons ie room
        by (simp add: try_push_def)
    next
      case False
      have "step_ok window cap w nq pq w nq pq []" using w cap by (intro step_ok_same) simp_all
      then show ?thesis using True Cons ie False by (simp add: try_push_def)
    qed
  qed
next
  case False
  have "step_ok window cap w nq pq w nq pq []" using w cap by (intro step_ok_same) simp_all
  then show ?thesis using False by simp
qed

lemma worker_step_ok:
  assumes w: "worker_ok window w" and cap: "length pq \<le> cap" and q: "\<forall>t \<in> set pq. task_ok t" "\<forall>t \<in> set nq. task_ok t"
    and ev: "ev \<noteq> WStop"
  shows "\<exists>w' nq' pq' acts. worker_step p window cap st clk room ev w nq pq = Ret (w', nq', pq', acts) \<and>
    step_ok window cap w nq pq w' nq' pq' acts"
proof (cases ev)
  case WLook
  with worker_step_look [OF w cap q(1)] show ?thesis by blast
next
  case WPullPQ
  with worker_step_pull [OF w cap q] show ?thesis by blast
next
  case WPullNQ
  with worker_step_pull [OF w cap q] show ?thesis by blast
next
  case WRecv
  with worker_step_recv [OF w cap] show ?thesis by (simp del: worker_step.simps)
next
  case WTick
  with worker_step_tick [OF w cap] show ?thesis by (simp del: worker_step.simps)
next
  case WDeath
  with worker_step_death [OF w cap] show ?thesis by (simp del: worker_step.simps)
next
  case WHandBack
  with worker_step_handback [OF w cap] show ?thesis by (simp del: worker_step.simps)
next
  case WStop
  with ev show ?thesis by simp
qed

lemma newWorker_ok: "worker_ok window (newWorker now h)"
  by (simp add: worker_ok_def newWorker_def)

end
