(* ===== verification/Wal.thy ===== *)
theory Wal
  imports Codec
begin

text \<open>
  Package \<^verbatim>\<open>wal\<close> (\<^verbatim>\<open>wal/wal.go\<close>): records, their encoding, the framed file and the
  operations of an open log. \<open>ChecksumIEEE\<close> is the CRC-32 of \<^verbatim>\<open>hash/crc32\<close>.

  The operating system enters through the outcome of each call. A buffered write may push any
  number of bytes to the file (\<^verbatim>\<open>bufio\<close> flushes when it likes), or fail after some of them;
  the other calls succeed or fail. Every theorem holds for all outcomes.
\<close>

unbundle bit_operations_syntax

section \<open>Records\<close>

datatype Record =
    JobStart (jsJob: u64) (jsLo: u64) (jsHi: u64) (jsSize: u64) (jsN: u32) (jsMsg: gostring)
  | ChunkDone (cdJob: u64) (cdIdx: u32) (cdHash: u64) (cdNonce: u64)
  | JobDone (jdJob: u64) (jdHash: u64) (jdNonce: u64)
  | JobDrop (jpJob: u64)

definition frameHeader :: nat where "frameHeader = 8"
definition maxBody :: nat where "maxBody = 65536"

fun rec_typ :: "Record \<Rightarrow> u8" where
  "rec_typ (JobStart _ _ _ _ _ _) = 1"
| "rec_typ (ChunkDone _ _ _ _) = 2"
| "rec_typ (JobDone _ _ _) = 3"
| "rec_typ (JobDrop _) = 4"

fun encode :: "Record \<Rightarrow> bytes" where
  "encode (JobStart job lo hi sz n msg) =
     [rec_typ (JobStart job lo hi sz n msg)] @ PutUint64 job @ PutUint64 lo @ PutUint64 hi
       @ PutUint64 sz @ PutUint32 n @ PutUint16 (of_nat (length msg)) @ msg"
| "encode (ChunkDone job idx hash nonce) =
     [rec_typ (ChunkDone job idx hash nonce)] @ PutUint64 job @ PutUint32 idx @ PutUint64 hash @ PutUint64 nonce"
| "encode (JobDone job hash nonce) =
     [rec_typ (JobDone job hash nonce)] @ PutUint64 job @ PutUint64 hash @ PutUint64 nonce"
| "encode (JobDrop job) = [rec_typ (JobDrop job)] @ PutUint64 job"

definition decode :: "bytes \<Rightarrow> Record option go" where
  "decode b =
     (if b = [] then Panic
      else if b ! 0 = 1 then
        (if length b < 39 then Ret None
         else go_bind (Uint16 (drop 37 b)) (\<lambda>m.
           if length b \<noteq> 39 + unat m then Ret None
           else go_bind (Uint64 (drop 1 b)) (\<lambda>job.
                go_bind (Uint64 (drop 9 b)) (\<lambda>lo.
                go_bind (Uint64 (drop 17 b)) (\<lambda>hi.
                go_bind (Uint64 (drop 25 b)) (\<lambda>sz.
                go_bind (Uint32 (drop 33 b)) (\<lambda>n.
                  Ret (Some (JobStart job lo hi sz n (drop 39 b))))))))))
      else if b ! 0 = 2 then
        (if length b \<noteq> 29 then Ret None
         else go_bind (Uint64 (drop 1 b)) (\<lambda>job.
              go_bind (Uint32 (drop 9 b)) (\<lambda>idx.
              go_bind (Uint64 (drop 13 b)) (\<lambda>hash.
              go_bind (Uint64 (drop 21 b)) (\<lambda>nonce.
                Ret (Some (ChunkDone job idx hash nonce)))))))
      else if b ! 0 = 3 then
        (if length b \<noteq> 25 then Ret None
         else go_bind (Uint64 (drop 1 b)) (\<lambda>job.
              go_bind (Uint64 (drop 9 b)) (\<lambda>hash.
              go_bind (Uint64 (drop 17 b)) (\<lambda>nonce.
                Ret (Some (JobDone job hash nonce))))))
      else if b ! 0 = 4 then
        (if length b \<noteq> 9 then Ret None
         else go_bind (Uint64 (drop 1 b)) (\<lambda>job. Ret (Some (JobDrop job))))
      else Ret None)"

section \<open>Frames\<close>

text \<open>CRC-32 with the reflected IEEE polynomial, bit by bit.\<close>

definition crc_bit :: "u32 \<Rightarrow> u32" where
  "crc_bit c = (if c AND 1 = 1 then drop_bit 1 c XOR 0xEDB88320 else drop_bit 1 c)"

definition crc_byte :: "u32 \<Rightarrow> u8 \<Rightarrow> u32" where
  "crc_byte c b = (crc_bit ^^ 8) (c XOR ucast b)"

definition ChecksumIEEE :: "bytes \<Rightarrow> u32" where
  "ChecksumIEEE bs = NOT (foldl crc_byte 0xFFFFFFFF bs)"

definition frame :: "Record \<Rightarrow> bytes" where
  "frame r = (let body = encode r in
     PutUint32 (of_nat (length body)) @ PutUint32 (ChecksumIEEE body) @ body)"

text \<open>
  One turn of the loop of \<^verbatim>\<open>readAll\<close>: the record and the length of its body, or \<open>None\<close> where
  the loop stops. \<^verbatim>\<open>io.ReadFull\<close> fails when the stream is too short.
\<close>

definition readFrame :: "bytes \<Rightarrow> (Record \<times> nat) option go" where
  "readFrame s =
     (if length s < frameHeader then Ret None
      else let head = take frameHeader s in
        go_bind (Uint32 (take 4 head)) (\<lambda>v. let n = unat v in
          if n = 0 \<or> n > maxBody then Ret None
          else if length (drop frameHeader s) < n then Ret None
          else let body = take n (drop frameHeader s) in
            go_bind (Uint32 (take 4 (drop 4 head))) (\<lambda>c.
              if ChecksumIEEE body \<noteq> c then Ret None
              else go_bind (decode body) (\<lambda>d. case d of
                None \<Rightarrow> Ret None
              | Some r \<Rightarrow> Ret (Some (r, n))))))"

lemma readFrame_bound:
  assumes "readFrame s = Ret (Some (r, n))"
  shows "frameHeader + n \<le> length s"
proof -
  from assms have "\<not> length s < frameHeader"
    by (auto simp: readFrame_def)
  moreover from this assms have "\<not> length (drop frameHeader s) < n"
    unfolding readFrame_def Let_def
    by (simp add: go_bind_Ret_iff split: if_split_asm option.split_asm) blast+
  ultimately show ?thesis by simp
qed

function readAll :: "bytes \<Rightarrow> (Record list \<times> nat) go" where
  "readAll s = (case readFrame s of
     Panic \<Rightarrow> Panic
   | Ret None \<Rightarrow> Ret ([], 0)
   | Ret (Some (r, n)) \<Rightarrow>
       go_bind (readAll (drop (frameHeader + n) s)) (\<lambda>(recs, good).
         Ret (r # recs, frameHeader + n + good)))"
  by pat_completeness auto
termination
proof (relation "measure length")
  fix s :: bytes and x y r n
  assume "readFrame s = Ret y" "y = Some x" "(r, n) = x"
  then have "frameHeader + n \<le> length s" "frameHeader > 0"
    using readFrame_bound [of s r n] by (simp_all add: frameHeader_def)
  then show "(drop (frameHeader + n) s, s) \<in> measure length"
    by simp
qed simp

declare readAll.simps [simp del]

section \<open>The record codec\<close>

definition rec_ok :: "Record \<Rightarrow> bool" where
  "rec_ok r = (case r of JobStart _ _ _ _ _ msg \<Rightarrow> length msg < 65536 | _ \<Rightarrow> True)"

lemma encode_nonempty [simp]: "encode r \<noteq> []"
  by (cases r) auto

lemma length_encode:
  "length (encode r) = (case r of JobStart _ _ _ _ _ msg \<Rightarrow> 39 + length msg
     | ChunkDone _ _ _ _ \<Rightarrow> 29 | JobDone _ _ _ \<Rightarrow> 25 | JobDrop _ \<Rightarrow> 9)"
  by (cases r) auto

lemma decode_total: "b \<noteq> [] \<Longrightarrow> \<exists>r. decode b = Ret r"
proof (cases "b ! 0 = 1 \<and> 39 \<le> length b")
  case True
  then obtain m where "Uint16 (drop 37 b) = Ret m"
    using Uint_returns(1) [of "drop 37 b"] by fastforce
  moreover assume "b \<noteq> []"
  ultimately show ?thesis
    using True by (cases "length b = 39 + unat m") (simp_all add: decode_def Uint64_def Uint32_def)
qed (auto simp: decode_def Uint64_def Uint32_def)

lemma decode_encode:
  assumes "rec_ok r"
  shows "decode (encode r) = Ret (Some r)"
proof (cases r)
  case (JobStart job lo hi sz n msg)
  with assms have "unat (of_nat (length msg) :: u16) = length msg"
    by (simp add: rec_ok_def unat_of_nat)
  with JobStart show ?thesis
    by (simp add: decode_def codec_simps)
next
  case (ChunkDone job idx hash nonce)
  then show ?thesis
    using Uint64_Put [of nonce "[]"] by (simp add: decode_def codec_simps)
next
  case (JobDone job hash nonce)
  then show ?thesis
    using Uint64_Put [of nonce "[]"] by (simp add: decode_def codec_simps)
next
  case (JobDrop job)
  then show ?thesis
    using Uint64_Put [of job "[]"] by (simp add: decode_def)
qed

lemma decode_start:
  assumes b: "b ! 0 = 1" and d: "decode b = Ret (Some r)"
  shows "rec_ok r \<and> encode r = b"
proof -
  from b d obtain m job lo hi sz n where len: "length b = 39 + unat m" and m: "Uint16 (drop 37 b) = Ret m"
    and f: "Uint64 (drop 1 b) = Ret job" "Uint64 (drop 9 b) = Ret lo" "Uint64 (drop 17 b) = Ret hi"
      "Uint64 (drop 25 b) = Ret sz"
    and n: "Uint32 (drop 33 b) = Ret n" and r: "r = JobStart job lo hi sz n (drop 39 b)" and ne: "b \<noteq> []"
    by (auto simp: decode_def go_bind_Ret_iff split: if_splits)
  have msg: "length (drop 39 b) = unat m" using len by simp
  then have ok: "rec_ok r"
    using unat_bound [of m] by (simp add: r rec_ok_def)
  have "PutUint16 (of_nat (length (drop 39 b))) = take 2 (drop 37 b)"
    using Put_Uint16 [OF m] msg by simp
  then have "encode r = b"
    using b ne f [THEN Put_Uint64] Put_Uint32 [OF n]
    by (simp add: r take_drop_join nth_drop_join)
  with ok show ?thesis by simp
qed

lemma decode_chunk:
  assumes b: "b ! 0 = 2" and d: "decode b = Ret (Some r)"
  shows "rec_ok r \<and> encode r = b"
proof -
  from b d obtain job idx hash nonce where len: "length b = 29"
    and f: "Uint64 (drop 1 b) = Ret job" "Uint64 (drop 13 b) = Ret hash" "Uint64 (drop 21 b) = Ret nonce"
    and i: "Uint32 (drop 9 b) = Ret idx" and r: "r = ChunkDone job idx hash nonce" and ne: "b \<noteq> []"
    by (auto simp: decode_def go_bind_Ret_iff split: if_splits)
  then show ?thesis
    using b ne f [THEN Put_Uint64] Put_Uint32 [OF i] len
    by (simp add: r rec_ok_def take_drop_join take_drop_last nth_drop_join)
qed

lemma decode_done:
  assumes b: "b ! 0 = 3" and d: "decode b = Ret (Some r)"
  shows "rec_ok r \<and> encode r = b"
proof -
  from b d obtain job hash nonce where len: "length b = 25"
    and f: "Uint64 (drop 1 b) = Ret job" "Uint64 (drop 9 b) = Ret hash" "Uint64 (drop 17 b) = Ret nonce"
    and r: "r = JobDone job hash nonce" and ne: "b \<noteq> []"
    by (auto simp: decode_def go_bind_Ret_iff split: if_splits)
  then show ?thesis
    using b ne f [THEN Put_Uint64] len
    by (simp add: r rec_ok_def take_drop_join take_drop_last nth_drop_join)
qed

lemma decode_drop:
  assumes b: "b ! 0 = 4" and d: "decode b = Ret (Some r)"
  shows "rec_ok r \<and> encode r = b"
proof -
  from b d obtain job where len: "length b = 9"
    and f: "Uint64 (drop 1 b) = Ret job" and r: "r = JobDrop job" and ne: "b \<noteq> []"
    by (auto simp: decode_def go_bind_Ret_iff split: if_splits)
  then show ?thesis
    using b ne Put_Uint64 [OF f] len
    by (simp add: r rec_ok_def take_drop_last nth_drop_join)
qed

lemma encode_decode:
  assumes "decode b = Ret (Some r)"
  shows "rec_ok r \<and> encode r = b"
proof -
  from assms consider "b ! 0 = 1" | "b ! 0 = 2" | "b ! 0 = 3" | "b ! 0 = 4"
    by (auto simp: decode_def split: if_splits)
  then show ?thesis
    using assms decode_start decode_chunk decode_done decode_drop by cases blast+
qed

definition wal_dec :: "bytes \<Rightarrow> Record option" where
  "wal_dec b = (case decode b of Ret r \<Rightarrow> r | Panic \<Rightarrow> None)"

lemma wal_dec_Some: "wal_dec b = Some r \<longleftrightarrow> decode b = Ret (Some r)"
  by (auto simp: wal_dec_def split: go.splits)

interpretation walc: codec "\<lambda>r. Some (encode r)" wal_dec rec_ok
  by unfold_locales (auto simp: wal_dec_Some decode_encode dest: encode_decode)

section \<open>Reading the file\<close>

text \<open>A record the log can hold: it fits the length field of its string and of its frame.\<close>

definition rec_fits :: "Record \<Rightarrow> bool" where
  "rec_fits r \<longleftrightarrow> rec_ok r \<and> length (encode r) \<le> maxBody"

lemma rec_fits_iff:
  "rec_fits r \<longleftrightarrow> (case r of JobStart _ _ _ _ _ msg \<Rightarrow> length msg \<le> 65497 | _ \<Rightarrow> True)"
  by (cases r) (auto simp: rec_fits_def rec_ok_def length_encode maxBody_def)

lemma length_frame [simp]: "length (frame r) = frameHeader + length (encode r)"
  by (simp add: frame_def frameHeader_def Let_def)

lemma readFrame_total: "\<exists>x. readFrame s = Ret x"
proof (cases "length s < frameHeader")
  case True
  then show ?thesis by (simp add: readFrame_def)
next
  case False
  define v c where "v = (of_nat (be_to_nat (take 4 s)) :: u32)" and "c = (of_nat (be_to_nat (take 4 (drop 4 s))) :: u32)"
  have v: "Uint32 (take 4 (take frameHeader s)) = Ret v" and c: "Uint32 (take 4 (drop 4 (take frameHeader s))) = Ret c"
    using False by (simp_all add: Uint32_def frameHeader_def v_def c_def drop_take)
  let ?body = "take (unat v) (drop frameHeader s)"
  show ?thesis
  proof (cases "unat v = 0 \<or> unat v > maxBody \<or> length (drop frameHeader s) < unat v")
    case True
    with False show ?thesis by (auto simp: readFrame_def Let_def v simp del: take_take)
  next
    case bounds: False
    then have "?body \<noteq> []"
      by (auto simp del: length_drop)
    then obtain d where "decode ?body = Ret d"
      using decode_total by blast
    with False bounds show ?thesis
      by (cases "ChecksumIEEE ?body = c"; cases d)
        (simp_all add: readFrame_def Let_def v c del: length_drop take_take)
  qed
qed

lemma readAll_total: "\<exists>x. readAll s = Ret x"
proof (induction s rule: readAll.induct)
  case (1 s)
  show ?case
  proof (cases "readFrame s")
    case (Ret x)
    show ?thesis
    proof (cases x)
      case None
      with Ret show ?thesis by (simp add: readAll.simps [of s])
    next
      case (Some rn)
      obtain r n where rn: "rn = (r, n)" by (cases rn)
      with Ret Some obtain y where "readAll (drop (frameHeader + n) s) = Ret y"
        using "1.IH" by blast
      with Ret Some rn show ?thesis by (cases y) (simp add: readAll.simps [of s])
    qed
  next
    case Panic
    then show ?thesis using readFrame_total [of s] by simp
  qed
qed

lemma readFrame_frame:
  assumes "rec_fits r"
  shows "readFrame (frame r @ rest) = Ret (Some (r, length (encode r)))"
proof -
  let ?b = "encode r"
  have len: "unat (of_nat (length ?b) :: u32) = length ?b"
    using assms by (simp add: rec_fits_def maxBody_def unat_of_nat)
  have u: "Uint32 (PutUint32 x) = Ret x" for x
    using Uint32_Put [of x "[]"] by simp
  show ?thesis
    using assms len by (simp add: readFrame_def frame_def Let_def frameHeader_def u rec_fits_def decode_encode)
qed

lemma readFrame_torn:
  assumes "rec_fits r" and "strict_prefix p (frame r)"
  shows "readFrame p = Ret None"
proof (cases "length p < frameHeader")
  case True
  then show ?thesis by (simp add: readFrame_def)
next
  case False
  let ?b = "encode r"
  from assms(2) obtain q where q: "frame r = p @ q" "q \<noteq> []"
    by (auto simp: strict_prefix_def prefix_def)
  have short: "length p < length (frame r)"
    using q by simp
  have "take 4 (take frameHeader p) = PutUint32 (of_nat (length ?b))"
  proof -
    have "take 4 (take frameHeader p) = take 4 (frame r)"
      using q False by (simp add: frameHeader_def)
    then show ?thesis by (simp add: frame_def Let_def)
  qed
  moreover have "unat (of_nat (length ?b) :: u32) = length ?b"
    using assms(1) by (simp add: rec_fits_def maxBody_def unat_of_nat)
  moreover have "length p - frameHeader < length ?b"
    using False short by simp
  ultimately show ?thesis
    using False Uint32_Put [of "of_nat (length ?b)" "[]"]
    by (simp add: readFrame_def Let_def del: take_take)
qed

definition wal_next :: "bytes \<Rightarrow> (Record \<times> bytes) option" where
  "wal_next s = (case readFrame s of
     Ret (Some (r, n)) \<Rightarrow> Some (r, drop (frameHeader + n) s)
   | _ \<Rightarrow> None)"

definition wal_read :: "bytes \<Rightarrow> Record list \<times> nat" where
  "wal_read s = (case readAll s of Ret x \<Rightarrow> x | Panic \<Rightarrow> ([], 0))"

lemma readAll_wal_read: "readAll s = Ret (wal_read s)"
  using readAll_total [of s] by (auto simp: wal_read_def)

interpretation walf: framing rec_fits frame wal_next wal_read
proof
  show "wal_next (frame r @ rest) = Some (r, rest)" if "rec_fits r" for r rest
    using that by (simp add: wal_next_def readFrame_frame)
  show "wal_next p = None" if "rec_fits r" "strict_prefix p (frame r)" for r p
    using readFrame_torn [OF that] by (simp add: wal_next_def)
  show "wal_next [] = None"
    by (simp add: wal_next_def readFrame_def frameHeader_def)
  show "wal_read b = (case wal_next b of None \<Rightarrow> ([], 0)
      | Some (r, rest) \<Rightarrow> (r # fst (wal_read rest), length b - length rest + snd (wal_read rest)))" for b
  proof -
    obtain x where x: "readFrame b = Ret x"
      using readFrame_total by blast
    show ?thesis
    proof (cases x)
      case None
      with x show ?thesis by (simp add: wal_read_def wal_next_def readAll.simps [of b])
    next
      case (Some rn)
      obtain r n where rn: "rn = (r, n)" by (cases rn)
      with x Some have "frameHeader + n \<le> length b"
        using readFrame_bound by blast
      with x Some rn show ?thesis
        using readAll_wal_read [of "drop (frameHeader + n) b"]
        by (simp add: wal_read_def [of b] wal_next_def readAll.simps [of b] split_beta)
    qed
  qed
qed

lemma readAll_stream:
  "list_all rec_fits rs \<Longrightarrow> readAll (concat (map frame rs)) = Ret (rs, length (concat (map frame rs)))"
  by (simp add: readAll_wal_read walf.read_stream)

lemma readAll_append:
  "list_all rec_fits rs \<Longrightarrow> readAll (concat (map frame rs) @ b) =
     Ret (rs @ fst (wal_read b), length (concat (map frame rs)) + snd (wal_read b))"
  by (simp add: readAll_wal_read walf.read_append)

section \<open>An open log\<close>

text \<open>
  \<open>lfile\<close> is the file as the operating system has it, \<open>lsynced\<close> the part forced to stable
  storage, \<open>lbuf\<close> the \<^verbatim>\<open>bufio\<close> buffer and \<open>lfailed\<close> its sticky error.
\<close>

record Log =
  lfile :: bytes
  lsynced :: bytes
  lbuf :: bytes
  lfailed :: bool
  lsize :: nat

text \<open>How a buffered write ends, and how many buffered bytes had reached the file by then.\<close>

datatype io = IoOk nat | IoErr nat

definition push :: "nat \<Rightarrow> bytes \<Rightarrow> Log \<Rightarrow> Log" where
  "push k pending l = l\<lparr>lfile := lfile l @ take k pending, lbuf := drop k pending\<rparr>"

definition bw_write :: "io \<Rightarrow> bytes \<Rightarrow> Log \<Rightarrow> Log \<times> bool" where
  "bw_write io p l =
     (if lfailed l then (l, False)
      else case io of
        IoOk k \<Rightarrow> (push k (lbuf l @ p) l, True)
      | IoErr k \<Rightarrow> (push k (lbuf l @ p) l\<lparr>lfailed := True\<rparr>, False))"

definition bw_flush :: "io \<Rightarrow> Log \<Rightarrow> Log \<times> bool" where
  "bw_flush io l =
     (if lfailed l then (l, False)
      else case io of
        IoOk _ \<Rightarrow> (push (length (lbuf l)) (lbuf l) l, True)
      | IoErr k \<Rightarrow> (push k (lbuf l) l\<lparr>lfailed := True\<rparr>, False))"

definition Open :: "bool \<Rightarrow> bool \<Rightarrow> bool \<Rightarrow> bytes \<Rightarrow> (Log \<times> Record list) option go" where
  "Open opened truncated sought file =
     (if \<not> opened then Ret None
      else go_bind (readAll file) (\<lambda>(recs, good).
        if \<not> truncated then Ret None
        else if \<not> sought then Ret None
        else Ret (Some (\<lparr>lfile = take good file, lsynced = take good file, lbuf = [], lfailed = False,
               lsize = good\<rparr>, recs))))"

definition Append :: "io \<Rightarrow> io \<Rightarrow> Record \<Rightarrow> Log \<Rightarrow> Log \<times> bool" where
  "Append io1 io2 r l =
     (let body = encode r;
          head = PutUint32 (of_nat (length body)) @ PutUint32 (ChecksumIEEE body) in
      case bw_write io1 head l of
        (l1, False) \<Rightarrow> (l1, False)
      | (l1, True) \<Rightarrow>
          (case bw_write io2 body l1 of
             (l2, False) \<Rightarrow> (l2, False)
           | (l2, True) \<Rightarrow> (l2\<lparr>lsize := lsize l2 + frameHeader + length body\<rparr>, True)))"

definition Sync :: "io \<Rightarrow> bool \<Rightarrow> Log \<Rightarrow> Log \<times> bool" where
  "Sync io fsync l =
     (case bw_flush io l of
        (l1, False) \<Rightarrow> (l1, False)
      | (l1, True) \<Rightarrow> if fsync then (l1\<lparr>lsynced := lfile l1\<rparr>, True) else (l1, False))"

definition Size :: "Log \<Rightarrow> nat" where
  "Size l = lsize l"

text \<open>
  \<^verbatim>\<open>Rewrite\<close> fills a second file and renames it over the log; until the rename every error
  leaves the log as it was.
\<close>

fun append_all :: "(nat \<Rightarrow> io \<times> io) \<Rightarrow> Record list \<Rightarrow> Log \<Rightarrow> Log \<times> bool" where
  "append_all ios [] l = (l, True)"
| "append_all ios (r # rs) l =
     (case Append (fst (ios 0)) (snd (ios 0)) r l of
        (l1, False) \<Rightarrow> (l1, False)
      | (l1, True) \<Rightarrow> append_all (\<lambda>i. ios (Suc i)) rs l1)"

definition Rewrite :: "bool \<Rightarrow> (nat \<Rightarrow> io \<times> io) \<Rightarrow> io \<Rightarrow> bool \<Rightarrow> bool \<Rightarrow> Record list \<Rightarrow> Log \<Rightarrow> Log \<times> bool" where
  "Rewrite opened ios io fsync renamed recs l =
     (if \<not> opened then (l, False)
      else case append_all ios recs \<lparr>lfile = [], lsynced = [], lbuf = [], lfailed = False, lsize = 0\<rparr> of
        (nxt, False) \<Rightarrow> (l, False)
      | (nxt, True) \<Rightarrow>
          (case Sync io fsync nxt of
             (nxt1, False) \<Rightarrow> (l, False)
           | (nxt1, True) \<Rightarrow> if renamed then (nxt1, True) else (l, False)))"

definition Close :: "io \<Rightarrow> bool \<Rightarrow> bool \<Rightarrow> Log \<Rightarrow> Log \<times> bool" where
  "Close io fsync closed l = (case Sync io fsync l of (l1, done) \<Rightarrow> (l1, done \<and> closed))"

section \<open>What the file holds\<close>

text \<open>
  The log after the bytes \<open>s\<close> were written: without an error file and buffer together are
  \<open>s\<close>; after one the file is still a prefix of it.
\<close>

definition log_bytes :: "bytes \<Rightarrow> Log \<Rightarrow> bool" where
  "log_bytes s l \<longleftrightarrow> (\<not> lfailed l \<longrightarrow> lfile l @ lbuf l = s) \<and> prefix (lfile l) s \<and> prefix (lsynced l) (lfile l)"

text \<open>The log after the records \<open>rs\<close> were appended; what is synced is a whole number of frames.\<close>

definition log_ok :: "Record list \<Rightarrow> Log \<Rightarrow> bool" where
  "log_ok rs l \<longleftrightarrow> log_bytes (concat (map frame rs)) l \<and>
     (\<not> lfailed l \<longrightarrow> lsize l = length (concat (map frame rs))) \<and>
     (\<exists>j. lsynced l = concat (map frame (take j rs)))"

lemma push_simps [simp]:
  "lsynced (push k p l) = lsynced l" "lfailed (push k p l) = lfailed l" "lsize (push k p l) = lsize l"
  "lfile (push k p l) @ lbuf (push k p l) = lfile l @ p"
  by (simp_all add: push_def)

lemma push_prefix: "prefix s (lfile l) \<Longrightarrow> prefix s (lfile (push k p l))" "prefix (lfile (push k p l)) (lfile l @ p)"
  by (simp_all add: push_def take_is_prefix)

lemma log_bytes_failed: "log_bytes s l \<Longrightarrow> lfailed l \<Longrightarrow> log_bytes (s @ p) l"
  by (simp add: log_bytes_def)

lemma log_bytes_write:
  assumes "log_bytes s l" "bw_write io p l = (l', ok)"
  shows "log_bytes (s @ p) l' \<and> lsynced l' = lsynced l \<and> lsize l' = lsize l \<and> ok = (\<not> lfailed l')"
proof (cases "lfailed l")
  case True
  with assms show ?thesis by (auto simp: bw_write_def log_bytes_failed)
next
  case False
  with assms(1) have s: "s @ p = lfile l @ (lbuf l @ p)" and sy: "prefix (lsynced l) (lfile l)"
    by (simp_all add: log_bytes_def)
  show ?thesis
    using assms(2) False s push_prefix(1) [OF sy] push_prefix(2) [of _ "lbuf l @ p" l]
    by (cases io) (auto simp: bw_write_def log_bytes_def)
qed

lemma log_bytes_flush:
  assumes "log_bytes s l" "bw_flush io l = (l', ok)"
  shows "log_bytes s l' \<and> lsynced l' = lsynced l \<and> lsize l' = lsize l \<and> ok = (\<not> lfailed l') \<and> (ok \<longrightarrow> lfile l' = s)"
proof (cases "lfailed l")
  case True
  with assms show ?thesis by (auto simp: bw_flush_def)
next
  case False
  with assms(1) have s: "s = lfile l @ lbuf l" and sy: "prefix (lsynced l) (lfile l)"
    by (simp_all add: log_bytes_def)
  show ?thesis
    using assms(2) False s sy push_prefix(1) [OF sy] push_prefix(2) [of _ "lbuf l" l]
    by (cases io) (auto simp: bw_flush_def log_bytes_def push_def)
qed

lemma synced_grow: "\<exists>j. x = concat (map frame (take j rs)) \<Longrightarrow> \<exists>j. x = concat (map frame (take j (rs @ [r])))"
proof (elim exE)
  fix j
  assume "x = concat (map frame (take j rs))"
  then have "x = concat (map frame (take (min j (length rs)) (rs @ [r])))"
    by (cases "j \<le> length rs") (simp_all add: min_def)
  then show ?thesis ..
qed

lemma log_ok_Append:
  assumes l: "log_ok rs l" and a: "Append io1 io2 r l = (l', ok)"
  shows "log_ok (rs @ [r]) l' \<and> ok = (\<not> lfailed l')"
proof -
  let ?body = "encode r" and ?s = "concat (map frame rs)"
  let ?head = "PutUint32 (of_nat (length ?body)) @ PutUint32 (ChecksumIEEE ?body)"
  have fr: "concat (map frame (rs @ [r])) = (?s @ ?head) @ ?body" by (simp add: frame_def Let_def)
  obtain l1 b1 where w1: "bw_write io1 ?head l = (l1, b1)" by (cases "bw_write io1 ?head l")
  obtain l2 b2 where w2: "bw_write io2 ?body l1 = (l2, b2)" by (cases "bw_write io2 ?body l1")
  have 1: "log_bytes (?s @ ?head) l1" "lsynced l1 = lsynced l" "lsize l1 = lsize l" "b1 = (\<not> lfailed l1)"
    using log_bytes_write [OF _ w1, of ?s] l by (auto simp: log_ok_def)
  have 2: "log_bytes ((?s @ ?head) @ ?body) l2" "lsynced l2 = lsynced l" "lsize l2 = lsize l" "b2 = (\<not> lfailed l2)"
    using log_bytes_write [OF 1(1) w2] 1 by auto
  have sy: "\<exists>j. lsynced l = concat (map frame (take j (rs @ [r])))"
    using l by (intro synced_grow) (simp add: log_ok_def)
  show ?thesis
  proof (cases b1)
    case True
    with a w1 w2 have l': "l' = (if b2 then l2\<lparr>lsize := lsize l2 + frameHeader + length ?body\<rparr> else l2)" "ok = b2"
      by (auto simp: Append_def Let_def split: bool.splits)
    have "\<not> lfailed l" if b2
      using w1 True by (auto simp: bw_write_def split: if_splits)
    then have "b2 \<Longrightarrow> lsize l = length ?s"
      using l by (simp add: log_ok_def)
    with 2 sy show ?thesis
      unfolding log_ok_def fr l' by (auto simp: log_bytes_def frameHeader_def)
  next
    case False
    with a w1 have "l' = l1" "ok = b1"
      by (auto simp: Append_def Let_def)
    with 1 sy False log_bytes_failed [OF 1(1)] show ?thesis
      unfolding log_ok_def fr by simp
  qed
qed

lemma log_ok_Sync:
  assumes l: "log_ok rs l" and a: "Sync io fsync l = (l', ok)"
  shows "log_ok rs l' \<and> (ok \<longrightarrow> lsynced l' = concat (map frame rs))"
proof -
  obtain l1 b1 where w: "bw_flush io l = (l1, b1)" by (cases "bw_flush io l")
  have 1: "log_bytes (concat (map frame rs)) l1" "lsynced l1 = lsynced l" "lsize l1 = lsize l"
    "b1 = (\<not> lfailed l1)" "b1 \<longrightarrow> lfile l1 = concat (map frame rs)"
    using log_bytes_flush [OF _ w] l by (auto simp: log_ok_def)
  have f: "b1 \<Longrightarrow> \<not> lfailed l"
    using w by (auto simp: bw_flush_def split: if_splits)
  from a w have "l' = (if b1 \<and> fsync then l1\<lparr>lsynced := lfile l1\<rparr> else l1)" "ok = (b1 \<and> fsync)"
    by (auto simp: Sync_def split: bool.splits if_splits)
  with 1 f l show ?thesis
    by (auto simp: log_ok_def log_bytes_def intro: exI [of _ "length rs"])
qed

lemma log_ok_empty: "log_ok [] \<lparr>lfile = [], lsynced = [], lbuf = [], lfailed = False, lsize = 0\<rparr>"
  by (simp add: log_ok_def log_bytes_def)

lemma log_ok_append_all:
  "log_ok rs l \<Longrightarrow> append_all ios recs l = (l', True) \<Longrightarrow> log_ok (rs @ recs) l'"
proof (induction recs arbitrary: ios l rs)
  case Nil
  then show ?case by simp
next
  case (Cons r recs)
  obtain l1 b where a: "Append (fst (ios 0)) (snd (ios 0)) r l = (l1, b)"
    by (cases "Append (fst (ios 0)) (snd (ios 0)) r l")
  with Cons.prems have "append_all (\<lambda>i. ios (Suc i)) recs l1 = (l', True)"
    by (auto split: bool.splits)
  with log_ok_Append [OF Cons.prems(1) a] show ?case
    using Cons.IH by fastforce
qed

text \<open>Sequences of calls on an open log, with the outcomes the operating system gives them.\<close>

datatype wal_op = OpAppend io io Record | OpSync io bool

fun wal_step :: "wal_op \<Rightarrow> Log \<Rightarrow> Log" where
  "wal_step (OpAppend io1 io2 r) l = fst (Append io1 io2 r l)"
| "wal_step (OpSync io fsync) l = fst (Sync io fsync l)"

fun op_records :: "wal_op list \<Rightarrow> Record list" where
  "op_records [] = []"
| "op_records (OpAppend _ _ r # ops) = r # op_records ops"
| "op_records (OpSync _ _ # ops) = op_records ops"

lemma log_ok_run: "log_ok rs l \<Longrightarrow> log_ok (rs @ op_records ops) (fold wal_step ops l)"
proof (induction ops arbitrary: rs l)
  case Nil
  then show ?case by simp
next
  case (Cons x ops)
  show ?case
  proof (cases x)
    case (OpAppend io1 io2 r)
    have "log_ok (rs @ [r]) (fst (Append io1 io2 r l))"
      using log_ok_Append [OF Cons.prems, of io1 io2 r] by (metis prod.collapse)
    from Cons.IH [OF this] show ?thesis by (simp add: OpAppend)
  next
    case (OpSync io fs)
    have "log_ok rs (fst (Sync io fs l))"
      using log_ok_Sync [OF Cons.prems, of io fs] by (metis prod.collapse)
    from Cons.IH [OF this] show ?thesis by (simp add: OpSync)
  qed
qed

text \<open>
  A crash leaves at least what was synced and at most what was written, cut anywhere. What
  \<open>Open\<close> then returns is a prefix of the records appended, no shorter than the synced ones.
\<close>

lemma log_ok_crash:
  assumes l: "log_ok rs l" and fits: "list_all rec_fits rs" and k: "length (lsynced l) \<le> k"
  shows "\<exists>j. readAll (take k (lfile l)) = Ret (take j rs, length (concat (map frame (take j rs)))) \<and>
    prefix (lsynced l) (concat (map frame (take j rs))) \<and>
    take (length (concat (map frame (take j rs)))) (take k (lfile l)) = concat (map frame (take j rs))"
proof -
  let ?S = "\<lambda>rs. concat (map frame rs)"
  let ?k = "min k (length (lfile l))"
  have pre: "take k (lfile l) = take ?k (?S rs)"
    using l by (auto simp: log_ok_def log_bytes_def prefix_def min_def)
  obtain j where j: "j \<le> length rs" "wal_read (take ?k (?S rs)) = (take j rs, length (?S (take j rs)))"
    "length (?S (take j rs)) \<le> ?k" "j < length rs \<longrightarrow> ?k < length (?S (take (Suc j) rs))"
    using walf.read_cut [OF fits, of ?k] by blast
  obtain i where i: "lsynced l = ?S (take i rs)"
    using l by (auto simp: log_ok_def)
  have S: "?S rs = ?S (take n rs) @ ?S (drop n rs)" for n
    by (metis append_take_drop_id concat_append map_append)
  have "length (lsynced l) \<le> ?k"
    using l k by (auto simp: log_ok_def log_bytes_def dest: prefix_length_le)
  have sy: "prefix (lsynced l) (?S (take j rs))"
  proof (cases "i \<le> j")
    case True
    then have "take j rs = take i rs @ drop i (take j rs)"
      by (metis append_take_drop_id min.absorb1 take_take)
    then show ?thesis
      unfolding i by (metis concat_append map_append prefixI)
  next
    case False
    then have "j < length rs \<or> take i rs = take j rs"
      using j(1) by (cases "j = length rs") auto
    moreover have "length (?S (take (Suc j) rs)) \<le> length (?S (take i rs))"
      using False S by (metis (no_types, lifting) Suc_leI append_take_drop_id concat_append length_append
          linorder_not_le map_append min.absorb1 take_take le_add1)
    ultimately show ?thesis
      using j(4) i \<open>length (lsynced l) \<le> ?k\<close> by auto
  qed
  have "take (length (?S (take j rs))) (take k (lfile l)) = ?S (take j rs)"
    unfolding pre using j(3) S [of j] by simp
  with j(2) sy pre show ?thesis
    by (auto simp: readAll_wal_read)
qed

text \<open>What the reader accepts is byte for byte what the writer writes.\<close>

lemma readFrame_exact:
  assumes "readFrame s = Ret (Some (r, n))"
  shows "take (frameHeader + n) s = frame r" "rec_fits r"
proof -
  from assms have len: "\<not> length s < frameHeader" by (auto simp: readFrame_def)
  with assms obtain v c where v: "Uint32 (take 4 (take frameHeader s)) = Ret v"
    and n: "n = unat v" "n \<noteq> 0" "n \<le> maxBody" "n \<le> length (drop frameHeader s)"
    and c: "Uint32 (take 4 (drop 4 (take frameHeader s))) = Ret c" "ChecksumIEEE (take n (drop frameHeader s)) = c"
    and d: "decode (take n (drop frameHeader s)) = Ret (Some r)"
    unfolding readFrame_def Let_def
    by (auto simp: go_bind_Ret_iff not_less simp del: take_take length_drop split: if_split_asm option.split_asm)
  have r: "rec_ok r" "encode r = take n (drop frameHeader s)"
    using encode_decode [OF d] by auto
  with n show "rec_fits r" by (simp add: rec_fits_def)
  have "PutUint32 v = take 4 s" "PutUint32 c = take 4 (drop 4 s)"
    using Put_Uint32 [OF v] Put_Uint32 [OF c(1)] len by (simp_all add: frameHeader_def take_drop)
  moreover have "of_nat (length (encode r)) = v" using r n by simp
  moreover have "take (8 + n) s = take 4 s @ take 4 (drop 4 s) @ take n (drop 8 s)"
    using take_add [of 4 "4 + n" s] take_add [of 4 n "drop 4 s"] by (simp add: add.assoc)
  ultimately show "take (frameHeader + n) s = frame r"
    using r c(2) by (simp add: frame_def Let_def frameHeader_def)
qed

lemma readAll_exact:
  "readAll s = Ret (rs, n) \<Longrightarrow> take n s = concat (map frame rs) \<and> list_all rec_fits rs \<and> n \<le> length s"
proof (induction s arbitrary: rs n rule: readAll.induct)
  case (1 s)
  obtain x where x: "readFrame s = Ret x" using readFrame_total by blast
  show ?case
  proof (cases x)
    case None
    with x 1 show ?thesis by (simp add: readAll.simps [of s])
  next
    case (Some rm)
    obtain r m where rm: "rm = (r, m)" by (cases rm)
    obtain rs' n' where t: "readAll (drop (frameHeader + m) s) = Ret (rs', n')"
      using readAll_total [of "drop (frameHeader + m) s"] by auto
    have rs: "rs = r # rs'" "n = frameHeader + m + n'"
      using "1.prems" x Some rm t by (simp_all add: readAll.simps [of s])
    note IH = "1.IH" [OF x Some rm [symmetric] t]
    note ex = readFrame_exact [OF x [unfolded Some rm]]
    have "take n s = take (frameHeader + m) s @ take n' (drop (frameHeader + m) s)"
      using rs by (simp add: take_add)
    with IH ex rs readFrame_bound [OF x [unfolded Some rm]] show ?thesis by auto
  qed
qed

lemma Open_ok:
  assumes "Open True True True img = Ret (Some (l, rs))"
  shows "log_ok rs l" "list_all rec_fits rs" "lsynced l = lfile l"
proof -
  obtain n where n: "readAll img = Ret (rs, n)" and l: "l = \<lparr>lfile = take n img, lsynced = take n img, lbuf = [], lfailed = False, lsize = n\<rparr>"
    using assms readAll_wal_read [of img] by (cases "wal_read img") (auto simp: Open_def)
  note ex = readAll_exact [OF n]
  have "\<exists>j. concat (map frame rs) = concat (map frame (take j rs))"
    by (rule exI [of _ "length rs"]) simp
  with ex l show "log_ok rs l" "list_all rec_fits rs" "lsynced l = lfile l"
    by (auto simp: log_ok_def log_bytes_def dest!: arg_cong [of _ _ length])
qed

lemma Open_crash:
  assumes "log_ok rs l" "list_all rec_fits rs" "length (lsynced l) \<le> k"
  shows "\<exists>j l'. Open True True True (take k (lfile l)) = Ret (Some (l', take j rs)) \<and>
    prefix (lsynced l) (lfile l') \<and> log_ok (take j rs) l'"
proof -
  obtain j where r: "readAll (take k (lfile l)) = Ret (take j rs, length (concat (map frame (take j rs))))"
    and p: "prefix (lsynced l) (concat (map frame (take j rs)))"
    and f: "take (length (concat (map frame (take j rs)))) (take k (lfile l)) = concat (map frame (take j rs))"
    using log_ok_crash [OF assms] by blast
  obtain l' where o: "Open True True True (take k (lfile l)) = Ret (Some (l', take j rs))" "lfile l' = concat (map frame (take j rs))"
    using r f by (auto simp: Open_def)
  with p Open_ok(1) [OF o(1)] show ?thesis by auto
qed

lemma Rewrite_False: "Rewrite opened ios io fsync renamed recs l = (l', False) \<Longrightarrow> l' = l"
  by (auto simp: Rewrite_def split: if_splits prod.splits bool.splits)

lemma Rewrite_True:
  assumes "Rewrite opened ios io fsync renamed recs l = (l', True)"
  shows "log_ok recs l'" "\<not> lfailed l'" "lsynced l' = lfile l'" "lbuf l' = []"
proof -
  let ?e = "\<lparr>lfile = [], lsynced = [], lbuf = [], lfailed = False, lsize = 0\<rparr>"
  from assms obtain nxt where a: "append_all ios recs ?e = (nxt, True)" and s: "Sync io fsync nxt = (l', True)"
    by (auto simp: Rewrite_def split: if_splits prod.splits bool.splits)
  have n: "log_ok recs nxt" using log_ok_append_all [OF log_ok_empty a] by simp
  show "log_ok recs l'" using log_ok_Sync [OF n s] by simp
  from s show "\<not> lfailed l'" "lsynced l' = lfile l'" "lbuf l' = []"
    by (auto simp: Sync_def bw_flush_def push_def split: if_splits io.splits prod.splits bool.splits)
qed

section \<open>Properties\<close>

text \<open>
  (C16) Crash safety of the log: open any file, make any calls of \<^verbatim>\<open>Append\<close> and \<^verbatim>\<open>Sync\<close> with any
  write outcomes, and crash, which keeps at least what was synced and at most what was written,
  cut anywhere. Opening the file again returns a prefix of all records, old and new, that
  includes everything synced, and a log whose further appends extend exactly that prefix.
\<close>

theorem wal_crash_safe:
  assumes "Open True True True img = Ret (Some (l0, old))"
    and "list_all rec_fits (op_records ops)"
    and "length (lsynced (fold wal_step ops l0)) \<le> k"
  shows "\<exists>j l'. Open True True True (take k (lfile (fold wal_step ops l0))) = Ret (Some (l', take j (old @ op_records ops))) \<and>
    prefix (lsynced (fold wal_step ops l0)) (lfile l') \<and> log_ok (take j (old @ op_records ops)) l'"
  using Open_ok [OF assms(1)] assms(2,3) by (intro Open_crash log_ok_run) auto

theorem wal_crash_safe_witness:
  "\<exists>j l'. Open True True True (take 3 (lfile (fold wal_step [OpAppend (IoOk 0) (IoOk 9) (JobDrop 7)]
      \<lparr>lfile = [], lsynced = [], lbuf = [], lfailed = False, lsize = 0\<rparr>))) = Ret (Some (l', take j [JobDrop 7])) \<and>
    log_ok (take j [JobDrop 7]) l'"
proof -
  let ?l = "\<lparr>lfile = [], lsynced = [], lbuf = [], lfailed = False, lsize = 0\<rparr>"
  have "Open True True True [] = Ret (Some (?l, []))"
    by (simp add: Open_def readAll.simps readFrame_def frameHeader_def)
  from wal_crash_safe [OF this, of "[OpAppend (IoOk 0) (IoOk 9) (JobDrop 7)]" 3] show ?thesis
    by (auto simp: rec_fits_iff Append_def bw_write_def push_def Let_def)
qed



end
