(* ===== verification/Aggregator.thy ===== *)
theory Aggregator
  imports Machine Params Wal Splitter
begin

text \<open>
  The aggregator (\<^verbatim>\<open>sched/aggregator.go\<close>): the goroutine that owns the running jobs, the set of
  counted tasks, the stored answers and the write-ahead log. Its local closures \<^verbatim>\<open>record\<close>,
  \<^verbatim>\<open>reply\<close>, \<^verbatim>\<open>detach\<close> and \<^verbatim>\<open>finish\<close> and each case of its \<^verbatim>\<open>select\<close> are one definition each.

  What leaves the goroutine is appended to \<open>agOut\<close>: messages written to clients, replies to
  client handlers, the calls of \<^verbatim>\<open>record\<close>, the calls of the hooks (made if one is set) and
  the statistics published. A \<^verbatim>\<open>*job\<close> lives in the map \<open>agJobs\<close>; a closure that changes it
  returns it and the caller writes it back. A \<^verbatim>\<open>cancel\<close> channel is a number, and
  \<open>agClosed\<close> lists the channels closed so far. The zero \<^verbatim>\<open>time.Time\<close> of \<^verbatim>\<open>orphanedAt\<close> is
  \<open>None\<close>. \<open>agDev\<close> gives the outcome of the operating system for each further call of the
  log; the clock readings come with the event.
\<close>

section \<open>State\<close>

record Histogram =
  hBuckets :: "u64 list"
  hSum :: rat
  hCount :: u64

definition LatencyBounds :: "rat list" where
  "LatencyBounds = [1/100, 1/40, 1/20, 1/10, 1/4, 1/2, 1, 5/2, 5, 10, 30, 60]"

text \<open>The loop that finds the bucket: the first bound that is not exceeded.\<close>

fun bucket :: "rat list \<Rightarrow> rat \<Rightarrow> nat" where
  "bucket [] x = 0"
| "bucket (b # bs) x = (if x > b then Suc (bucket bs x) else 0)"

definition observe_latency :: "rat \<Rightarrow> Histogram \<Rightarrow> Histogram" where
  "observe_latency x h =
     (let i = bucket LatencyBounds x
      in h\<lparr>hBuckets := (hBuckets h)[i := hBuckets h ! i + 1], hSum := hSum h + x, hCount := hCount h + 1\<rparr>)"

record AggStats =
  JobsStarted :: u64
  JobsCompleted :: u64
  JobsDropped :: u64
  JobsRecovered :: u64
  ChunksRecovered :: u64
  Reattached :: u64
  WALErrors :: u64
  ActiveJobs :: nat
  Merged :: u64
  Duplicates :: u64
  Orphans :: u64
  JobLatency :: Histogram

definition zeroAggStats :: AggStats where
  "zeroAggStats = \<lparr>JobsStarted = 0, JobsCompleted = 0, JobsDropped = 0, JobsRecovered = 0,
     ChunksRecovered = 0, Reattached = 0, WALErrors = 0, ActiveJobs = 0, Merged = 0, Duplicates = 0,
     Orphans = 0, JobLatency = \<lparr>hBuckets = replicate 13 0, hSum = 0, hCount = 0\<rparr>\<rparr>"

record job =
  jSpec :: jobSpec
  jClient :: "int option"
  remaining :: u32
  jAcc :: Partial
  jStarted :: time
  jOrphanedAt :: "time option"
  jCancel :: nat

record finished =
  fResult :: Partial
  fAt :: time

text \<open>The outcome of one call of the log.\<close>

record wio =
  ioHead :: io
  ioBody :: io
  ioFlush :: io
  fsyncOk :: bool
  tmpOpened :: bool
  ioTmp :: "nat \<Rightarrow> io \<times> io"
  renamedOk :: bool
  closedOk :: bool

datatype act =
    AWrite int Message
  | ASubmitReply bool "nat option"
  | ALog Record
  | ACompact "Record list" bool
  | AOnMerge TaskID
  | AOnDiscard TaskID bool
  | AOnJobEnd u64 bool
  | APublish AggStats

record agg =
  agDone :: "TaskID set"
  agJobs :: "(u64, job) gomap"
  agResults :: "(u64, finished) gomap"
  agByConn :: "(int, u64) gomap"
  agLog :: "Log option"
  agDirty :: bool
  agStats :: AggStats
  agStopped :: bool
  agChans :: nat
  agClosed :: "nat list"
  agDev :: "nat \<Rightarrow> wio"
  agOut :: "act list"

definition housekeeping :: duration where "housekeeping = 50 * Millisecond"
definition compactAbove :: nat where "compactAbove = 1048576"

section \<open>The closures\<close>

definition emit :: "act \<Rightarrow> agg \<Rightarrow> agg" where
  "emit a s = s\<lparr>agOut := agOut s @ [a]\<rparr>"

definition walError :: "bool \<Rightarrow> AggStats \<Rightarrow> AggStats" where
  "walError ok st = (if ok then st else st\<lparr>WALErrors := WALErrors st + 1\<rparr>)"

definition record_rec :: "Record \<Rightarrow> bool \<Rightarrow> agg \<Rightarrow> agg" where
  "record_rec r syncNow s =
     (case agLog s of
        None \<Rightarrow> emit (ALog r) s
      | Some l \<Rightarrow>
          let w = agDev s 0;
              (l1, ok1) = Append (ioHead w) (ioBody w) r l;
              (l2, ok2, d) =
                (if ok1 \<and> syncNow then case Sync (ioFlush w) (fsyncOk w) l1 of (l2, ok2) \<Rightarrow> (l2, ok2, False)
                 else (l1, ok1, True))
          in emit (ALog r) (s\<lparr>agLog := Some l2, agDirty := d, agStats := walError ok2 (agStats s),
               agDev := (\<lambda>i. agDev s (Suc i))\<rparr>))"

definition reply :: "int option \<Rightarrow> u64 \<Rightarrow> Partial \<Rightarrow> agg \<Rightarrow> agg" where
  "reply h i p s =
     (case h of
        None \<Rightarrow> s
      | Some c \<Rightarrow> emit (AWrite c (MResult (Result i (Hash p) (Nonce p)))) s)"

definition detach :: "job \<Rightarrow> agg \<Rightarrow> job \<times> agg" where
  "detach j s =
     (case jClient j of
        None \<Rightarrow> (j, s)
      | Some c \<Rightarrow> (j\<lparr>jClient := None\<rparr>, s\<lparr>agByConn := mdel (agByConn s) c\<rparr>))"

text \<open>The tasks of a job, whose entries \<^verbatim>\<open>finish\<close> deletes one by one.\<close>

definition job_tasks :: "u64 \<Rightarrow> u32 \<Rightarrow> TaskID set" where
  "job_tasks i n = set (map (TaskID i) (idxs n))"

definition seconds :: "duration \<Rightarrow> rat" where
  "seconds d = of_int d / of_int Second"

definition finish_job :: "(nat \<Rightarrow> time) \<Rightarrow> job \<Rightarrow> bool \<Rightarrow> agg \<Rightarrow> agg" where
  "finish_job clk j0 completed s0 =
     (let i = sId (jSpec j0);
          (j, s1) = detach j0 s0;
          s2 = s1\<lparr>agJobs := mdel (agJobs s1) i, agDone := agDone s1 - job_tasks i (sN (jSpec j)),
                  agClosed := agClosed s1 @ [jCancel j]\<rparr>;
          s3 = (if completed then
                  let s = s2\<lparr>agResults := mput (agResults s2) i \<lparr>fResult = jAcc j, fAt = clk 0\<rparr>\<rparr>;
                      s = record_rec (JobDone i (Hash (jAcc j)) (Nonce (jAcc j))) True s;
                      st = agStats s
                  in s\<lparr>agStats := st\<lparr>JobsCompleted := JobsCompleted st + 1,
                         JobLatency := observe_latency (seconds (clk 1 - jStarted j)) (JobLatency st)\<rparr>\<rparr>
                else
                  let s = record_rec (JobDrop i) False s2;
                      st = agStats s
                  in s\<lparr>agStats := st\<lparr>JobsDropped := JobsDropped st + 1\<rparr>\<rparr>)
      in emit (AOnJobEnd i completed) s3)"

section \<open>The cases of the select\<close>

definition newJob :: "Workload \<Rightarrow> time \<Rightarrow> jobSpec \<Rightarrow> nat \<Rightarrow> job" where
  "newJob wl now spec ch = \<lparr>jSpec = spec, jClient = None, remaining = sN spec, jAcc = wlZero wl,
     jStarted = now, jOrphanedAt = None, jCancel = ch\<rparr>"

definition reattached :: "agg \<Rightarrow> agg" where
  "reattached s = s\<lparr>agStats := (agStats s)\<lparr>Reattached := Reattached (agStats s) + 1\<rparr>\<rparr>"

text \<open>The job a request joins, and whether it was running: an existing one, or a new one.\<close>

definition join_job :: "Workload \<Rightarrow> time \<Rightarrow> jobSpec \<Rightarrow> agg \<Rightarrow> bool \<times> job \<times> agg" where
  "join_job wl now spec s =
     (let i = sId spec in
      case mget (agJobs s) i of
        Some j \<Rightarrow> (case detach j s of (j', s') \<Rightarrow> (True, j', reattached s'))
      | None \<Rightarrow>
          let j = newJob wl now spec (agChans s);
              s1 = s\<lparr>agJobs := mput (agJobs s) i j, agChans := agChans s + 1\<rparr>;
              s2 = record_rec (JobStart i (sLo spec) (sHi spec) (sSize spec) (sN spec) (sMsg spec)) True s1
          in (False, j, s2\<lparr>agStats := (agStats s2)\<lparr>JobsStarted := JobsStarted (agStats s2) + 1\<rparr>\<rparr>))"

text \<open>\<open>gone\<close> says that the client's connection has ended already (\<^verbatim>\<open><-req.h.Done()\<close>).\<close>

definition attach :: "time \<Rightarrow> int \<Rightarrow> bool \<Rightarrow> u64 \<Rightarrow> job \<Rightarrow> agg \<Rightarrow> job \<times> agg" where
  "attach now h gone i j s =
     (if gone then (j\<lparr>jOrphanedAt := Some now\<rparr>, s)
      else (j\<lparr>jClient := Some h, jOrphanedAt := None\<rparr>, s\<lparr>agByConn := mput (agByConn s) h i\<rparr>))"

definition submit :: "Workload \<Rightarrow> (nat \<Rightarrow> time) \<Rightarrow> int \<Rightarrow> bool \<Rightarrow> jobSpec \<Rightarrow> agg \<Rightarrow> agg" where
  "submit wl clk h gone spec s =
     (let i = sId spec in
      case mget (agResults s) i of
        Some f \<Rightarrow> emit (ASubmitReply False None) (reattached (reply (Some h) i (fResult f) s))
      | None \<Rightarrow>
          let (running, j, s1) = join_job wl (clk 0) spec s;
              (j2, s2) = attach (clk 1) h gone i j s1;
              s3 = emit (ASubmitReply (\<not> running) (Some (jCancel j2))) (s2\<lparr>agJobs := mput (agJobs s2) i j2\<rparr>)
          in if remaining j2 = 0 then finish_job (\<lambda>k. clk (k + 2)) j2 True (reply (jClient j2) i (jAcc j2) s3)
             else s3)"

definition discard :: "TaskID \<Rightarrow> bool \<Rightarrow> agg \<Rightarrow> agg" where
  "discard t dup s =
     (let st = agStats s;
          st' = (if dup then st\<lparr>Duplicates := Duplicates st + 1\<rparr> else st\<lparr>Orphans := Orphans st + 1\<rparr>)
      in emit (AOnDiscard t dup) (s\<lparr>agStats := st'\<rparr>))"

text \<open>Counting one result: the part between the duplicate check and the countdown's end.\<close>

definition count_result :: "Workload \<Rightarrow> ChunkResult \<Rightarrow> job \<Rightarrow> agg \<Rightarrow> job \<times> agg" where
  "count_result wl r j s =
     (let t = crID r;
          j1 = j\<lparr>jAcc := wlMerge wl (jAcc j) (Partial (crHash r) (crNonce r)), remaining := remaining j - 1\<rparr>;
          s1 = s\<lparr>agDone := insert t (agDone s), agJobs := mput (agJobs s) (Job t) j1,
                 agStats := (agStats s)\<lparr>Merged := Merged (agStats s) + 1\<rparr>\<rparr>;
          s2 = record_rec (ChunkDone (Job t) (Idx t) (crHash r) (crNonce r)) False s1
      in (j1, emit (AOnMerge t) s2))"

definition on_result :: "Workload \<Rightarrow> (nat \<Rightarrow> time) \<Rightarrow> ChunkResult \<Rightarrow> agg \<Rightarrow> agg" where
  "on_result wl clk r s =
     (let t = crID r in
      case mget (agJobs s) (Job t) of
        None \<Rightarrow> discard t False s
      | Some j \<Rightarrow>
          if Idx t \<ge> sN (jSpec j) \<or> t \<in> agDone s then discard t (Idx t < sN (jSpec j)) s
          else (case count_result wl r j s of (j1, s1) \<Rightarrow>
            if remaining j1 = 0 then finish_job clk j1 True (reply (jClient j1) (Job t) (jAcc j1) s1) else s1))"

text \<open>A missing key of \<^verbatim>\<open>byConn\<close> reads as job 0.\<close>

definition client_gone :: "time \<Rightarrow> int \<Rightarrow> agg \<Rightarrow> agg" where
  "client_gone now c s =
     (let i = (case mget (agByConn s) c of Some i \<Rightarrow> i | None \<Rightarrow> 0);
          s1 = (case mget (agJobs s) i of
                  Some j \<Rightarrow>
                    if jClient j = Some c then
                      (case detach j s of (j1, s1) \<Rightarrow> s1\<lparr>agJobs := mput (agJobs s1) i (j1\<lparr>jOrphanedAt := Some now\<rparr>)\<rparr>)
                    else s
                | None \<Rightarrow> s)
      in s1\<lparr>agByConn := mdel (agByConn s1) c\<rparr>)"

definition drop_orphan :: "time \<Rightarrow> duration \<Rightarrow> agg \<Rightarrow> u64 \<times> job \<Rightarrow> agg" where
  "drop_orphan now grace s e =
     (case jOrphanedAt (snd e) of
        Some t \<Rightarrow> if now - t > grace then finish_job (\<lambda>_. now) (snd e) False s else s
      | None \<Rightarrow> s)"

definition expire_result :: "time \<Rightarrow> duration \<Rightarrow> agg \<Rightarrow> u64 \<times> finished \<Rightarrow> agg" where
  "expire_result now ttl s e =
     (if now - fAt (snd e) > ttl
      then record_rec (JobDrop (fst e)) False (s\<lparr>agResults := mdel (agResults s) (fst e)\<rparr>)
      else s)"

definition snapshotResults :: "(u64, finished) gomap \<Rightarrow> Record list" where
  "snapshotResults rs = map (\<lambda>(i, f). JobDone i (Hash (fResult f)) (Nonce (fResult f))) rs"

definition compact_log :: "agg \<Rightarrow> agg" where
  "compact_log s =
     (case agLog s of
        None \<Rightarrow> s
      | Some l \<Rightarrow>
          if agJobs s = [] \<and> Size l > compactAbove then
            let w = agDev s 0; recs = snapshotResults (agResults s);
                (l', ok) = Rewrite (tmpOpened w) (ioTmp w) (ioFlush w) (fsyncOk w) (renamedOk w) recs l
            in emit (ACompact recs ok) (s\<lparr>agLog := Some l', agDirty := False,
                 agStats := walError ok (agStats s), agDev := (\<lambda>i. agDev s (Suc i))\<rparr>)
          else s)"

definition sync_log :: "agg \<Rightarrow> agg" where
  "sync_log s =
     (case agLog s of
        None \<Rightarrow> s
      | Some l \<Rightarrow>
          if agDirty s then
            let w = agDev s 0; (l', ok) = Sync (ioFlush w) (fsyncOk w) l
            in s\<lparr>agLog := Some l', agDirty := False, agStats := walError ok (agStats s),
                 agDev := (\<lambda>i. agDev s (Suc i))\<rparr>
          else s)"

definition tick :: "schedParams \<Rightarrow> time \<Rightarrow> agg \<Rightarrow> agg" where
  "tick p now s =
     (let s1 = foldl (drop_orphan now (JobGraceMs p * Millisecond)) s (agJobs s);
          s2 = foldl (expire_result now (ResultTTLMs p * Millisecond)) s1 (agResults s1)
      in sync_log (compact_log s2))"

text \<open>\<^verbatim>\<open>stop\<close>: the goroutine returns, closing the log on the way out.\<close>

definition stop_agg :: "agg \<Rightarrow> agg" where
  "stop_agg s =
     (case agLog s of
        None \<Rightarrow> s\<lparr>agStopped := True\<rparr>
      | Some l \<Rightarrow>
          let w = agDev s 0
          in s\<lparr>agLog := Some (fst (Close (ioFlush w) (fsyncOk w) (closedOk w) l)), agStopped := True,
               agDev := (\<lambda>i. agDev s (Suc i))\<rparr>)"

definition publish_agg :: "schedParams \<Rightarrow> bool \<Rightarrow> agg \<Rightarrow> agg" where
  "publish_agg p chroom s =
     (let st = (agStats s)\<lparr>ActiveJobs := length (agJobs s)\<rparr>;
          s1 = s\<lparr>agStats := st\<rparr>
      in if hasAggStats p \<and> chroom then emit (APublish st) s1 else s1)"

section \<open>The loop\<close>

datatype agg_event =
    ESubmit int bool jobSpec
  | EResult ChunkResult
  | EClientGone int
  | ETick time
  | EStop

text \<open>An event with the clock readings of its handler and whether the statistics channel has room.\<close>

type_synonym agg_input = "(nat \<Rightarrow> time) \<times> bool \<times> agg_event"

fun handle :: "schedParams \<Rightarrow> Workload \<Rightarrow> (nat \<Rightarrow> time) \<Rightarrow> agg_event \<Rightarrow> agg \<Rightarrow> agg" where
  "handle p wl clk (ESubmit h gone spec) s = submit wl clk h gone spec s"
| "handle p wl clk (EResult r) s = on_result wl clk r s"
| "handle p wl clk (EClientGone c) s = client_gone (clk 0) c s"
| "handle p wl clk (ETick now) s = tick p now s"
| "handle p wl clk EStop s = stop_agg s"

definition agg_step :: "schedParams \<Rightarrow> Workload \<Rightarrow> agg \<Rightarrow> agg_input \<Rightarrow> agg" where
  "agg_step p wl s e =
     (case e of (clk, chroom, ev) \<Rightarrow>
        if agStopped s then s
        else if ev = EStop then stop_agg s
        else publish_agg p chroom (handle p wl clk ev s))"

definition aggregator :: "schedParams \<Rightarrow> Workload \<Rightarrow> agg \<Rightarrow> agg_input list \<Rightarrow> agg" where
  "aggregator p wl s es = foldl (agg_step p wl) s es"

end
