(* ===== verification/Ledger.thy ===== *)
theory Ledger
  imports Machine Wal Splitter
begin

text \<open>
  What the scheduler promises about its jobs, as an abstract machine whose actions are the
  records of the write-ahead log: which jobs run, how many of their tasks are still missing
  and what has been accumulated, which tasks are counted, and which answers are stored. The
  aggregator and the recovery from the log both refine it.
\<close>

section \<open>The abstract machine\<close>

record ledger =
  ldDone :: "TaskID set"
  ldJobs :: "u64 \<rightharpoonup> jobSpec \<times> u32 \<times> Partial"
  ldResults :: "u64 \<rightharpoonup> Partial"

definition empty_ledger :: ledger where
  "empty_ledger = \<lparr>ldDone = {}, ldJobs = Map.empty, ldResults = Map.empty\<rparr>"

text \<open>A job leaves the books together with its counted tasks.\<close>

definition drop_job :: "u64 \<Rightarrow> ledger \<Rightarrow> ledger" where
  "drop_job i d =
     (case ldJobs d i of
        None \<Rightarrow> d
      | Some (spec, _, _) \<Rightarrow> d\<lparr>ldDone := {t \<in> ldDone d. \<not> (Job t = i \<and> Idx t < sN spec)}, ldJobs := (ldJobs d)(i := None)\<rparr>)"

fun apply_rec :: "Workload \<Rightarrow> ledger \<Rightarrow> Record \<Rightarrow> ledger" where
  "apply_rec wl d (JobStart i lo hi sz n msg) =
     (if ldJobs d i \<noteq> None then d
      else d\<lparr>ldJobs := (ldJobs d)(i \<mapsto> (jobSpec i lo hi sz n msg, n, wlZero wl)), ldResults := (ldResults d)(i := None)\<rparr>)"
| "apply_rec wl d (ChunkDone i k h x) =
     (case ldJobs d i of
        None \<Rightarrow> d
      | Some (spec, r, a) \<Rightarrow>
          if k \<ge> sN spec \<or> TaskID i k \<in> ldDone d then d
          else d\<lparr>ldDone := insert (TaskID i k) (ldDone d),
                 ldJobs := (ldJobs d)(i \<mapsto> (spec, r - 1, wlMerge wl a (Partial h x)))\<rparr>)"
| "apply_rec wl d (JobDone i h x) = (let d1 = drop_job i d in d1\<lparr>ldResults := (ldResults d1)(i \<mapsto> Partial h x)\<rparr>)"
| "apply_rec wl d (JobDrop i) = (let d1 = drop_job i d in d1\<lparr>ldResults := (ldResults d1)(i := None)\<rparr>)"

definition replay_led :: "Workload \<Rightarrow> Record list \<Rightarrow> ledger" where
  "replay_led wl rs = foldl (apply_rec wl) empty_ledger rs"

section \<open>Counting\<close>

definition counted :: "ledger \<Rightarrow> u64 \<Rightarrow> u32 set" where
  "counted d i = {k. TaskID i k \<in> ldDone d}"

text \<open>
  The books balance, identifier by identifier: what is missing and what is counted add up, only
  tasks of running jobs are counted, and a job is either running or answered.
\<close>

fun entry_inv :: "u64 \<Rightarrow> (jobSpec \<times> u32 \<times> Partial) option \<Rightarrow> u32 set \<Rightarrow> Partial option \<Rightarrow> bool" where
  "entry_inv i None C res \<longleftrightarrow> C = {}"
| "entry_inv i (Some (spec, r, a)) C res \<longleftrightarrow>
     sId spec = i \<and> C \<subseteq> set (idxs (sN spec)) \<and> unat r + card C = unat (sN spec) \<and> res = None"

definition led_inv :: "ledger \<Rightarrow> bool" where
  "led_inv d \<longleftrightarrow> (\<forall>i. entry_inv i (ldJobs d i) (counted d i) (ldResults d i))"

lemma led_inv_empty: "led_inv empty_ledger"
  by (simp add: led_inv_def empty_ledger_def counted_def)

lemma led_invD: "led_inv d \<Longrightarrow> entry_inv i (ldJobs d i) (counted d i) (ldResults d i)"
  by (simp add: led_inv_def)

lemma counted_upd [simp]: "counted (d\<lparr>ldResults := rs\<rparr>) k = counted d k" "counted (d\<lparr>ldJobs := js\<rparr>) k = counted d k"
  "counted (d\<lparr>ldJobs := js, ldResults := rs\<rparr>) k = counted d k"
  "counted (d\<lparr>ldDone := insert (TaskID i x) D\<rparr>) k = (if k = i then insert x (counted (d\<lparr>ldDone := D\<rparr>) i) else counted (d\<lparr>ldDone := D\<rparr>) k)"
  "counted (d\<lparr>ldDone := ldDone d\<rparr>) k = counted d k"
  by (auto simp: counted_def)

lemma counted_drop [simp]:
  assumes "led_inv d"
  shows "counted (drop_job i d) k = (if k = i then {} else counted d k)"
proof (cases "ldJobs d i")
  case None
  then show ?thesis using led_invD [OF assms, of i] by (simp add: drop_job_def)
next
  case (Some x)
  obtain spec r a where x: "x = (spec, r, a)" by (cases x)
  then show ?thesis
    using Some led_invD [OF assms, of i] by (auto simp: drop_job_def counted_def set_idxs)
qed

lemma drop_job_simps [simp]:
  "ldJobs (drop_job i d) = (ldJobs d)(i := None)" "ldResults (drop_job i d) = ldResults d"
  by (auto simp: drop_job_def fun_eq_iff split: option.split prod.split)

lemma card_idxs [simp]: "card (set (idxs n)) = unat n"
  using distinct_card [OF distinct_idxs [of n]] by simp

lemma entry_inv_chunk:
  assumes "entry_inv i (Some (spec, r, a)) C res" "k < sN spec" "k \<notin> C"
  shows "entry_inv i (Some (spec, r - 1, b)) (insert k C) res"
proof -
  have C: "insert k C \<subseteq> set (idxs (sN spec))" using assms by (simp add: set_idxs)
  then have "card (insert k C) \<le> unat (sN spec)"
    using card_mono [OF _ C] by simp
  moreover have fin: "finite C" by simp
  ultimately have pos: "0 < unat r" using assms by simp
  then have "unat (r - 1) = unat r - 1" by (metis unat_gt_0 unat_minus_one)
  with assms C pos fin show ?thesis by simp
qed

lemma led_inv_apply:
  assumes d: "led_inv d"
  shows "led_inv (apply_rec wl d r)"
proof (cases r)
  case (JobStart i lo hi sz n msg)
  show ?thesis
  proof (cases "ldJobs d i")
    case None
    with d JobStart led_invD [OF d, of i] show ?thesis by (simp add: led_inv_def)
  next
    case (Some y)
    with d JobStart show ?thesis by simp
  qed
next
  case (ChunkDone i k h x)
  show ?thesis
  proof (cases "ldJobs d i")
    case None
    with d ChunkDone show ?thesis by simp
  next
    case (Some y)
    obtain spec rm a where y: "y = (spec, rm, a)" by (cases y)
    then have e: "entry_inv i (Some (spec, rm, a)) (counted d i) (ldResults d i)"
      using led_invD [OF d, of i] Some by simp
    have k: "TaskID i k \<in> ldDone d \<longleftrightarrow> k \<in> counted d i" by (simp add: counted_def)
    show ?thesis
      using d ChunkDone Some y entry_inv_chunk [OF e, of k] k by (simp add: led_inv_def not_le)
  qed
next
  case (JobDone i h x)
  with d show ?thesis by (simp add: led_inv_def Let_def)
next
  case (JobDrop i)
  with d show ?thesis by (simp add: led_inv_def Let_def)
qed

interpretation led: machine "apply_rec wl" led_inv "\<lambda>_. True" for wl
  by unfold_locales (rule led_inv_apply)

lemma led_inv_replay: "led_inv (replay_led wl rs)"
  unfolding replay_led_def by (rule led.run_inv [OF led_inv_empty]) (simp add: list_all_iff)

section \<open>Values\<close>

text \<open>
  Every identifier stands for one specification (\<open>sp\<close>), and the records are honest: a counted
  task carries the value of that task, an answer the value of the whole job.
\<close>

definition spec_value :: "Workload \<Rightarrow> jobSpec \<Rightarrow> Partial" where
  "spec_value wl spec = wlCompute wl (sMsg spec) (sLo spec) (sHi spec)"

fun honest :: "Workload \<Rightarrow> (u64 \<Rightarrow> jobSpec) \<Rightarrow> Record \<Rightarrow> bool" where
  "honest wl sp (JobStart i lo hi sz n msg) \<longleftrightarrow> jobSpec i lo hi sz n msg = sp i"
| "honest wl sp (ChunkDone i k h x) \<longleftrightarrow> (k < sN (sp i) \<longrightarrow> Partial h x = task_value wl (feed_task (sp i) k))"
| "honest wl sp (JobDone i h x) \<longleftrightarrow> Partial h x = spec_value wl (sp i)"
| "honest wl sp (JobDrop i) \<longleftrightarrow> True"

text \<open>The value accumulated for a set of counted tasks, in some order.\<close>

definition acc_ok :: "Workload \<Rightarrow> jobSpec \<Rightarrow> u32 set \<Rightarrow> Partial \<Rightarrow> bool" where
  "acc_ok wl spec C a \<longleftrightarrow>
     (\<exists>ks. set ks = C \<and> a = foldl (wlMerge wl) (wlZero wl) (map (\<lambda>k. task_value wl (feed_task spec k)) ks))"

lemma acc_ok_empty: "acc_ok wl spec {} (wlZero wl)"
  unfolding acc_ok_def by (rule exI [of _ "[]"]) simp

lemma acc_ok_insert:
  assumes "acc_ok wl spec C a"
  shows "acc_ok wl spec (insert k C) (wlMerge wl a (task_value wl (feed_task spec k)))"
proof -
  obtain ks where "set ks = C" "a = foldl (wlMerge wl) (wlZero wl) (map (\<lambda>k. task_value wl (feed_task spec k)) ks)"
    using assms by (auto simp: acc_ok_def)
  then show ?thesis unfolding acc_ok_def by (intro exI [of _ "ks @ [k]"]) simp
qed

fun entry_val :: "Workload \<Rightarrow> jobSpec \<Rightarrow> (jobSpec \<times> u32 \<times> Partial) option \<Rightarrow> u32 set \<Rightarrow> bool" where
  "entry_val wl s None C \<longleftrightarrow> True"
| "entry_val wl s (Some (spec, r, a)) C \<longleftrightarrow> spec = s \<and> acc_ok wl s C a"

definition led_val :: "Workload \<Rightarrow> (u64 \<Rightarrow> jobSpec) \<Rightarrow> ledger \<Rightarrow> bool" where
  "led_val wl sp d \<longleftrightarrow> (\<forall>i. entry_val wl (sp i) (ldJobs d i) (counted d i) \<and>
     (\<forall>a. ldResults d i = Some a \<longrightarrow> a = spec_value wl (sp i)))"

lemma led_val_empty: "led_val wl sp empty_ledger"
  by (simp add: led_val_def empty_ledger_def)

lemma led_valD:
  assumes "led_val wl sp d"
  shows "entry_val wl (sp i) (ldJobs d i) (counted d i)" "ldResults d i = Some a \<Longrightarrow> a = spec_value wl (sp i)"
  using assms by (simp_all add: led_val_def)

lemma led_val_apply:
  assumes inv: "led_inv d" and v: "led_val wl sp d" and h: "honest wl sp r"
  shows "led_val wl sp (apply_rec wl d r)"
proof (cases r)
  case (JobStart i lo hi sz n msg)
  show ?thesis
  proof (cases "ldJobs d i")
    case None
    then have "counted d i = {}" using led_invD [OF inv, of i] by simp
    with None v h JobStart show ?thesis by (simp add: led_val_def acc_ok_empty)
  next
    case (Some y)
    with v JobStart show ?thesis by simp
  qed
next
  case (ChunkDone i k hs x)
  show ?thesis
  proof (cases "ldJobs d i")
    case None
    with v ChunkDone show ?thesis by simp
  next
    case (Some y)
    obtain spec rm a where y: "y = (spec, rm, a)" by (cases y)
    with Some led_valD(1) [OF v, of i] have "spec = sp i" "acc_ok wl (sp i) (counted d i) a" by simp_all
    with Some y v h ChunkDone show ?thesis
      using acc_ok_insert [of wl "sp i" "counted d i" a k] by (simp add: led_val_def not_le)
  qed
next
  case (JobDone i hs x)
  with inv v h show ?thesis by (simp add: led_val_def Let_def)
next
  case (JobDrop i)
  with inv v show ?thesis by (simp add: led_val_def Let_def)
qed

interpretation ledv: machine "apply_rec wl" "\<lambda>d. led_inv d \<and> led_val wl sp d" "honest wl sp" for wl sp
  by unfold_locales (simp add: led_inv_apply led_val_apply)

lemma led_val_replay: "list_all (honest wl sp) rs \<Longrightarrow> led_val wl sp (replay_led wl rs)"
  unfolding replay_led_def using ledv.run_inv [of empty_ledger wl sp rs] by (simp add: led_inv_empty led_val_empty)

text \<open>A job of which nothing is missing has all its tasks counted.\<close>

lemma counted_all:
  assumes "led_inv d" "ldJobs d i = Some (spec, 0, a)"
  shows "counted d i = set (idxs (sN spec))"
proof (rule card_subset_eq)
  show "counted d i \<subseteq> set (idxs (sN spec))" "card (counted d i) = card (set (idxs (sN spec)))"
    using led_invD [OF assms(1), of i] assms(2) by simp_all
qed simp

context splittable
begin

text \<open>The accumulation of a job of which nothing is missing is the value of the whole job.\<close>

lemma complete_value:
  assumes "led_inv d" "led_val wl sp d" "ldJobs d i = Some (spec, 0, a)" "spec_ok (sp i)"
  shows "a = spec_value wl (sp i)"
proof -
  have sp: "spec = sp i" and acc: "acc_ok wl (sp i) (counted d i) a"
    using led_valD(1) [OF assms(2), of i] assms(3) by simp_all
  obtain ks where ks: "set ks = counted d i" "a = acc_of (map (\<lambda>k. task_value wl (feed_task (sp i) k)) ks)"
    using acc by (auto simp: acc_ok_def)
  then have "set ks = set (idxs (sN (sp i)))" using counted_all [OF assms(1,3)] sp by simp
  then have "a = acc_of (map (\<lambda>k. task_value wl (feed_task (sp i) k)) (idxs (sN (sp i))))"
    unfolding ks(2) by (intro acc_of_set) simp
  with tasks_value [OF assms(4)] show ?thesis by (simp add: spec_value_def)
qed

end

end
