(* ===== verification/AggInv.thy ===== *)
theory AggInv
  imports Aggregator Ledger
begin

text \<open>
  The aggregator refines the abstract ledger: every handler changes the jobs, the counted tasks
  and the stored answers exactly as the records it passes to \<^verbatim>\<open>record\<close> say, and an answer is
  only sent for a job of which nothing is missing, or one that is stored.
\<close>

section \<open>The ledger of an aggregator\<close>

definition led_of :: "agg \<Rightarrow> ledger" where
  "led_of s = \<lparr>ldDone = agDone s,
     ldJobs = (\<lambda>i. map_option (\<lambda>j. (jSpec j, remaining j, jAcc j)) (mget (agJobs s) i)),
     ldResults = (\<lambda>i. map_option fResult (mget (agResults s) i))\<rparr>"

fun recs_of :: "act list \<Rightarrow> Record list" where
  "recs_of [] = []"
| "recs_of (ALog r # as) = r # recs_of as"
| "recs_of (_ # as) = recs_of as"

lemma recs_of_append [simp]: "recs_of (as @ bs) = recs_of as @ recs_of bs"
  by (induction as rule: recs_of.induct) simp_all

text \<open>
  Fair actions, relative to the ledger at the time: an answer is complete or stored, a compacted
  log holds stored answers only and replays to this ledger, and the records that start a job or count a task come from the event (\<open>src\<close>).
\<close>

definition job_complete :: "ledger \<Rightarrow> u64 \<Rightarrow> Partial \<Rightarrow> bool" where
  "job_complete d i a \<longleftrightarrow> (\<exists>spec. ldJobs d i = Some (spec, 0, a))"

fun fair :: "Workload \<Rightarrow> (Record \<Rightarrow> bool) \<Rightarrow> ledger \<Rightarrow> act list \<Rightarrow> bool" where
  "fair wl src d [] \<longleftrightarrow> True"
| "fair wl src d (ALog (JobDone i h x) # as) \<longleftrightarrow>
     job_complete d i (Partial h x) \<and> fair wl src (apply_rec wl d (JobDone i h x)) as"
| "fair wl src d (ALog (JobDrop i) # as) \<longleftrightarrow> fair wl src (apply_rec wl d (JobDrop i)) as"
| "fair wl src d (ALog r # as) \<longleftrightarrow> src r \<and> fair wl src (apply_rec wl d r) as"
| "fair wl src d (AWrite c (MResult (Result i h x)) # as) \<longleftrightarrow>
     (job_complete d i (Partial h x) \<or> ldResults d i = Some (Partial h x)) \<and> fair wl src d as"
| "fair wl src d (ACompact recs b # as) \<longleftrightarrow>
     replay_led wl recs = d \<and>
     (\<forall>r \<in> set recs. \<exists>i p. r = JobDone i (Hash p) (Nonce p) \<and> ldResults d i = Some p) \<and> fair wl src d as"
| "fair wl src d (_ # as) \<longleftrightarrow> fair wl src d as"

lemma fair_append [simp]:
  "fair wl src d (as @ bs) \<longleftrightarrow> fair wl src d as \<and> fair wl src (foldl (apply_rec wl) d (recs_of as)) bs"
  by (induction wl src d as rule: fair.induct) auto

definition adv :: "Workload \<Rightarrow> (Record \<Rightarrow> bool) \<Rightarrow> agg \<Rightarrow> agg \<Rightarrow> bool" where
  "adv wl src s s' \<longleftrightarrow> (\<exists>as. agOut s' = agOut s @ as \<and>
     led_of s' = foldl (apply_rec wl) (led_of s) (recs_of as) \<and> fair wl src (led_of s) as)"

lemma adv_refl: "led_of s' = led_of s \<Longrightarrow> agOut s' = agOut s \<Longrightarrow> adv wl src s s'"
  unfolding adv_def by (rule exI [of _ "[]"]) simp

lemma adv_trans [trans]: "adv wl src s s' \<Longrightarrow> adv wl src s' s'' \<Longrightarrow> adv wl src s s''"
  unfolding adv_def
proof (elim exE conjE)
  fix as bs
  assume "agOut s' = agOut s @ as" "led_of s' = foldl (apply_rec wl) (led_of s) (recs_of as)" "fair wl src (led_of s) as"
    "agOut s'' = agOut s' @ bs" "led_of s'' = foldl (apply_rec wl) (led_of s') (recs_of bs)" "fair wl src (led_of s') bs"
  then show "\<exists>as. agOut s'' = agOut s @ as \<and> led_of s'' = foldl (apply_rec wl) (led_of s) (recs_of as) \<and> fair wl src (led_of s) as"
    by (intro exI [of _ "as @ bs"]) simp
qed

lemma adv_one:
  "agOut s' = agOut s @ [a] \<Longrightarrow> led_of s' = foldl (apply_rec wl) (led_of s) (recs_of [a]) \<Longrightarrow> fair wl src (led_of s) [a] \<Longrightarrow>
   adv wl src s s'"
  unfolding adv_def by blast

lemma adv_inv: "adv wl src s s' \<Longrightarrow> led_inv (led_of s) \<Longrightarrow> led_inv (led_of s')"
  unfolding adv_def using led.run_inv [of "led_of s" _ wl] by (auto simp: list_all_iff)

section \<open>Frames\<close>

text \<open>The fields a caller of the closures relies on.\<close>

lemma emit_simps [simp]:
  "agDone (emit a s) = agDone s" "agJobs (emit a s) = agJobs s" "agResults (emit a s) = agResults s"
  "agByConn (emit a s) = agByConn s" "agLog (emit a s) = agLog s" "agChans (emit a s) = agChans s"
  "agClosed (emit a s) = agClosed s" "agOut (emit a s) = agOut s @ [a]" "agStopped (emit a s) = agStopped s"
  by (simp_all add: emit_def)

lemma record_rec_simps [simp]:
  "agDone (record_rec r b s) = agDone s" "agJobs (record_rec r b s) = agJobs s"
  "agResults (record_rec r b s) = agResults s" "agByConn (record_rec r b s) = agByConn s"
  "agChans (record_rec r b s) = agChans s" "agClosed (record_rec r b s) = agClosed s"
  "agOut (record_rec r b s) = agOut s @ [ALog r]" "agStopped (record_rec r b s) = agStopped s"
  by (simp_all add: record_rec_def Let_def split: option.split prod.split)

lemma led_of_cong:
  "agDone s' = agDone s \<Longrightarrow> agJobs s' = agJobs s \<Longrightarrow> agResults s' = agResults s \<Longrightarrow> led_of s' = led_of s"
  by (simp add: led_of_def)

lemma led_of_simps [simp]:
  "led_of (emit a s) = led_of s" "led_of (record_rec r b s) = led_of s"
  "led_of (s\<lparr>agStats := st\<rparr>) = led_of s" "led_of (s\<lparr>agByConn := m\<rparr>) = led_of s" "led_of (s\<lparr>agChans := n\<rparr>) = led_of s"
  by (rule led_of_cong; simp)+

lemma reply_simps [simp]:
  "agDone (reply h i p s) = agDone s" "agJobs (reply h i p s) = agJobs s" "agResults (reply h i p s) = agResults s"
  "agByConn (reply h i p s) = agByConn s" "agChans (reply h i p s) = agChans s" "agClosed (reply h i p s) = agClosed s"
  "agLog (reply h i p s) = agLog s" "led_of (reply h i p s) = led_of s" "agStopped (reply h i p s) = agStopped s"
  by (simp_all add: reply_def split: option.split)

lemma reattached_simps [simp]:
  "agDone (reattached s) = agDone s" "agJobs (reattached s) = agJobs s" "agResults (reattached s) = agResults s"
  "agByConn (reattached s) = agByConn s" "agChans (reattached s) = agChans s" "agClosed (reattached s) = agClosed s"
  "agLog (reattached s) = agLog s" "led_of (reattached s) = led_of s" "agOut (reattached s) = agOut s"
  "agStopped (reattached s) = agStopped s"
  by (simp_all add: reattached_def led_of_def)

lemma detach_simps:
  assumes "detach j s = (j', s')"
  shows "jSpec j' = jSpec j" "remaining j' = remaining j" "jAcc j' = jAcc j" "jStarted j' = jStarted j"
    "jCancel j' = jCancel j" "jOrphanedAt j' = jOrphanedAt j" "jClient j' = None"
    "agDone s' = agDone s" "agJobs s' = agJobs s" "agResults s' = agResults s" "agOut s' = agOut s"
    "agChans s' = agChans s" "agClosed s' = agClosed s" "agLog s' = agLog s" "led_of s' = led_of s" "agStopped s' = agStopped s"
  using assms by (auto simp: detach_def led_of_def split: option.splits)

lemma ldJobs_led_of [simp]: "ldJobs (led_of s) i = map_option (\<lambda>j. (jSpec j, remaining j, jAcc j)) (mget (agJobs s) i)"
  and ldResults_led_of [simp]: "ldResults (led_of s) i = map_option fResult (mget (agResults s) i)"
  and ldDone_led_of [simp]: "ldDone (led_of s) = agDone s"
  by (simp_all add: led_of_def)

lemma adv_reply:
  assumes "job_complete (led_of s) i p \<or> ldResults (led_of s) i = Some p"
  shows "adv wl src s (reply h i p s)"
proof (cases h)
  case None
  then show ?thesis by (simp add: reply_def adv_refl)
next
  case (Some c)
  then show ?thesis using assms by (intro adv_one [of _ _ "AWrite c (MResult (Result i (Hash p) (Nonce p)))"]) (simp_all add: reply_def)
qed

section \<open>Finishing a job\<close>

lemma job_tasks_diff: "D - job_tasks i n = {t \<in> D. \<not> (Job t = i \<and> Idx t < n)}"
proof -
  have "t \<in> job_tasks i n \<longleftrightarrow> Job t = i \<and> Idx t < n" for t
    by (cases t) (auto simp: job_tasks_def set_idxs image_iff)
  then show ?thesis by auto
qed

lemma ledger_eqI:
  "ldDone d = ldDone d' \<Longrightarrow> (\<And>i. ldJobs d i = ldJobs d' i) \<Longrightarrow> (\<And>i. ldResults d i = ldResults d' i) \<Longrightarrow> d = d'"
  for d d' :: ledger
  by (cases d; cases d') (auto simp: fun_eq_iff)

lemma led_of_drop:
  assumes "mget (agJobs s) i = Some j'" "sN (jSpec j') = n" "agDone s1 = agDone s - job_tasks i n"
    "agJobs s1 = mdel (agJobs s) i" "agResults s1 = agResults s"
  shows "led_of s1 = drop_job i (led_of s)"
  by (rule ledger_eqI) (use assms in \<open>auto simp: drop_job_def job_tasks_diff\<close>)

lemma finish_job_simps:
  assumes j: "i = sId (jSpec j)"
  shows "agJobs (finish_job clk j b s) = mdel (agJobs s) i"
    "agDone (finish_job clk j b s) = agDone s - job_tasks i (sN (jSpec j))"
    "agResults (finish_job clk j b s) = (if b then mput (agResults s) i \<lparr>fResult = jAcc j, fAt = clk 0\<rparr> else agResults s)"
    "agOut (finish_job clk j b s) = agOut s @ [ALog (if b then JobDone i (Hash (jAcc j)) (Nonce (jAcc j)) else JobDrop i), AOnJobEnd i b]"
    "agByConn (finish_job clk j b s) = (case jClient j of None \<Rightarrow> agByConn s | Some c \<Rightarrow> mdel (agByConn s) c)"
    "agClosed (finish_job clk j b s) = agClosed s @ [jCancel j]"
    "agChans (finish_job clk j b s) = agChans s" "agStopped (finish_job clk j b s) = agStopped s"
  using j by (auto simp: finish_job_def detach_def Let_def split: option.split)

lemma adv_finish:
  assumes job: "mget (agJobs s) (sId (jSpec j)) = Some j'" "jSpec j' = jSpec j" "remaining j' = remaining j" "jAcc j' = jAcc j"
    and inv: "led_inv (led_of s)" and b: "b \<Longrightarrow> remaining j = 0"
  shows "adv wl src s (finish_job clk j b s)"
proof -
  let ?i = "sId (jSpec j)" and ?s = "finish_job clk j b s"
  have e: "entry_inv ?i (ldJobs (led_of s) ?i) (counted (led_of s) ?i) (ldResults (led_of s) ?i)"
    by (rule led_invD [OF inv])
  then have res: "mget (agResults s) ?i = None" using job by simp
  define s1 where "s1 = s\<lparr>agDone := agDone s - job_tasks ?i (sN (jSpec j)), agJobs := mdel (agJobs s) ?i\<rparr>"
  have s1: "led_of s1 = drop_job ?i (led_of s)"
    by (rule led_of_drop [OF job(1)]) (simp_all add: s1_def job)
  let ?as = "[ALog (if b then JobDone ?i (Hash (jAcc j)) (Nonce (jAcc j)) else JobDrop ?i), AOnJobEnd ?i b]"
  have "led_of ?s = foldl (apply_rec wl) (led_of s) (recs_of ?as)"
  proof (rule ledger_eqI)
    have d: "ldDone (led_of ?s) = ldDone (led_of s1)" by (simp add: finish_job_simps s1_def)
    then show "ldDone (led_of ?s) = ldDone (foldl (apply_rec wl) (led_of s) (recs_of ?as))"
      unfolding s1 by (simp add: Let_def)
    show "ldJobs (led_of ?s) k = ldJobs (foldl (apply_rec wl) (led_of s) (recs_of ?as)) k" for k
      by (simp add: finish_job_simps Let_def)
    show "ldResults (led_of ?s) k = ldResults (foldl (apply_rec wl) (led_of s) (recs_of ?as)) k" for k
      using res by (simp add: finish_job_simps Let_def)
  qed
  moreover have "fair wl src (led_of s) ?as"
    using job b by (auto simp: job_complete_def)
  ultimately show ?thesis
    unfolding adv_def using finish_job_simps(4) [of ?i j clk b s] by blast
qed

section \<open>The handlers\<close>

text \<open>Writing a changed job back.\<close>

lemma led_of_put_job:
  assumes "agDone s' = agDone s" "agJobs s' = mput (agJobs s) i j'" "agResults s' = agResults s"
    "mget (agJobs s) i = Some j" "jSpec j' = jSpec j" "remaining j' = remaining j" "jAcc j' = jAcc j"
  shows "led_of s' = led_of s"
  by (rule ledger_eqI) (use assms in auto)

lemma attach_simps:
  assumes "attach now h g i j s = (j', s')"
  shows "jSpec j' = jSpec j" "remaining j' = remaining j" "jAcc j' = jAcc j" "jCancel j' = jCancel j"
    "agDone s' = agDone s" "agJobs s' = agJobs s" "agResults s' = agResults s" "agOut s' = agOut s"
    "agChans s' = agChans s" "agClosed s' = agClosed s" "agLog s' = agLog s" "led_of s' = led_of s" "agStopped s' = agStopped s"
  using assms by (auto simp: attach_def split: if_splits)

definition start_rec :: "jobSpec \<Rightarrow> Record" where
  "start_rec spec = JobStart (sId spec) (sLo spec) (sHi spec) (sSize spec) (sN spec) (sMsg spec)"

definition chunk_rec :: "ChunkResult \<Rightarrow> Record" where
  "chunk_rec r = ChunkDone (Job (crID r)) (Idx (crID r)) (crHash r) (crNonce r)"

lemma jobSpec_collapse: "jobSpec (sId spec) (sLo spec) (sHi spec) (sSize spec) (sN spec) (sMsg spec) = spec"
  by simp

lemma adv_join:
  assumes "join_job wl now spec s = (b, j, s')" "mget (agResults s) (sId spec) = None" "src (start_rec spec)"
  shows "adv wl src s s'" "\<exists>j'. mget (agJobs s') (sId spec) = Some j' \<and> jSpec j' = jSpec j \<and> remaining j' = remaining j \<and> jAcc j' = jAcc j"
proof -
  show "\<exists>j'. mget (agJobs s') (sId spec) = Some j' \<and> jSpec j' = jSpec j \<and> remaining j' = remaining j \<and> jAcc j' = jAcc j"
    using assms(1) by (auto simp: join_job_def detach_def Let_def split: option.splits)
  show "adv wl src s s'"
  proof (cases "mget (agJobs s) (sId spec)")
    case (Some j0)
    with assms(1) show ?thesis
      by (intro adv_refl) (auto simp: join_job_def detach_def Let_def split: option.splits)
  next
    case None
    have "led_of s' = apply_rec wl (led_of s) (start_rec spec)"
      by (rule ledger_eqI) (use None assms in \<open>auto simp: join_job_def start_rec_def newJob_def Let_def\<close>)
    with None assms show ?thesis
      by (intro adv_one [of _ _ "ALog (start_rec spec)"]) (auto simp: join_job_def start_rec_def Let_def)
  qed
qed

lemma led_inv_spec: "led_inv (led_of s) \<Longrightarrow> mget (agJobs s) i = Some j \<Longrightarrow> sId (jSpec j) = i"
  using led_invD [of "led_of s" i] by simp

lemma led_inv_answered: "led_inv (led_of s) \<Longrightarrow> mget (agResults s) i = Some f \<Longrightarrow> mget (agJobs s) i = None"
  using led_invD [of "led_of s" i] by (cases "mget (agJobs s) i") auto

lemma adv_submit:
  assumes inv: "led_inv (led_of s)" and src: "src (start_rec spec)"
  shows "adv wl src s (submit wl clk h gone spec s)"
proof (cases "mget (agResults s) (sId spec)")
  case (Some f)
  have "adv wl src s (reply (Some h) (sId spec) (fResult f) s)"
    using Some by (intro adv_reply) simp
  also have "adv wl src \<dots> (submit wl clk h gone spec s)"
    using Some by (intro adv_one [of _ _ "ASubmitReply False None"]) (simp_all add: submit_def Let_def)
  finally show ?thesis .
next
  case None
  obtain b j s1 where jn: "join_job wl (clk 0) spec s = (b, j, s1)" by (metis prod_cases3)
  obtain j2 s2 where at: "attach (clk 1) h gone (sId spec) j s1 = (j2, s2)" by fastforce
  define s3 where "s3 = emit (ASubmitReply (\<not> b) (Some (jCancel j2))) (s2\<lparr>agJobs := mput (agJobs s2) (sId spec) j2\<rparr>)"
  note a = attach_simps [OF at]
  obtain j' where j': "mget (agJobs s1) (sId spec) = Some j'" "jSpec j' = jSpec j" "remaining j' = remaining j" "jAcc j' = jAcc j"
    using adv_join(2) [OF jn None, of "\<lambda>_. True"] by blast
  have s3: "led_of s3 = led_of s1"
    by (rule led_of_put_job [where i = "sId spec" and j' = j2 and j = j']) (simp_all add: s3_def a j')
  have "adv wl src s s1" by (rule adv_join(1) [where src = src, OF jn None src])
  also have "adv wl src s1 s3"
    using s3 by (intro adv_one [of _ _ "ASubmitReply (\<not> b) (Some (jCancel j2))"]) (simp_all add: s3_def a)
  finally have s: "adv wl src s s3" .
  then have inv3: "led_inv (led_of s3)" using inv by (rule adv_inv)
  have job: "mget (agJobs s3) (sId spec) = Some j2" by (simp add: s3_def)
  then have id: "sId (jSpec j2) = sId spec" by (rule led_inv_spec [OF inv3])
  have fin: "adv wl src s3 (finish_job clk' j2 True (reply (jClient j2) (sId spec) (jAcc j2) s3))"
    if "remaining j2 = 0" for clk'
  proof -
    have "adv wl src s3 (reply (jClient j2) (sId spec) (jAcc j2) s3)"
      using that job by (intro adv_reply) (simp add: job_complete_def)
    also have "adv wl src \<dots> (finish_job clk' j2 True \<dots>)"
      using that job id inv3 by (intro adv_finish) simp_all
    finally show ?thesis .
  qed
  have "submit wl clk h gone spec s =
      (if remaining j2 = 0 then finish_job (\<lambda>k. clk (k + 2)) j2 True (reply (jClient j2) (sId spec) (jAcc j2) s3) else s3)"
    using None by (simp add: submit_def Let_def jn at [unfolded One_nat_def] s3_def)
  with s fin adv_trans show ?thesis by (cases "remaining j2 = 0") (auto intro: adv_trans)
qed

lemma adv_discard: "adv wl src s (discard t dup s)"
  by (rule adv_one [of _ _ "AOnDiscard t dup"]) (simp_all add: discard_def Let_def)

lemma adv_count:
  assumes job: "mget (agJobs s) (Job (crID r)) = Some j" and new: "Idx (crID r) < sN (jSpec j)" "crID r \<notin> agDone s"
    and src: "src (chunk_rec r)" and c: "count_result wl r j s = (j1, s1)"
  shows "adv wl src s s1" "mget (agJobs s1) (Job (crID r)) = Some j1"
proof -
  have s1: "agJobs s1 = mput (agJobs s) (Job (crID r)) j1" "agDone s1 = insert (crID r) (agDone s)" "agResults s1 = agResults s"
    "agOut s1 = agOut s @ [ALog (chunk_rec r), AOnMerge (crID r)]"
    and j1: "jSpec j1 = jSpec j" "remaining j1 = remaining j - 1" "jAcc j1 = wlMerge wl (jAcc j) (Partial (crHash r) (crNonce r))"
    using c by (auto simp: count_result_def Let_def chunk_rec_def)
  then show "mget (agJobs s1) (Job (crID r)) = Some j1" by simp
  let ?as = "[ALog (chunk_rec r), AOnMerge (crID r)]"
  have "led_of s1 = foldl (apply_rec wl) (led_of s) (recs_of ?as)"
    by (rule ledger_eqI) (use s1 j1 job new in \<open>auto simp: chunk_rec_def\<close>)
  moreover have "fair wl src (led_of s) ?as" using src by (simp add: chunk_rec_def)
  ultimately show "adv wl src s s1" using s1(4) unfolding adv_def by blast
qed

lemma adv_result:
  assumes inv: "led_inv (led_of s)" and src: "src (chunk_rec r)"
  shows "adv wl src s (on_result wl clk r s)"
proof (cases "mget (agJobs s) (Job (crID r))")
  case None
  then show ?thesis by (simp add: on_result_def Let_def adv_discard)
next
  case (Some j)
  show ?thesis
  proof (cases "Idx (crID r) \<ge> sN (jSpec j) \<or> crID r \<in> agDone s")
    case True
    with Some show ?thesis by (simp add: on_result_def Let_def adv_discard)
  next
    case False
    obtain j1 s1 where c: "count_result wl r j s = (j1, s1)" by fastforce
    have s1: "adv wl src s s1" and job: "mget (agJobs s1) (Job (crID r)) = Some j1"
      using adv_count [where src = src, OF Some _ _ src c] False by (auto simp: not_le)
    have inv1: "led_inv (led_of s1)" by (rule adv_inv [OF s1 inv])
    then have id: "sId (jSpec j1) = Job (crID r)" using job by (rule led_inv_spec)
    have "adv wl src s1 (finish_job clk j1 True (reply (jClient j1) (Job (crID r)) (jAcc j1) s1))" if "remaining j1 = 0"
    proof -
      have "adv wl src s1 (reply (jClient j1) (Job (crID r)) (jAcc j1) s1)"
        using that job by (intro adv_reply) (simp add: job_complete_def)
      also have "adv wl src \<dots> (finish_job clk j1 True \<dots>)"
        using that job id inv1 by (intro adv_finish) simp_all
      finally show ?thesis .
    qed
    with Some False c s1 show ?thesis
      by (auto simp: on_result_def Let_def intro: adv_trans)
  qed
qed

lemma adv_client_gone: "adv wl src s (client_gone now c s)"
proof -
  have "led_of (client_gone now c s) = led_of s"
  proof (rule ledger_eqI)
    show "ldDone (led_of (client_gone now c s)) = ldDone (led_of s)"
      by (auto simp: client_gone_def Let_def detach_def split: option.split)
    show "ldJobs (led_of (client_gone now c s)) i = ldJobs (led_of s) i" for i
      by (auto simp: client_gone_def Let_def detach_def split: option.split)
    show "ldResults (led_of (client_gone now c s)) i = ldResults (led_of s) i" for i
      by (auto simp: client_gone_def Let_def detach_def split: option.split)
  qed
  moreover have "agOut (client_gone now c s) = agOut s"
    by (auto simp: client_gone_def Let_def detach_def split: option.split)
  ultimately show ?thesis by (rule adv_refl)
qed

section \<open>Housekeeping\<close>

lemma mget_finish_other:
  "k \<noteq> sId (jSpec j) \<Longrightarrow> mget (agJobs (finish_job clk j b s)) k = mget (agJobs s) k"
  by (simp add: finish_job_simps(1))

lemma adv_drop_orphan:
  assumes "mget (agJobs s) i = Some j" "led_inv (led_of s)"
  shows "adv wl src s (drop_orphan now g s (i, j))"
  using assms led_inv_spec [OF assms(2,1)]
  by (auto simp: drop_orphan_def intro: adv_finish adv_refl split: option.split)

lemma mget_drop_orphan:
  assumes "mget (agJobs s) i = Some j" "led_inv (led_of s)" "k \<noteq> i"
  shows "mget (agJobs (drop_orphan now g s (i, j))) k = mget (agJobs s) k"
  using assms led_inv_spec [OF assms(2,1)] by (auto simp: drop_orphan_def mget_finish_other split: option.split)

lemma adv_drop_orphans:
  "mwf es \<Longrightarrow> \<forall>(i, j) \<in> set es. mget (agJobs s) i = Some j \<Longrightarrow> led_inv (led_of s) \<Longrightarrow>
   adv wl src s (foldl (drop_orphan now g) s es)"
proof (induction es arbitrary: s)
  case Nil
  then show ?case by (simp add: adv_refl)
next
  case (Cons e es)
  obtain i j where e: "e = (i, j)" by (cases e)
  let ?s = "drop_orphan now g s (i, j)"
  have job: "mget (agJobs s) i = Some j" using Cons.prems(2) e by simp
  have st: "adv wl src s ?s" by (rule adv_drop_orphan [OF job Cons.prems(3)])
  have "mget (agJobs ?s) i' = Some j'" if "(i', j') \<in> set es" for i' j'
  proof -
    have "i' \<noteq> i" using that Cons.prems(1) e by (force simp: mwf_def)
    then show ?thesis using mget_drop_orphan [OF job Cons.prems(3)] Cons.prems(2) that by auto
  qed
  moreover have "mwf es" using Cons.prems(1) by (simp add: mwf_def)
  ultimately have "adv wl src ?s (foldl (drop_orphan now g) ?s es)"
    using Cons.IH adv_inv [OF st Cons.prems(3)] by fast
  with st e show ?case by (auto intro: adv_trans)
qed

lemma adv_expire:
  assumes "mget (agResults s) i = Some f" "led_inv (led_of s)"
  shows "adv wl src s (expire_result now ttl s (i, f))"
proof (cases "now - fAt f > ttl")
  case True
  have "ldJobs (led_of s) i = None"
    using led_inv_answered [OF assms(2,1)] by simp
  then have "drop_job i (led_of s) = led_of s" by (simp add: drop_job_def)
  then have "led_of (expire_result now ttl s (i, f)) = apply_rec wl (led_of s) (JobDrop i)"
    using True by (intro ledger_eqI) (auto simp: expire_result_def Let_def)
  with True show ?thesis
    by (intro adv_one [of _ _ "ALog (JobDrop i)"]) (simp_all add: expire_result_def)
next
  case False
  then show ?thesis by (simp add: expire_result_def adv_refl)
qed

lemma adv_expires:
  "mwf es \<Longrightarrow> \<forall>(i, f) \<in> set es. mget (agResults s) i = Some f \<Longrightarrow> led_inv (led_of s) \<Longrightarrow>
   adv wl src s (foldl (expire_result now ttl) s es)"
proof (induction es arbitrary: s)
  case Nil
  then show ?case by (simp add: adv_refl)
next
  case (Cons e es)
  obtain i f where e: "e = (i, f)" by (cases e)
  let ?s = "expire_result now ttl s (i, f)"
  have st: "adv wl src s ?s" using Cons.prems e by (intro adv_expire) auto
  have "mget (agResults ?s) i' = Some f'" if "(i', f') \<in> set es" for i' f'
  proof -
    have "i' \<noteq> i" using that Cons.prems(1) e by (force simp: mwf_def)
    then show ?thesis using Cons.prems(2) that by (auto simp: expire_result_def)
  qed
  moreover have "mwf es" using Cons.prems(1) by (simp add: mwf_def)
  ultimately have "adv wl src ?s (foldl (expire_result now ttl) ?s es)"
    using Cons.IH adv_inv [OF st Cons.prems(3)] by fast
  with st e show ?case by (auto intro: adv_trans)
qed

lemma snapshot_stored:
  assumes "mwf rs" "r \<in> set (snapshotResults rs)"
  shows "\<exists>i f. r = JobDone i (Hash (fResult f)) (Nonce (fResult f)) \<and> mget rs i = Some f"
  using assms by (force simp: snapshotResults_def mget_mem)

lemma apply_snapshot:
  assumes "ldDone d = {}" "ldJobs d = Map.empty" "mwf rs"
  shows "ldDone (foldl (apply_rec wl) d (snapshotResults rs)) = {} \<and> ldJobs (foldl (apply_rec wl) d (snapshotResults rs)) = Map.empty \<and>
    ldResults (foldl (apply_rec wl) d (snapshotResults rs)) k = (case mget rs k of None \<Rightarrow> ldResults d k | Some f \<Rightarrow> Some (fResult f))"
  using assms
proof (induction rs arbitrary: d)
  case Nil
  then show ?case by (simp add: snapshotResults_def mget_def)
next
  case (Cons e rs)
  obtain i f where e: "e = (i, f)" by (cases e)
  have other: "mget rs i = None" using Cons.prems(3) e by (force simp: mwf_def mget_def map_of_eq_None_iff)
  have d1: "apply_rec wl d (JobDone i (Hash (fResult f)) (Nonce (fResult f))) = d\<lparr>ldResults := (ldResults d)(i \<mapsto> fResult f)\<rparr>"
    using Cons.prems by (simp add: drop_job_def)
  have s: "snapshotResults (e # rs) = JobDone i (Hash (fResult f)) (Nonce (fResult f)) # snapshotResults rs"
    by (simp add: snapshotResults_def e)
  have "mwf rs" using Cons.prems(3) by (simp add: mwf_def)
  note IH = Cons.IH [of "d\<lparr>ldResults := (ldResults d)(i \<mapsto> fResult f)\<rparr>", simplified, OF Cons.prems(1,2) this]
  show ?case
    unfolding s foldl.simps d1 using IH other by (cases "k = i") (simp_all add: e mget_def split: option.split)
qed

lemma snapshot_replay:
  assumes "agJobs s = []" "led_inv (led_of s)" "mwf (agResults s)"
  shows "replay_led wl (snapshotResults (agResults s)) = led_of s"
proof -
  have c: "counted (led_of s) i = {}" for i
    using led_invD [OF assms(2), of i] assms(1) by (simp add: mget_def)
  have d: "agDone s = {}"
  proof (rule equals0I)
    fix t
    assume "t \<in> agDone s"
    then have "Idx t \<in> counted (led_of s) (Job t)" by (simp add: counted_def)
    with c show False by simp
  qed
  note a = apply_snapshot [of empty_ledger "agResults s" wl, OF _ _ assms(3)]
  show ?thesis
    unfolding replay_led_def
    by (rule ledger_eqI) (use a d assms(1) in \<open>simp_all add: empty_ledger_def mget_def split: option.split\<close>)
qed

lemma adv_compact:
  assumes "mwf (agResults s)" "led_inv (led_of s)"
  shows "adv wl src s (compact_log s)"
proof (cases "agLog s")
  case None
  then show ?thesis by (simp add: compact_log_def adv_refl)
next
  case (Some l)
  show ?thesis
  proof (cases "agJobs s = [] \<and> Size l > compactAbove")
    case True
    obtain l' ok where r: "Rewrite (tmpOpened (agDev s 0)) (ioTmp (agDev s 0)) (ioFlush (agDev s 0)) (fsyncOk (agDev s 0))
        (renamedOk (agDev s 0)) (snapshotResults (agResults s)) l = (l', ok)" by fastforce
    have "fair wl src (led_of s) [ACompact (snapshotResults (agResults s)) ok]"
      using snapshot_stored [OF assms(1)] snapshot_replay [OF _ assms(2,1)] True by fastforce
    then show ?thesis
      by (intro adv_one [of _ _ "ACompact (snapshotResults (agResults s)) ok"])
        (use Some True r in \<open>simp_all add: compact_log_def Let_def led_of_def\<close>)
  next
    case False
    with Some show ?thesis by (intro adv_refl) (auto simp: compact_log_def)
  qed
qed

lemma adv_sync: "adv wl src s (sync_log s)"
  by (rule adv_refl) (simp_all add: sync_log_def led_of_def Let_def split: option.split prod.split)

section \<open>Well-formed maps\<close>

definition agg_wf :: "agg \<Rightarrow> bool" where
  "agg_wf s \<longleftrightarrow> mwf (agJobs s) \<and> mwf (agResults s) \<and> mwf (agByConn s)"

lemma agg_wf_finish: "agg_wf s \<Longrightarrow> agg_wf (finish_job clk j b s)"
  by (simp add: agg_wf_def finish_job_simps split: option.split)

lemma agg_wf_simps [simp]:
  "agg_wf (emit a s) = agg_wf s" "agg_wf (record_rec r b s) = agg_wf s" "agg_wf (reply h i p s) = agg_wf s"
  "agg_wf (reattached s) = agg_wf s" "agg_wf (s\<lparr>agStats := st\<rparr>) = agg_wf s"
  by (simp_all add: agg_wf_def)

lemma agg_wf_submit:
  assumes "agg_wf s"
  shows "agg_wf (submit wl clk h gone spec s)"
proof -
  have j: "agg_wf s1" if "join_job wl (clk 0) spec s = (b, j, s1)" for b j s1
    using that assms by (auto simp: join_job_def agg_wf_def detach_def Let_def split: option.splits)
  have a: "agg_wf s2" if "attach t h gone i j s1 = (j2, s2)" "agg_wf s1" for t i j s1 j2 s2
    using that by (auto simp: attach_def agg_wf_def split: if_splits)
  have m: "agg_wf (s2\<lparr>agJobs := mput (agJobs s2) i j\<rparr>)" if "agg_wf s2" for s2 i j
    using that by (simp add: agg_wf_def)
  show ?thesis
    using assms by (auto simp: submit_def Let_def split: option.split prod.split dest!: j a intro!: agg_wf_finish m)
qed

lemma agg_wf_result: "agg_wf s \<Longrightarrow> agg_wf (on_result wl clk r s)"
  by (auto simp: on_result_def discard_def count_result_def Let_def split: option.split intro!: agg_wf_finish)
    (auto simp: agg_wf_def)

lemma agg_wf_client_gone: "agg_wf s \<Longrightarrow> agg_wf (client_gone now c s)"
  by (auto simp: client_gone_def detach_def agg_wf_def Let_def split: option.split)

lemma agg_wf_drop_orphans: "agg_wf s \<Longrightarrow> agg_wf (foldl (drop_orphan now g) s es)"
  by (induction es arbitrary: s) (auto simp: drop_orphan_def agg_wf_finish split: option.split)

lemma agg_wf_expires: "agg_wf s \<Longrightarrow> agg_wf (foldl (expire_result now ttl) s es)"
  by (induction es arbitrary: s) (auto simp: expire_result_def agg_wf_def)

lemma agg_wf_logs:
  "agg_wf (compact_log s) = agg_wf s" "agg_wf (sync_log s) = agg_wf s" "agg_wf (stop_agg s) = agg_wf s"
  by (simp_all add: agg_wf_def compact_log_def sync_log_def stop_agg_def Let_def split: option.split prod.split)

section \<open>The step\<close>

definition agg_inv :: "agg \<Rightarrow> bool" where
  "agg_inv s \<longleftrightarrow> led_inv (led_of s) \<and> agg_wf s"

lemma adv_tick:
  assumes "agg_inv s"
  shows "adv wl src s (tick p now s)"
proof -
  define s1 where "s1 = foldl (drop_orphan now (JobGraceMs p * Millisecond)) s (agJobs s)"
  define s2 where "s2 = foldl (expire_result now (ResultTTLMs p * Millisecond)) s1 (agResults s1)"
  have wf: "mwf (agJobs s)" "led_inv (led_of s)" using assms by (simp_all add: agg_inv_def agg_wf_def)
  have 1: "adv wl src s s1" unfolding s1_def
    by (rule adv_drop_orphans) (use wf in \<open>auto simp: mget_mem\<close>)
  have "agg_wf s1" using assms unfolding s1_def agg_inv_def by (simp add: agg_wf_drop_orphans)
  then have 2: "adv wl src s1 s2" unfolding s2_def
    by (intro adv_expires adv_inv [OF 1 wf(2)]) (auto simp: agg_wf_def mget_mem)
  have "mwf (agResults s2)"
    using \<open>agg_wf s1\<close> agg_wf_expires [of s1] unfolding s2_def by (simp add: agg_wf_def)
  then have "adv wl src s2 (compact_log s2)"
    by (rule adv_compact [OF _ adv_inv [OF adv_trans [OF 1 2] wf(2)]])
  then have "adv wl src s (sync_log (compact_log s2))"
    using 1 2 adv_sync adv_trans by metis
  then show ?thesis by (simp add: tick_def s1_def s2_def Let_def)
qed

text \<open>The records an event may put into the log on its own account.\<close>

fun ev_src :: "agg_event \<Rightarrow> Record \<Rightarrow> bool" where
  "ev_src (ESubmit h gone spec) r \<longleftrightarrow> r = start_rec spec"
| "ev_src (EResult c) r \<longleftrightarrow> r = chunk_rec c"
| "ev_src _ r \<longleftrightarrow> False"

lemma adv_stop: "adv wl src s (stop_agg s)"
  by (rule adv_refl) (simp_all add: stop_agg_def led_of_def Let_def split: option.split)

lemma adv_publish: "adv wl src s (publish_agg p r s)"
proof (cases "hasAggStats p \<and> r")
  case True
  then show ?thesis
    by (intro adv_one [of _ _ "APublish ((agStats s)\<lparr>ActiveJobs := length (agJobs s)\<rparr>)"]) (simp_all add: publish_agg_def Let_def)
next
  case False
  then show ?thesis by (intro adv_refl) (simp_all add: publish_agg_def Let_def)
qed

lemma adv_handle:
  assumes "agg_inv s"
  shows "adv wl (ev_src ev) s (handle p wl clk ev s)"
  using assms adv_submit [of s "ev_src ev"] adv_result [of s "ev_src ev"]
  by (cases ev) (auto simp: agg_inv_def adv_client_gone adv_stop intro: adv_tick)

lemma adv_step:
  assumes "agg_inv s"
  shows "adv wl (ev_src (snd (snd e))) s (agg_step p wl s e)"
  using adv_trans [OF adv_handle [OF assms] adv_publish] adv_stop adv_refl [of s s]
  by (auto simp: agg_step_def split: prod.split)

lemma agg_inv_step:
  assumes "agg_inv s"
  shows "agg_inv (agg_step p wl s e)"
proof -
  have "agg_wf (handle p wl clk ev s)" for clk ev
    using assms by (cases ev)
      (auto simp: agg_inv_def agg_wf_submit agg_wf_result agg_wf_client_gone tick_def agg_wf_logs
        agg_wf_drop_orphans agg_wf_expires Let_def)
  then have "agg_wf (agg_step p wl s e)"
    using assms by (auto simp: agg_step_def publish_agg_def agg_inv_def agg_wf_logs Let_def split: prod.split)
  with adv_inv [OF adv_step [OF assms]] assms show ?thesis by (simp add: agg_inv_def)
qed

interpretation aggm: machine "agg_step p wl" agg_inv "\<lambda>_. True" for p wl
  by unfold_locales (rule agg_inv_step)

section \<open>Answers\<close>

text \<open>What the actions claim about values: answers and records agree with the workload.\<close>

fun act_ok :: "Workload \<Rightarrow> (u64 \<Rightarrow> jobSpec) \<Rightarrow> act \<Rightarrow> bool" where
  "act_ok wl sp (AWrite c (MResult (Result i h x))) \<longleftrightarrow> Partial h x = spec_value wl (sp i)"
| "act_ok wl sp (ALog r) \<longleftrightarrow> honest wl sp r"
| "act_ok wl sp (ACompact recs b) \<longleftrightarrow> list_all (honest wl sp) recs"
| "act_ok wl sp _ \<longleftrightarrow> True"

text \<open>
  Honest input: requests for one identifier always carry the same specification, and a
  worker's result is the value of its task.
\<close>

fun ev_ok :: "Workload \<Rightarrow> (u64 \<Rightarrow> jobSpec) \<Rightarrow> agg_event \<Rightarrow> bool" where
  "ev_ok wl sp (ESubmit h gone spec) \<longleftrightarrow> spec = sp (sId spec)"
| "ev_ok wl sp (EResult r) \<longleftrightarrow> honest wl sp (chunk_rec r)"
| "ev_ok wl sp _ \<longleftrightarrow> True"

lemma ev_src_honest: "ev_ok wl sp ev \<Longrightarrow> ev_src ev r \<Longrightarrow> honest wl sp r"
  by (cases ev) (auto simp: start_rec_def)

context splittable
begin

lemma fair_honest:
  assumes "fair wl src d as" "led_inv d" "led_val wl sp d"
    and src: "\<And>r. src r \<Longrightarrow> honest wl sp r" and sp: "\<And>i. spec_ok (sp i)"
  shows "list_all (act_ok wl sp) as \<and> led_val wl sp (foldl (apply_rec wl) d (recs_of as))"
  using assms(1-3)
proof (induction as arbitrary: d)
  case Nil
  then show ?case by simp
next
  case (Cons a as)
  have cv: "p = spec_value wl (sp i)" if "job_complete d i p" for i p
    using that complete_value [OF Cons.prems(2,3) _ sp] by (auto simp: job_complete_def)
  show ?case
  proof (cases a)
    case (ALog r)
    have h: "honest wl sp r"
    proof -
      have "src r \<or> (\<exists>i h x. r = JobDone i h x \<and> job_complete d i (Partial h x)) \<or> (\<exists>i. r = JobDrop i)"
        using Cons.prems(1) ALog by (cases r) auto
      then show ?thesis using src cv by auto
    qed
    have "fair wl src (apply_rec wl d r) as" using Cons.prems(1) ALog by (cases r) auto
    with Cons.IH led_inv_apply [OF Cons.prems(2)] led_val_apply [OF Cons.prems(2,3) h] ALog h show ?thesis by simp
  next
    case (AWrite c m)
    have "act_ok wl sp a \<and> fair wl src d as"
    proof (cases m)
      case (MResult x)
      obtain i h y where "x = Result i h y" by (cases x)
      with Cons.prems(1) AWrite MResult cv led_valD(2) [OF Cons.prems(3)] show ?thesis by auto
    qed (use Cons.prems(1) AWrite in auto)
    with Cons.IH [OF _ Cons.prems(2,3)] AWrite show ?thesis by simp
  next
    case (ACompact recs b)
    have "honest wl sp r" if "r \<in> set recs" for r
      using that Cons.prems(1) ACompact led_valD(2) [OF Cons.prems(3)] by fastforce
    with Cons.IH [OF _ Cons.prems(2,3)] Cons.prems(1) ACompact show ?thesis by (simp add: list_all_iff)
  qed (use Cons in auto)
qed

end

definition agg_val :: "Workload \<Rightarrow> (u64 \<Rightarrow> jobSpec) \<Rightarrow> agg \<Rightarrow> bool" where
  "agg_val wl sp s \<longleftrightarrow> agg_inv s \<and> led_val wl sp (led_of s) \<and> list_all (act_ok wl sp) (agOut s) \<and> (\<forall>i. spec_ok (sp i))"

lemma agg_val_step:
  assumes v: "agg_val hashsearch sp s" and e: "ev_ok hashsearch sp (snd (snd e))"
  shows "agg_val hashsearch sp (agg_step p hashsearch s e)"
proof -
  have inv: "agg_inv s" using v by (simp add: agg_val_def)
  obtain as where as: "agOut (agg_step p hashsearch s e) = agOut s @ as"
    "led_of (agg_step p hashsearch s e) = foldl (apply_rec hashsearch) (led_of s) (recs_of as)"
    "fair hashsearch (ev_src (snd (snd e))) (led_of s) as"
    using adv_step [OF inv, of hashsearch e p] unfolding adv_def by blast
  have "list_all (act_ok hashsearch sp) as \<and> led_val hashsearch sp (foldl (apply_rec hashsearch) (led_of s) (recs_of as))"
    using v by (intro hs.fair_honest [OF as(3)] ev_src_honest [OF e]) (auto simp: agg_val_def agg_inv_def)
  with v as agg_inv_step [OF inv] show ?thesis by (simp add: agg_val_def)
qed

interpretation aggv: machine "agg_step p hashsearch" "agg_val hashsearch sp" "\<lambda>e. ev_ok hashsearch sp (snd (snd e))" for p sp
  by unfold_locales (rule agg_val_step)

end
