(* ===== verification/Recover.thy ===== *)
theory Recover
  imports AggInv
begin

text \<open>
  Recovery (\<^verbatim>\<open>sched/recover.go\<close>): the replay of the log into jobs, counted tasks and answers, the
  promotion of jobs whose last task was logged, and the compacted log with the list of jobs
  whose tasks must be queued again. The local variable \<^verbatim>\<open>chunks\<close> is the field \<open>rvChunks\<close>; the
  fresh \<^verbatim>\<open>cancel\<close> channels are numbered by \<open>rvChans\<close>. The replay refines the abstract ledger.
\<close>

section \<open>The code\<close>

record recovered =
  rvLog :: "Log option"
  rvDone :: "TaskID set"
  rvJobs :: "(u64, job) gomap"
  rvResults :: "(u64, finished) gomap"
  rvFeeds :: "(jobSpec \<times> u32 set \<times> nat) list"
  rvStats :: AggStats
  rvChunks :: "(u64, Record list) gomap"
  rvChans :: nat

definition no_state :: recovered where
  "no_state = \<lparr>rvLog = None, rvDone = {}, rvJobs = [], rvResults = [], rvFeeds = [],
     rvStats = zeroAggStats, rvChunks = [], rvChans = 0\<rparr>"

definition forget :: "u64 \<Rightarrow> recovered \<Rightarrow> recovered" where
  "forget i r =
     (case mget (rvJobs r) i of
        None \<Rightarrow> r
      | Some j \<Rightarrow> r\<lparr>rvDone := rvDone r - job_tasks i (sN (jSpec j)), rvJobs := mdel (rvJobs r) i\<rparr>)"

text \<open>Reading a missing key of \<^verbatim>\<open>chunks\<close> gives the empty slice.\<close>

definition chunks_of :: "u64 \<Rightarrow> recovered \<Rightarrow> Record list" where
  "chunks_of i r = (case mget (rvChunks r) i of None \<Rightarrow> [] | Some cs \<Rightarrow> cs)"

fun replay :: "Workload \<Rightarrow> time \<Rightarrow> recovered \<Rightarrow> Record \<Rightarrow> recovered" where
  "replay wl now r (JobStart i lo hi sz n msg) =
     (if mget (rvJobs r) i \<noteq> None then r
      else r\<lparr>rvResults := mdel (rvResults r) i,
             rvJobs := mput (rvJobs r) i
               ((newJob wl now (jobSpec i lo hi sz n msg) (rvChans r))\<lparr>jOrphanedAt := Some now\<rparr>),
             rvChans := rvChans r + 1\<rparr>)"
| "replay wl now r (ChunkDone i k h x) =
     (case mget (rvJobs r) i of
        None \<Rightarrow> r
      | Some j \<Rightarrow>
          if k \<ge> sN (jSpec j) \<or> TaskID i k \<in> rvDone r then r
          else r\<lparr>rvDone := insert (TaskID i k) (rvDone r),
                 rvJobs := mput (rvJobs r) i (j\<lparr>jAcc := wlMerge wl (jAcc j) (Partial h x), remaining := remaining j - 1\<rparr>),
                 rvChunks := mput (rvChunks r) i (chunks_of i r @ [ChunkDone i k h x])\<rparr>)"
| "replay wl now r (JobDone i h x) =
     (let r1 = forget i r in r1\<lparr>rvResults := mput (rvResults r1) i \<lparr>fResult = Partial h x, fAt = now\<rparr>\<rparr>)"
| "replay wl now r (JobDrop i) =
     (let r1 = forget i r in r1\<lparr>rvResults := mdel (rvResults r1) i\<rparr>)"

definition promote :: "time \<Rightarrow> recovered \<Rightarrow> u64 \<times> job \<Rightarrow> recovered" where
  "promote now r e =
     (if remaining (snd e) = 0 then
        let r1 = forget (fst e) r
        in r1\<lparr>rvResults := mput (rvResults r1) (fst e) \<lparr>fResult = jAcc (snd e), fAt = now\<rparr>\<rparr>
      else r)"

fun rec_idx :: "Record \<Rightarrow> u32" where
  "rec_idx (ChunkDone i k h x) = k"
| "rec_idx _ = 0"

text \<open>One turn of the compaction loop: the records of a running job, and its feed.\<close>

definition job_recs :: "recovered \<Rightarrow> u64 \<times> job \<Rightarrow> Record list" where
  "job_recs r e = (let spec = jSpec (snd e) in
     JobStart (fst e) (sLo spec) (sHi spec) (sSize spec) (sN spec) (sMsg spec) # chunks_of (fst e) r)"

definition skip_of :: "recovered \<Rightarrow> u64 \<Rightarrow> u32 set" where
  "skip_of r i = set (map rec_idx (chunks_of i r))"

definition compact_recs :: "recovered \<Rightarrow> Record list" where
  "compact_recs r = snapshotResults (rvResults r) @ concat (map (job_recs r) (rvJobs r))"

definition add_feed :: "recovered \<Rightarrow> u64 \<times> job \<Rightarrow> recovered" where
  "add_feed r e =
     (let skip = skip_of r (fst e); st = rvStats r
      in r\<lparr>rvFeeds := rvFeeds r @ [(jSpec (snd e), skip, jCancel (snd e))],
           rvStats := st\<lparr>JobsRecovered := JobsRecovered st + 1, ChunksRecovered := ChunksRecovered st + of_nat (card skip)\<rparr>\<rparr>)"

text \<open>The state after the replay of \<open>recs\<close>: what \<^verbatim>\<open>recover\<close> computes between opening and rewriting.\<close>

definition rebuild :: "Workload \<Rightarrow> time \<Rightarrow> Log \<Rightarrow> Record list \<Rightarrow> recovered" where
  "rebuild wl now l recs =
     (let r1 = foldl (replay wl now) (no_state\<lparr>rvLog := Some l\<rparr>) recs;
          r2 = foldl (promote now) r1 (rvJobs r1)
      in foldl add_feed r2 (rvJobs r2))"

text \<open>
  \<open>opened\<close>, \<open>truncated\<close> and \<open>sought\<close> are the outcomes of \<^verbatim>\<open>wal.Open\<close>, \<open>w\<close> that of
  \<^verbatim>\<open>log.Rewrite\<close>; \<open>None\<close> is the error.
\<close>

definition recover_sched :: "schedParams \<Rightarrow> Workload \<Rightarrow> time \<Rightarrow> bool \<Rightarrow> bool \<Rightarrow> bool \<Rightarrow> wio \<Rightarrow> bytes \<Rightarrow> recovered option go" where
  "recover_sched p wl now opened truncated sought w img =
     (if WALPath p = [] then Ret (Some no_state)
      else go_bind (Open opened truncated sought img) (\<lambda>op. case op of
        None \<Rightarrow> Ret None
      | Some (l, recs) \<Rightarrow>
          let r = rebuild wl now l recs in
          if length recs > 0 then
            (case Rewrite (tmpOpened w) (ioTmp w) (ioFlush w) (fsyncOk w) (renamedOk w) (compact_recs r) l of
               (l', ok) \<Rightarrow> if ok then Ret (Some (r\<lparr>rvLog := Some l'\<rparr>)) else Ret None)
          else Ret (Some r)))"

text \<open>The aggregator's state at the start of \<^verbatim>\<open>aggregator(boot)\<close>.\<close>

definition boot_agg :: "(nat \<Rightarrow> wio) \<Rightarrow> recovered \<Rightarrow> agg" where
  "boot_agg dev r = \<lparr>agDone = rvDone r, agJobs = rvJobs r, agResults = rvResults r, agByConn = [],
     agLog = rvLog r, agDirty = False, agStats = rvStats r, agStopped = False, agChans = rvChans r,
     agClosed = [], agDev = dev, agOut = []\<rparr>"

section \<open>The replay refines the ledger\<close>

definition rv_led :: "recovered \<Rightarrow> ledger" where
  "rv_led r = \<lparr>ldDone = rvDone r,
     ldJobs = (\<lambda>i. map_option (\<lambda>j. (jSpec j, remaining j, jAcc j)) (mget (rvJobs r) i)),
     ldResults = (\<lambda>i. map_option fResult (mget (rvResults r) i))\<rparr>"

lemma rv_led_simps [simp]:
  "ldDone (rv_led r) = rvDone r"
  "ldJobs (rv_led r) i = map_option (\<lambda>j. (jSpec j, remaining j, jAcc j)) (mget (rvJobs r) i)"
  "ldResults (rv_led r) i = map_option fResult (mget (rvResults r) i)"
  by (simp_all add: rv_led_def)

definition rv_wf :: "recovered \<Rightarrow> bool" where
  "rv_wf r \<longleftrightarrow> mwf (rvJobs r) \<and> mwf (rvResults r) \<and> led_inv (rv_led r)"

lemma forget_led: "rv_led (forget i r) = drop_job i (rv_led r)"
  by (rule ledger_eqI) (auto simp: forget_def drop_job_def job_tasks_diff split: option.split)

lemma forget_simps [simp]:
  "mget (rvJobs (forget i r)) k = (if k = i then None else mget (rvJobs r) k)" "rvResults (forget i r) = rvResults r"
  "mwf (rvJobs r) \<Longrightarrow> mwf (rvJobs (forget i r))" "rvLog (forget i r) = rvLog r" "rvChunks (forget i r) = rvChunks r"
  "rvFeeds (forget i r) = rvFeeds r" "rvChans (forget i r) = rvChans r" "rvStats (forget i r) = rvStats r"
  by (auto simp: forget_def split: option.split)

lemma replay_led1: "rv_led (replay wl now r rec) = apply_rec wl (rv_led r) rec"
proof (cases rec)
  case (JobStart i lo hi sz n msg)
  then show ?thesis by (intro ledger_eqI) (auto simp: newJob_def)
next
  case (ChunkDone i k h x)
  then show ?thesis by (intro ledger_eqI) (auto split: option.split)
next
  case (JobDone i h x)
  have "ldDone (drop_job i (rv_led r)) = rvDone (forget i r)" by (simp flip: forget_led)
  with JobDone show ?thesis by (intro ledger_eqI) (auto simp: Let_def)
next
  case (JobDrop i)
  have "ldDone (drop_job i (rv_led r)) = rvDone (forget i r)" by (simp flip: forget_led)
  with JobDrop show ?thesis by (intro ledger_eqI) (auto simp: Let_def)
qed

lemma replay_mwf: "mwf (rvJobs r) \<and> mwf (rvResults r) \<Longrightarrow> mwf (rvJobs (replay wl now r rec)) \<and> mwf (rvResults (replay wl now r rec))"
  by (cases rec) (auto simp: Let_def split: option.split)

interpretation rp: simulation "replay wl now" rv_wf "\<lambda>_. True" "apply_rec wl" rv_led "\<lambda>_ r. [r]" for wl now
proof unfold_locales
  fix r rec
  assume "rv_wf r"
  then show "rv_wf (replay wl now r rec)"
    using replay_mwf [of r wl now rec] by (simp add: rv_wf_def replay_led1 led_inv_apply)
  show "rv_led (replay wl now r rec) = foldl (apply_rec wl) (rv_led r) [rec]"
    by (simp add: replay_led1)
qed

lemma rp_acts: "rp.run_acts wl now r rs = rs"
  by (induction rs arbitrary: r) simp_all

lemma no_state_led: "rv_led (no_state\<lparr>rvLog := l\<rparr>) = empty_ledger" "rv_wf (no_state\<lparr>rvLog := l\<rparr>)"
proof -
  show e: "rv_led (no_state\<lparr>rvLog := l\<rparr>) = empty_ledger"
    by (simp add: rv_led_def empty_ledger_def no_state_def)
  show "rv_wf (no_state\<lparr>rvLog := l\<rparr>)"
    unfolding rv_wf_def e by (simp add: led_inv_empty no_state_def)
qed

lemma replay_all:
  "rv_led (foldl (replay wl now) (no_state\<lparr>rvLog := l\<rparr>) rs) = replay_led wl rs"
  "rv_wf (foldl (replay wl now) (no_state\<lparr>rvLog := l\<rparr>) rs)"
  using rp.run_sim [OF no_state_led(2), of rs wl now] rp.run_inv [OF no_state_led(2), of rs wl now]
  by (simp_all add: rp_acts no_state_led replay_led_def list_all_iff)

section \<open>Promotion\<close>

text \<open>Promoting a complete job is what its missing \<^verbatim>\<open>JobDone\<close> record would have done.\<close>

definition promo_recs :: "(u64, job) gomap \<Rightarrow> Record list" where
  "promo_recs es = map (\<lambda>(i, j). JobDone i (Hash (jAcc j)) (Nonce (jAcc j))) (filter (\<lambda>e. remaining (snd e) = 0) es)"

lemma promo_Cons: "promo_recs ((i, j) # es) =
    (if remaining j = 0 then [JobDone i (Hash (jAcc j)) (Nonce (jAcc j))] else []) @ promo_recs es"
  by (simp add: promo_recs_def)

lemma promote_led:
  "rv_led (promote now r (i, j)) = foldl (apply_rec wl) (rv_led r) (promo_recs [(i, j)])"
proof -
  have "ldDone (drop_job i (rv_led r)) = rvDone (forget i r)" by (simp flip: forget_led)
  then show ?thesis by (intro ledger_eqI) (auto simp: promote_def promo_recs_def Let_def)
qed

lemma promote_frame [simp]:
  "rvLog (promote now r e) = rvLog r" "rvChunks (promote now r e) = rvChunks r"
  "rvFeeds (promote now r e) = rvFeeds r" "rvChans (promote now r e) = rvChans r"
  by (simp_all add: promote_def Let_def)

lemma promote_jobs [simp]:
  "mget (rvJobs (promote now r (i, j))) k = (if k = i \<and> remaining j = 0 then None else mget (rvJobs r) k)"
  by (auto simp: promote_def Let_def)

lemma promote_wf: "rv_wf r \<Longrightarrow> rv_wf (promote now r (i, j))"
  using promote_led [of now r i j] led.run_inv [of "rv_led r" "promo_recs [(i, j)]"]
  by (auto simp: rv_wf_def promote_def Let_def list_all_iff)

lemma promote_all:
  "mwf es \<Longrightarrow> \<forall>(i, j) \<in> set es. mget (rvJobs r) i = Some j \<Longrightarrow> rv_wf r \<Longrightarrow>
   rv_led (foldl (promote now) r es) = foldl (apply_rec wl) (rv_led r) (promo_recs es) \<and>
   fair wl src (rv_led r) (map ALog (promo_recs es)) \<and> rv_wf (foldl (promote now) r es) \<and>
   (\<forall>k. mget (rvJobs (foldl (promote now) r es)) k =
      (if \<exists>j. (k, j) \<in> set es \<and> remaining j = 0 then None else mget (rvJobs r) k))"
proof (induction es arbitrary: r)
  case Nil
  then show ?case by (simp add: promo_recs_def)
next
  case (Cons e es)
  obtain i j where e: "e = (i, j)" by (cases e)
  let ?r = "promote now r (i, j)"
  have other: "i' \<noteq> i" if "(i', j') \<in> set es" for i' j'
    using that Cons.prems(1) e by (force simp: mwf_def)
  have IH: "rv_led (foldl (promote now) ?r es) = foldl (apply_rec wl) (rv_led ?r) (promo_recs es) \<and>
      fair wl src (rv_led ?r) (map ALog (promo_recs es)) \<and> rv_wf (foldl (promote now) ?r es) \<and>
      (\<forall>k. mget (rvJobs (foldl (promote now) ?r es)) k =
        (if \<exists>j. (k, j) \<in> set es \<and> remaining j = 0 then None else mget (rvJobs ?r) k))"
    using Cons.prems other by (intro Cons.IH promote_wf) (auto simp: mwf_def)
  have led: "rv_led ?r = foldl (apply_rec wl) (rv_led r) (promo_recs [(i, j)])" by (rule promote_led)
  have f: "fair wl src (rv_led r) (map ALog (promo_recs [(i, j)]))"
    using Cons.prems(2) e by (auto simp: promo_recs_def job_complete_def)
  have as: "recs_of (map ALog rs) = rs" for rs by (induction rs) simp_all
  show ?case
  proof (intro conjI)
    show "rv_led (foldl (promote now) r (e # es)) = foldl (apply_rec wl) (rv_led r) (promo_recs (e # es))"
      using IH led e promo_Cons [of i j es] promo_Cons [of i j "[]"] by (simp add: promo_recs_def [of "[]"])
    show "fair wl src (rv_led r) (map ALog (promo_recs (e # es)))"
      using IH led f e as promo_Cons [of i j es] promo_Cons [of i j "[]"] by (auto simp: promo_recs_def [of "[]"])
    show "rv_wf (foldl (promote now) r (e # es))" using IH e by simp
    show "\<forall>k. mget (rvJobs (foldl (promote now) r (e # es))) k =
        (if \<exists>j. (k, j) \<in> set (e # es) \<and> remaining j = 0 then None else mget (rvJobs r) k)"
      using IH e other by auto
  qed
qed

lemma add_feed_frame [simp]:
  "rvLog (foldl add_feed r es) = rvLog r" "rvDone (foldl add_feed r es) = rvDone r" "rvJobs (foldl add_feed r es) = rvJobs r"
  "rvResults (foldl add_feed r es) = rvResults r" "rvChunks (foldl add_feed r es) = rvChunks r" "rvChans (foldl add_feed r es) = rvChans r"
  "rv_led (foldl add_feed r es) = rv_led r"
proof -
  have "rvLog (foldl add_feed r es) = rvLog r \<and> rvDone (foldl add_feed r es) = rvDone r \<and> rvJobs (foldl add_feed r es) = rvJobs r \<and>
    rvResults (foldl add_feed r es) = rvResults r \<and> rvChunks (foldl add_feed r es) = rvChunks r \<and> rvChans (foldl add_feed r es) = rvChans r"
    by (induction es arbitrary: r) (simp_all add: add_feed_def Let_def)
  then show "rvLog (foldl add_feed r es) = rvLog r" "rvDone (foldl add_feed r es) = rvDone r" "rvJobs (foldl add_feed r es) = rvJobs r"
    "rvResults (foldl add_feed r es) = rvResults r" "rvChunks (foldl add_feed r es) = rvChunks r" "rvChans (foldl add_feed r es) = rvChans r"
    "rv_led (foldl add_feed r es) = rv_led r"
    by (simp_all add: rv_led_def)
qed

lemma add_feed_feeds:
  "rvFeeds (foldl add_feed r es) = rvFeeds r @ map (\<lambda>(i, j). (jSpec j, skip_of r i, jCancel j)) es"
proof (induction es arbitrary: r)
  case Nil
  then show ?case by simp
next
  case (Cons e es)
  have "skip_of (add_feed r e) i = skip_of r i" for i
    by (simp add: skip_of_def chunks_of_def add_feed_def Let_def)
  with Cons show ?case by (simp add: add_feed_def Let_def split_beta)
qed

lemma rebuild_feeds:
  "rvFeeds (rebuild wl now l recs) =
    map (\<lambda>(i, j). (jSpec j, skip_of (rebuild wl now l recs) i, jCancel j)) (rvJobs (rebuild wl now l recs))"
proof -
  have p: "rvFeeds (foldl (promote now) r es) = rvFeeds r" for r es by (induction es arbitrary: r) simp_all
  have q: "rvFeeds (foldl (replay wl now) r rs) = rvFeeds r" for r rs
  proof (induction rs arbitrary: r)
    case (Cons x rs)
    have "rvFeeds (replay wl now r x) = rvFeeds r" by (cases x) (auto simp: Let_def split: option.split)
    with Cons show ?case by simp
  qed simp
  have s: "skip_of (foldl add_feed r es) i = skip_of r i" for r es i by (simp add: skip_of_def chunks_of_def)
  show ?thesis unfolding rebuild_def Let_def add_feed_feeds p q s add_feed_frame by (simp add: no_state_def)
qed

section \<open>The recovered state\<close>

lemma rebuild_led:
  fixes wl now l recs
  defines "r1 \<equiv> foldl (replay wl now) (no_state\<lparr>rvLog := Some l\<rparr>) recs"
  shows "rv_led (rebuild wl now l recs) = foldl (apply_rec wl) (replay_led wl recs) (promo_recs (rvJobs r1))"
    and "fair wl src (replay_led wl recs) (map ALog (promo_recs (rvJobs r1)))"
    and "rv_wf (rebuild wl now l recs)"
    and "mget (rvJobs (rebuild wl now l recs)) i = Some j \<Longrightarrow> remaining j \<noteq> 0"
    and "rvLog (rebuild wl now l recs) = Some l"
proof -
  have wf: "rv_wf r1" and led: "rv_led r1 = replay_led wl recs" using replay_all unfolding r1_def by blast+
  have m: "mwf (rvJobs r1)" using wf by (simp add: rv_wf_def)
  then have mem: "\<forall>(i, j) \<in> set (rvJobs r1). mget (rvJobs r1) i = Some j" by (auto simp: mget_mem)
  note p = promote_all [OF m mem wf, of now wl src]
  have rb: "rebuild wl now l recs = foldl add_feed (foldl (promote now) r1 (rvJobs r1)) (rvJobs (foldl (promote now) r1 (rvJobs r1)))"
    by (simp add: rebuild_def Let_def r1_def)
  show "rv_led (rebuild wl now l recs) = foldl (apply_rec wl) (replay_led wl recs) (promo_recs (rvJobs r1))"
    "fair wl src (replay_led wl recs) (map ALog (promo_recs (rvJobs r1)))"
    using p led unfolding rb by simp_all
  have "rv_wf (foldl (promote now) r1 (rvJobs r1))" using p by blast
  then show "rv_wf (rebuild wl now l recs)" unfolding rb by (simp add: rv_wf_def)
  show "remaining j \<noteq> 0" if "mget (rvJobs (rebuild wl now l recs)) i = Some j"
    using that p m unfolding rb by (auto simp: mget_mem split: if_splits)
  have "rvLog (foldl (promote now) r es) = rvLog r" for r es by (induction es arbitrary: r) simp_all
  moreover have "rvLog (foldl (replay wl now) r rs) = rvLog r" for r rs
  proof (induction rs arbitrary: r)
    case (Cons x rs)
    have "rvLog (replay wl now r x) = rvLog r" by (cases x) (auto simp: Let_def split: option.split)
    with Cons show ?case by simp
  qed simp
  ultimately show "rvLog (rebuild wl now l recs) = Some l" unfolding rb r1_def by simp
qed

lemma boot_led [simp]: "led_of (boot_agg dev r) = rv_led r"
  by (simp add: led_of_def rv_led_def boot_agg_def)

lemma boot_inv: "rv_wf r \<Longrightarrow> agg_inv (boot_agg dev r)"
  by (simp add: agg_inv_def rv_wf_def agg_wf_def boot_agg_def [of dev r] flip: boot_led [of dev r])

lemma Open_total: "\<exists>x. Open a b c img = Ret x"
  unfolding Open_def readAll_wal_read by (cases "wal_read img") simp

text \<open>\<^verbatim>\<open>recover\<close> returns a state or an error, and its state is the rebuilt one.\<close>

lemma recover_cases:
  obtains (error) "recover_sched p wl now a b c w img = Ret None"
  | (nolog) "WALPath p = []" "recover_sched p wl now a b c w img = Ret (Some no_state)"
  | (state) l recs l' where "Open a b c img = Ret (Some (l, recs))"
      "recover_sched p wl now a b c w img = Ret (Some ((rebuild wl now l recs)\<lparr>rvLog := Some l'\<rparr>))"
      "recs = [] \<and> l' = l \<or> Rewrite (tmpOpened w) (ioTmp w) (ioFlush w) (fsyncOk w) (renamedOk w)
         (compact_recs (rebuild wl now l recs)) l = (l', True)"
proof (cases "WALPath p = []")
  case True
  then show ?thesis using nolog by (simp add: recover_sched_def)
next
  case False
  obtain op where o: "Open a b c img = Ret op"
    using Open_total by blast
  show ?thesis
  proof (cases op)
    case None
    with o False show ?thesis using error by (simp add: recover_sched_def)
  next
    case (Some lr)
    obtain l recs where lr: "lr = (l, recs)" by (cases lr)
    let ?r = "rebuild wl now l recs"
    obtain l' ok where rw: "Rewrite (tmpOpened w) (ioTmp w) (ioFlush w) (fsyncOk w) (renamedOk w) (compact_recs ?r) l = (l', ok)"
      by fastforce
    have same: "?r\<lparr>rvLog := Some l\<rparr> = ?r" using rebuild_led(5) [of wl now l recs] by simp
    show ?thesis
    proof (cases "recs = []")
      case True
      then show ?thesis using state [of l recs l] o Some lr False same by (simp add: recover_sched_def Let_def)
    next
      case ne: False
      then show ?thesis
        using state [of l recs l'] error o Some lr False rw by (cases ok) (simp_all add: recover_sched_def Let_def)
    qed
  qed
qed

end
