(* ===== verification/Restart.thy ===== *)
theory Restart
  imports Recover
begin

text \<open>
  The aggregator, its log and recovery together: what the log holds while the aggregator runs,
  and runs that are interrupted by crashes and restarts. A crash keeps of the log at least what
  was synced and at most what was written, cut anywhere.
\<close>

section \<open>The records in the log\<close>

text \<open>What has been appended since the last successful rewrite, after \<open>rs\<close>.\<close>

fun log_of :: "Record list \<Rightarrow> act list \<Rightarrow> Record list" where
  "log_of rs [] = rs"
| "log_of rs (ALog r # as) = log_of (rs @ [r]) as"
| "log_of rs (ACompact recs True # as) = log_of recs as"
| "log_of rs (_ # as) = log_of rs as"

lemma log_of_append [simp]: "log_of rs (as @ bs) = log_of (log_of rs as) bs"
  by (induction rs as rule: log_of.induct) simp_all

definition log_inv :: "Record list \<Rightarrow> agg \<Rightarrow> bool" where
  "log_inv rs s \<longleftrightarrow> (\<forall>l. agLog s = Some l \<longrightarrow> log_ok (log_of rs (agOut s)) l)"

lemma log_inv_cong: "agLog s' = agLog s \<Longrightarrow> agOut s' = agOut s \<Longrightarrow> log_inv rs s' = log_inv rs s"
  by (simp add: log_inv_def)

lemma log_inv_upd [simp]:
  "log_inv rs (s\<lparr>agStats := st\<rparr>) = log_inv rs s" "log_inv rs (s\<lparr>agByConn := bc\<rparr>) = log_inv rs s"
  "log_inv rs (s\<lparr>agJobs := js\<rparr>) = log_inv rs s" "log_inv rs (s\<lparr>agResults := rr\<rparr>) = log_inv rs s"
  "log_inv rs (s\<lparr>agChans := n\<rparr>) = log_inv rs s" "log_inv rs (s\<lparr>agDone := d\<rparr>) = log_inv rs s"
  "log_inv rs (s\<lparr>agClosed := cl\<rparr>) = log_inv rs s"
  "log_inv rs (reattached s) = log_inv rs s"
  by (simp_all add: log_inv_def)

lemma log_inv_emit [simp]:
  "(\<And>rs. log_of rs [a] = rs) \<Longrightarrow> log_inv rs (emit a s) = log_inv rs s"
  by (simp add: log_inv_def)

lemma log_inv_reply [simp]: "log_inv rs (reply h i p s) = log_inv rs s"
  by (simp add: reply_def split: option.split)

lemma log_inv_record:
  assumes "log_inv rs s"
  shows "log_inv rs (record_rec r b s)"
proof (cases "agLog s")
  case None
  then show ?thesis by (simp add: record_rec_def log_inv_def)
next
  case (Some l)
  let ?w = "agDev s 0" and ?rs = "log_of rs (agOut s)"
  obtain l1 ok1 where a: "Append (ioHead ?w) (ioBody ?w) r l = (l1, ok1)" by fastforce
  obtain l2 ok2 where y: "Sync (ioFlush ?w) (fsyncOk ?w) l1 = (l2, ok2)" by fastforce
  have "log_ok ?rs l" using assms Some by (simp add: log_inv_def)
  then have l1: "log_ok (?rs @ [r]) l1" using log_ok_Append [OF _ a] by simp
  then have "log_ok (?rs @ [r]) l2" using log_ok_Sync [OF _ y] by simp
  with l1 Some a y show ?thesis by (auto simp: record_rec_def Let_def log_inv_def)
qed

lemma log_inv_finish:
  assumes "log_inv rs s"
  shows "log_inv rs (finish_job clk j b s)"
  using assms by (auto simp: finish_job_def detach_def Let_def split: option.split intro!: log_inv_record)

lemma log_inv_submit:
  assumes "log_inv rs s"
  shows "log_inv rs (submit wl clk h gone spec s)"
proof -
  have j: "log_inv rs s1" if "join_job wl (clk 0) spec s = (b, j, s1)" for b j s1
    using that assms by (auto simp: join_job_def detach_def Let_def split: option.splits intro!: log_inv_record)
  have a: "log_inv rs s2" if "attach t h gone i j s1 = (j2, s2)" "log_inv rs s1" for t i j s1 j2 s2
    using that by (auto simp: attach_def split: if_splits)
  show ?thesis
    using assms by (auto simp: submit_def Let_def split: option.split prod.split dest!: j a intro!: log_inv_finish)
qed

lemma log_inv_result: "log_inv rs s \<Longrightarrow> log_inv rs (on_result wl clk r s)"
  by (auto simp: on_result_def discard_def count_result_def Let_def split: option.split intro!: log_inv_finish log_inv_record)

lemma log_inv_compact:
  assumes "log_inv rs s"
  shows "log_inv rs (compact_log s)"
proof (cases "agLog s")
  case None
  with assms show ?thesis by (simp add: compact_log_def)
next
  case (Some l)
  let ?w = "agDev s 0"
  obtain l' ok where r: "Rewrite (tmpOpened ?w) (ioTmp ?w) (ioFlush ?w) (fsyncOk ?w) (renamedOk ?w)
      (snapshotResults (agResults s)) l = (l', ok)" by fastforce
  show ?thesis
  proof (cases ok)
    case True
    with assms Some r Rewrite_True(1) show ?thesis by (auto simp: compact_log_def Let_def log_inv_def)
  next
    case False
    with r have "l' = l" using Rewrite_False by auto
    with False assms Some r show ?thesis by (auto simp: compact_log_def Let_def log_inv_def)
  qed
qed

lemma log_inv_sync:
  assumes "log_inv rs s"
  shows "log_inv rs (sync_log s)" "log_inv rs (stop_agg s)"
proof -
  have y: "log_ok q l \<Longrightarrow> log_ok q (fst (Sync io f l))" for q io f l
    using log_ok_Sync [of q l io f] by (cases "Sync io f l") auto
  then have c: "log_ok q l \<Longrightarrow> log_ok q (fst (Close io f cl l))" for q io f cl l
    by (auto simp: Close_def split_beta)
  from y c assms show "log_inv rs (sync_log s)" "log_inv rs (stop_agg s)"
    by (auto simp: sync_log_def stop_agg_def log_inv_def Let_def split_beta split: option.split)
qed

lemma log_inv_folds:
  "log_inv rs s \<Longrightarrow> log_inv rs (foldl (drop_orphan now g) s es)"
  "log_inv rs s \<Longrightarrow> log_inv rs (foldl (expire_result now ttl) s fs)"
proof -
  show "log_inv rs s \<Longrightarrow> log_inv rs (foldl (drop_orphan now g) s es)"
    by (induction es arbitrary: s) (auto simp: drop_orphan_def log_inv_finish split: option.split)
  show "log_inv rs s \<Longrightarrow> log_inv rs (foldl (expire_result now ttl) s fs)"
    by (induction fs arbitrary: s) (auto simp: expire_result_def log_inv_record)
qed

lemma log_inv_client_gone: "log_inv rs s \<Longrightarrow> log_inv rs (client_gone now c s)"
  by (auto simp: client_gone_def detach_def Let_def split: option.split)

lemma log_inv_publish: "log_inv rs s \<Longrightarrow> log_inv rs (publish_agg p r s)"
  by (simp add: publish_agg_def Let_def)

lemma log_inv_step:
  assumes "log_inv rs s"
  shows "log_inv rs (agg_step p wl s e)"
proof -
  have "log_inv rs (handle p wl clk ev s)" for clk ev
    using assms by (cases ev)
      (auto simp: log_inv_submit log_inv_result log_inv_client_gone tick_def Let_def
        intro!: log_inv_sync log_inv_compact log_inv_folds)
  then show ?thesis
    using assms by (auto simp: agg_step_def log_inv_sync log_inv_publish split: prod.split)
qed

interpretation agglog: machine "agg_step p wl" "log_inv rs" "\<lambda>_. True" for p wl rs
  by unfold_locales (rule log_inv_step)

section \<open>Crashes and restarts\<close>

datatype sys_event =
    Live agg_input
  | Crash nat time wio "nat \<Rightarrow> wio"

text \<open>What a crash leaves of the log file: the first \<open>k\<close> bytes, but never less than was synced.\<close>

definition disk :: "nat \<Rightarrow> agg \<Rightarrow> bytes" where
  "disk k s = (case agLog s of None \<Rightarrow> [] | Some l \<Rightarrow> take (max k (length (lsynced l))) (lfile l))"

text \<open>
  The running aggregator and what earlier ones have emitted. Where recovery fails, no new
  aggregator starts.
\<close>

fun sys_step :: "schedParams \<Rightarrow> Workload \<Rightarrow> agg \<times> act list \<Rightarrow> sys_event \<Rightarrow> agg \<times> act list" where
  "sys_step p wl (s, past) (Live e) = (agg_step p wl s e, past)"
| "sys_step p wl (s, past) (Crash k now w dev) =
     (case recover_sched p wl now True True True w (disk k s) of
        Ret (Some r) \<Rightarrow> (boot_agg dev r, past @ agOut s)
      | _ \<Rightarrow> (s\<lparr>agStopped := True\<rparr>, past))"

definition sys_run :: "schedParams \<Rightarrow> Workload \<Rightarrow> agg \<times> act list \<Rightarrow> sys_event list \<Rightarrow> agg \<times> act list" where
  "sys_run p wl = foldl (sys_step p wl)"

text \<open>A first start: no log, or an empty one.\<close>

definition fresh :: "bool \<Rightarrow> (nat \<Rightarrow> wio) \<Rightarrow> agg" where
  "fresh logged dev = boot_agg dev (no_state\<lparr>rvLog :=
     (if logged then Some \<lparr>lfile = [], lsynced = [], lbuf = [], lfailed = False, lsize = 0\<rparr> else None)\<rparr>)"

fun sys_ev_ok :: "(u64 \<Rightarrow> jobSpec) \<Rightarrow> sys_event \<Rightarrow> bool" where
  "sys_ev_ok sp (Live e) \<longleftrightarrow> ev_ok hashsearch sp (snd (snd e))"
| "sys_ev_ok sp (Crash k now w dev) \<longleftrightarrow> True"

definition sys_ok :: "(u64 \<Rightarrow> jobSpec) \<Rightarrow> agg \<times> act list \<Rightarrow> bool" where
  "sys_ok sp x \<longleftrightarrow> agg_val hashsearch sp (fst x) \<and> list_all (act_ok hashsearch sp) (snd x) \<and>
     (\<forall>i. length (sMsg (sp i)) \<le> MaxMsgLen) \<and> (\<exists>rs. list_all (honest hashsearch sp) rs \<and> log_inv rs (fst x))"

lemma honest_fits:
  assumes "honest wl sp r" "\<forall>i. length (sMsg (sp i)) \<le> MaxMsgLen"
  shows "rec_fits r"
proof (cases r)
  case (JobStart i lo hi sz n msg)
  with assms have "sMsg (sp i) = msg" by (metis honest.simps(1) jobSpec.sel(6))
  with assms(2) have "length msg \<le> MaxMsgLen" by metis
  with JobStart show ?thesis by (simp add: rec_fits_iff MaxMsgLen_def)
qed (simp_all add: rec_fits_iff)

lemma honest_log_of:
  "list_all (honest wl sp) rs \<Longrightarrow> list_all (act_ok wl sp) as \<Longrightarrow> list_all (honest wl sp) (log_of rs as)"
proof (induction rs as rule: log_of.induct)
  case (2 rs r as)
  then show ?case by simp
next
  case (3 rs recs as)
  then show ?case by simp
qed simp_all

lemma chunks_sub: "set (chunks_of i (foldl (replay wl now) r rs)) \<subseteq> set (chunks_of i r) \<union> set rs"
proof (induction rs arbitrary: r)
  case Nil
  then show ?case by simp
next
  case (Cons x rs)
  have "set (chunks_of i (replay wl now r x)) \<subseteq> insert x (set (chunks_of i r))"
    by (cases x) (auto simp: chunks_of_def Let_def split: option.splits)
  with Cons [of "replay wl now r x"] show ?case by auto
qed

lemma chunks_rebuild:
  "chunks_of i (rebuild wl now l recs) = chunks_of i (foldl (replay wl now) (no_state\<lparr>rvLog := Some l\<rparr>) recs)"
proof -
  have "rvChunks (foldl (promote now) r es) = rvChunks r" for r es by (induction es arbitrary: r) simp_all
  then show ?thesis by (simp add: rebuild_def chunks_of_def Let_def)
qed

text \<open>The state recovered from honest records is honest, and so is the compacted log.\<close>

lemma recovered_val:
  assumes "list_all (honest hashsearch sp) recs" "\<forall>i. spec_ok (sp i)"
  shows "led_val hashsearch sp (rv_led (rebuild hashsearch now l recs))"
    "list_all (honest hashsearch sp) (compact_recs (rebuild hashsearch now l recs))"
proof -
  let ?r = "rebuild hashsearch now l recs"
  note rb = rebuild_led(1) [of hashsearch now l recs] rebuild_led(2) [of hashsearch "\<lambda>_. False" recs now l]
    rebuild_led(3) [of hashsearch now l recs]
  have as: "recs_of (map ALog rs) = rs" for rs by (induction rs) simp_all
  show v: "led_val hashsearch sp (rv_led ?r)"
    using hs.fair_honest [OF rb(2) led_inv_replay led_val_replay [OF assms(1)]] assms(2)
    unfolding rb(1) as by blast
  have wf: "mwf (rvJobs ?r)" "mwf (rvResults ?r)" using rb(3) by (simp_all add: rv_wf_def)
  have "honest hashsearch sp x" if "x \<in> set (snapshotResults (rvResults ?r))" for x
    using snapshot_stored [OF wf(2) that] led_valD(2) [OF v] by fastforce
  moreover have "honest hashsearch sp x" if x: "x \<in> set (job_recs ?r (i, j))" and ij: "(i, j) \<in> set (rvJobs ?r)" for x i j
  proof -
    have job: "mget (rvJobs ?r) i = Some j" using ij wf by (simp add: mget_mem)
    then have "jSpec j = sp i" "sId (jSpec j) = i"
      using led_valD(1) [OF v, of i] led_invD [of "rv_led ?r" i] rb(3) by (simp_all add: rv_wf_def)
    then have "honest hashsearch sp (JobStart i (sLo (jSpec j)) (sHi (jSpec j)) (sSize (jSpec j)) (sN (jSpec j)) (sMsg (jSpec j)))"
      by (metis honest.simps(1) jobSpec.collapse)
    moreover have "set (chunks_of i ?r) \<subseteq> set recs"
      using chunks_sub [of i hashsearch now "no_state\<lparr>rvLog := Some l\<rparr>" recs]
      unfolding chunks_rebuild by (simp add: chunks_of_def [of i "no_state\<lparr>rvLog := Some l\<rparr>"]) (simp add: no_state_def)
    ultimately show ?thesis using x assms(1) by (auto simp: job_recs_def Let_def list_all_iff)
  qed
  ultimately show "list_all (honest hashsearch sp) (compact_recs ?r)"
    by (auto simp: compact_recs_def list_all_iff)
qed

lemma boot_val:
  assumes "rv_wf r" "led_val hashsearch sp (rv_led r)" "\<forall>i. spec_ok (sp i)"
  shows "agg_val hashsearch sp (boot_agg dev r)"
  using assms boot_inv [OF assms(1)] by (simp add: agg_val_def, simp add: boot_agg_def)

lemma boot_out [simp]: "agOut (boot_agg dev r) = []" "agLog (boot_agg dev r) = rvLog r"
  by (simp_all add: boot_agg_def)

lemma sys_ok_crash:
  assumes ok: "sys_ok sp (s, past)"
  shows "sys_ok sp (sys_step p hashsearch (s, past) (Crash k now w dev))"
proof -
  have specs: "\<forall>i. spec_ok (sp i)" and v: "agg_val hashsearch sp s" and past: "list_all (act_ok hashsearch sp) (past @ agOut s)"
    and msg: "\<forall>i. length (sMsg (sp i)) \<le> MaxMsgLen"
    using ok by (simp_all add: sys_ok_def agg_val_def)
  obtain rs where rs: "list_all (honest hashsearch sp) rs" "log_inv rs s" using ok by (auto simp: sys_ok_def)
  have booted: "sys_ok sp (boot_agg dev r, past @ agOut s)"
    if "rv_wf r" "led_val hashsearch sp (rv_led r)" "list_all (honest hashsearch sp) rs'" "\<And>l. rvLog r = Some l \<Longrightarrow> log_ok rs' l" for r rs'
    using boot_val [OF that(1,2) specs] past msg that(3,4) by (auto simp: sys_ok_def log_inv_def)
  have down: "sys_ok sp (s\<lparr>agStopped := True\<rparr>, past)"
    using ok by (simp add: sys_ok_def agg_val_def agg_inv_def agg_wf_def led_of_def log_inv_def)
  show ?thesis
  proof (cases rule: recover_cases [of p hashsearch now True True True w "disk k s"])
    case error
    with down show ?thesis by simp
  next
    case nolog
    have "no_state\<lparr>rvLog := None\<rparr> = no_state" by (simp add: no_state_def)
    with nolog booted [of no_state "[]"] no_state_led [of None] show ?thesis
      by (simp add: led_val_empty) (simp add: no_state_def)
  next
    case (state l recs l')
    have "list_all (honest hashsearch sp) (log_of rs (agOut s))"
      using honest_log_of [OF rs(1)] past by simp
    then have recs: "list_all (honest hashsearch sp) recs \<and> log_ok recs l"
    proof (cases "agLog s")
      case None
      then have "Open True True True [] = Ret (Some (l, recs))" using state(1) by (simp add: disk_def)
      then show ?thesis using Open_ok(1) [OF state(1)] by (simp add: Open_def readAll.simps readFrame_def frameHeader_def)
    next
      case (Some l0)
      then have l0: "log_ok (log_of rs (agOut s)) l0" using rs(2) by (simp add: log_inv_def)
      moreover assume h: "list_all (honest hashsearch sp) (log_of rs (agOut s))"
      then have "list_all rec_fits (log_of rs (agOut s))" using honest_fits [OF _ msg] by (simp add: list_all_iff) blast
      ultimately obtain j where "recs = take j (log_of rs (agOut s))"
        using Open_crash [of "log_of rs (agOut s)" l0 "max k (length (lsynced l0))"] state(1) Some by (auto simp: disk_def)
      with h Open_ok(1) [OF state(1)] show ?thesis by (auto simp: list_all_iff dest: in_set_takeD)
    qed
    let ?r = "rebuild hashsearch now l recs"
    have "rv_wf (?r\<lparr>rvLog := Some l'\<rparr>)" "rv_led (?r\<lparr>rvLog := Some l'\<rparr>) = rv_led ?r"
      using rebuild_led(3) [of hashsearch now l recs] by (simp_all add: rv_wf_def rv_led_def)
    moreover have "list_all (honest hashsearch sp) (if recs = [] \<and> l' = l then recs else compact_recs ?r)"
      "log_ok (if recs = [] \<and> l' = l then recs else compact_recs ?r) l'"
      using recs recovered_val(2) [OF _ specs, of recs] state(3) Rewrite_True(1) by (auto split: if_splits)
    ultimately show ?thesis
      using booted [of "?r\<lparr>rvLog := Some l'\<rparr>" "if recs = [] \<and> l' = l then recs else compact_recs ?r"] recovered_val(1) [OF _ specs, of recs]
        recs state(2) by simp
  qed
qed

interpretation sysm: machine "sys_step p hashsearch" "sys_ok sp" "sys_ev_ok sp" for p sp
proof
  fix x e
  assume ok: "sys_ok sp x" and e: "sys_ev_ok sp e"
  obtain s past where x: "x = (s, past)" by (cases x)
  show "sys_ok sp (sys_step p hashsearch x e)"
  proof (cases e)
    case (Live i)
    with ok e x show ?thesis
      using agg_val_step [of sp s i p] log_inv_step [of _ s p hashsearch i] by (auto simp: sys_ok_def)
  next
    case (Crash k now w dev)
    with ok x show ?thesis by (simp only: sys_ok_crash)
  qed
qed

lemma sys_ok_fresh:
  assumes "\<forall>i. spec_ok (sp i) \<and> length (sMsg (sp i)) \<le> MaxMsgLen"
  shows "sys_ok sp (fresh b dev, [])"
proof -
  have "agg_val hashsearch sp (fresh b dev)"
    unfolding fresh_def using no_state_led assms by (intro boot_val) (simp_all add: led_val_empty)
  moreover have "log_inv [] (fresh b dev)"
    by (simp add: fresh_def log_inv_def log_ok_empty split: if_split)
  ultimately show ?thesis using assms unfolding sys_ok_def by (auto intro: exI [of _ "[]"])
qed

end
