(* ===== verification/Service.thy ===== *)
theory Service
  imports Restart
begin

text \<open>
  What the clients of the scheduler rely on, over runs of the aggregator with its log: a request
  that stays attached is answered, answers are right across crashes, results count once, a crash
  loses nothing that was synced, and cancel channels are closed at most once.
\<close>

section \<open>Running jobs miss something\<close>

definition live_inv :: "agg \<Rightarrow> bool" where
  "live_inv s \<longleftrightarrow> (\<forall>i j. mget (agJobs s) i = Some j \<longrightarrow> remaining j \<noteq> 0)"

lemma live_inv_cong: "agJobs s' = agJobs s \<Longrightarrow> live_inv s' = live_inv s"
  by (simp add: live_inv_def)

lemma live_finish: "live_inv (s\<lparr>agJobs := mdel (agJobs s) (sId (jSpec j))\<rparr>) \<Longrightarrow> live_inv (finish_job clk j b s)"
  by (auto simp: live_inv_def finish_job_simps)

lemma live_submit:
  assumes "live_inv s" "agg_inv s"
  shows "live_inv (submit wl clk h gone spec s)"
proof (cases "mget (agResults s) (sId spec)")
  case (Some f)
  with assms show ?thesis by (simp add: submit_def Let_def live_inv_def)
next
  case None
  obtain b j s1 where jn: "join_job wl (clk 0) spec s = (b, j, s1)" by (metis prod_cases3)
  obtain j2 s2 where at: "attach (clk 1) h gone (sId spec) j s1 = (j2, s2)" by fastforce
  have "sId (jSpec j) = sId spec"
    using jn led_inv_spec [of s "sId spec"] assms(2)
    by (auto simp: join_job_def detach_def newJob_def agg_inv_def Let_def split: option.splits)
  then have id: "sId (jSpec j2) = sId spec" using attach_simps [OF at] by simp
  have s1: "mget (agJobs s1) k = mget (agJobs s) k" if "k \<noteq> sId spec" for k
    using jn that by (auto simp: join_job_def detach_def Let_def split: option.splits)
  then have "mget (agJobs s2) k = mget (agJobs s) k" if "k \<noteq> sId spec" for k
    using that attach_simps [OF at] by simp
  with assms(1) None id show ?thesis
    by (auto simp: submit_def Let_def jn at [unfolded One_nat_def] live_inv_def finish_job_simps)
qed

lemma live_result:
  assumes "live_inv s" "agg_inv s"
  shows "live_inv (on_result wl clk r s)"
proof (cases "mget (agJobs s) (Job (crID r))")
  case None
  with assms show ?thesis by (simp add: on_result_def discard_def Let_def live_inv_def)
next
  case (Some j)
  then have "sId (jSpec j) = Job (crID r)" using assms(2) led_inv_spec [OF _ Some] by (simp add: agg_inv_def)
  with assms(1) Some show ?thesis
    by (auto simp: on_result_def discard_def count_result_def Let_def live_inv_def finish_job_simps)
qed

lemma live_gone: "live_inv s \<Longrightarrow> live_inv (client_gone now c s)"
  by (auto simp: client_gone_def detach_def live_inv_def Let_def split: option.split)

lemma live_tick:
  assumes "live_inv s"
  shows "live_inv (tick p now s)"
proof -
  have "live_inv (drop_orphan now g s e)" if "live_inv s" for g s e
    using that by (auto simp: drop_orphan_def live_inv_def finish_job_simps split: option.split)
  then have d: "live_inv (foldl (drop_orphan now g) s es)" if "live_inv s" for g es s
    using that by (induction es arbitrary: s) simp_all
  have e: "agJobs (foldl (expire_result now ttl) s es) = agJobs s" for ttl es s
    by (induction es arbitrary: s) (auto simp: expire_result_def)
  have c: "agJobs (sync_log (compact_log s)) = agJobs s" for s
    by (simp add: compact_log_def sync_log_def Let_def split: option.split prod.split)
  show ?thesis using d [OF assms] by (simp add: tick_def live_inv_def Let_def c e)
qed

definition serve_inv :: "agg \<Rightarrow> bool" where
  "serve_inv s \<longleftrightarrow> agg_inv s \<and> live_inv s"

lemma agJobs_publish [simp]: "agJobs (publish_agg p r s) = agJobs s"
  by (simp add: publish_agg_def Let_def)

interpretation aggl: machine "agg_step p wl" serve_inv "\<lambda>_. True" for p wl
proof
  fix s e
  assume s: "serve_inv s"
  have "live_inv (handle p wl clk ev s)" for clk ev
    using s by (cases ev) (simp_all add: serve_inv_def live_submit live_result live_gone live_tick,
      simp add: stop_agg_def live_inv_def Let_def split: option.split)
  then show "serve_inv (agg_step p wl s e)"
    using s agg_inv_step [of s p wl e]
    by (auto simp: serve_inv_def agg_step_def live_inv_def stop_agg_def Let_def split: prod.split option.splits)
qed

section \<open>Cancel channels\<close>

text \<open>
  Closing a closed channel panics in Go. Every running job has its own channel, not closed yet,
  and no channel was closed twice.
\<close>

definition chan_ok :: "(u64, job) gomap \<Rightarrow> nat \<Rightarrow> nat list \<Rightarrow> bool" where
  "chan_ok js n cl \<longleftrightarrow> distinct cl \<and> (\<forall>c \<in> set cl. c < n) \<and>
     (\<forall>i j. mget js i = Some j \<longrightarrow> jCancel j < n \<and> jCancel j \<notin> set cl) \<and>
     (\<forall>i i' j j'. mget js i = Some j \<and> mget js i' = Some j' \<and> jCancel j = jCancel j' \<longrightarrow> i = i')"

abbreviation chan_inv :: "agg \<Rightarrow> bool" where
  "chan_inv s \<equiv> chan_ok (agJobs s) (agChans s) (agClosed s)"

lemma chan_ok_put:
  "chan_ok js n cl \<Longrightarrow> mget js i = Some j \<Longrightarrow> jCancel j' = jCancel j \<Longrightarrow> chan_ok (mput js i j') n cl"
  unfolding chan_ok_def by auto

lemma chan_ok_new:
  assumes "chan_ok js n cl" "jCancel j' = n"
  shows "chan_ok (mput js i j') (Suc n) cl"
proof -
  have "jCancel j < n" if "mget js k = Some j" for k j using assms(1) that unfolding chan_ok_def by blast
  then have "jCancel j \<noteq> jCancel j'" if "mget js k = Some j" for k j using that assms(2) by (metis less_irrefl)
  then show ?thesis using assms unfolding chan_ok_def by (auto simp: less_Suc_eq) metis+
qed

lemma chan_ok_close:
  assumes "chan_ok js n cl" "mget js i = Some j"
  shows "chan_ok (mdel js i) n (cl @ [jCancel j])"
  using assms unfolding chan_ok_def by auto

lemma chan_ok_del: "chan_ok js n cl \<Longrightarrow> chan_ok (mdel js i) n cl"
  unfolding chan_ok_def by auto

lemma chan_finish:
  assumes "chan_inv s" "mget (agJobs s) (sId (jSpec j)) = Some j'" "jCancel j' = jCancel j"
  shows "chan_inv (finish_job clk j b s)"
  using chan_ok_close [OF assms(1,2)] assms(3) by (simp add: finish_job_simps)

lemma chan_submit:
  assumes "chan_inv s" "agg_inv s"
  shows "chan_inv (submit wl clk h gone spec s)"
proof (cases "mget (agResults s) (sId spec)")
  case (Some f)
  with assms show ?thesis by (simp add: submit_def Let_def)
next
  case None
  obtain b j s1 where jn: "join_job wl (clk 0) spec s = (b, j, s1)" by (metis prod_cases3)
  obtain j2 s2 where at: "attach (clk 1) h gone (sId spec) j s1 = (j2, s2)" by fastforce
  note a = attach_simps [OF at]
  have "sId (jSpec j) = sId spec"
    using jn led_inv_spec [of s "sId spec"] assms(2)
    by (auto simp: join_job_def detach_def newJob_def agg_inv_def Let_def split: option.splits)
  then have id: "sId (jSpec j2) = sId spec" using a by simp
  have "chan_inv s1 \<and> (\<exists>j0. mget (agJobs s1) (sId spec) = Some j0 \<and> jCancel j0 = jCancel j)"
    using jn assms(1) by (auto simp: join_job_def detach_def newJob_def Let_def chan_ok_new split: option.splits)
  then have s3: "chan_ok (mput (agJobs s2) (sId spec) j2) (agChans s2) (agClosed s2)"
    using a by (auto intro: chan_ok_put)
  show ?thesis
    using None s3 id by (auto simp: submit_def Let_def jn at [unfolded One_nat_def] intro!: chan_finish)
qed

lemma chan_result:
  assumes "chan_inv s" "agg_inv s"
  shows "chan_inv (on_result wl clk r s)"
proof (cases "mget (agJobs s) (Job (crID r))")
  case None
  with assms show ?thesis by (simp add: on_result_def discard_def Let_def)
next
  case (Some j)
  then have "sId (jSpec j) = Job (crID r)" using assms(2) led_inv_spec [OF _ Some] by (simp add: agg_inv_def)
  with assms(1) Some show ?thesis
    by (auto simp: on_result_def discard_def count_result_def Let_def intro!: chan_finish chan_ok_put)
qed

lemma chan_gone: "chan_inv s \<Longrightarrow> chan_inv (client_gone now c s)"
  by (auto simp: client_gone_def detach_def Let_def split: option.split intro!: chan_ok_put)

lemma chan_drop_orphans:
  "mwf es \<Longrightarrow> \<forall>(i, j) \<in> set es. mget (agJobs s) i = Some j \<Longrightarrow> led_inv (led_of s) \<Longrightarrow> chan_inv s \<Longrightarrow>
   chan_inv (foldl (drop_orphan now g) s es)"
proof (induction es arbitrary: s)
  case Nil
  then show ?case by simp
next
  case (Cons e es)
  obtain i j where e: "e = (i, j)" by (cases e)
  let ?s = "drop_orphan now g s (i, j)"
  have job: "mget (agJobs s) i = Some j" using Cons.prems(2) e by simp
  have id: "sId (jSpec j) = i" using led_inv_spec [OF Cons.prems(3) job] .
  have "mget (agJobs ?s) i' = Some j'" if "(i', j') \<in> set es" for i' j'
  proof -
    have "i' \<noteq> i" using that Cons.prems(1) e by (force simp: mwf_def)
    then show ?thesis using mget_drop_orphan [OF job Cons.prems(3)] Cons.prems(2) that by auto
  qed
  moreover have "chan_inv ?s"
    using Cons.prems(4) job id by (auto simp: drop_orphan_def intro!: chan_finish split: option.split)
  moreover have "led_inv (led_of ?s)"
    using adv_inv [OF adv_drop_orphan [OF job Cons.prems(3)] Cons.prems(3)] .
  moreover have "mwf es" using Cons.prems(1) by (simp add: mwf_def)
  ultimately show ?case using Cons.IH e by (simp add: Ball_def split_beta)
qed

lemma chan_tick:
  assumes "chan_inv s" "agg_inv s"
  shows "chan_inv (tick p now s)"
proof -
  have e: "agJobs (foldl (expire_result now ttl) s es) = agJobs s \<and> agChans (foldl (expire_result now ttl) s es) = agChans s \<and>
    agClosed (foldl (expire_result now ttl) s es) = agClosed s" for ttl es s
    by (induction es arbitrary: s) (auto simp: expire_result_def)
  have c: "agJobs (sync_log (compact_log s)) = agJobs s \<and> agChans (sync_log (compact_log s)) = agChans s \<and>
    agClosed (sync_log (compact_log s)) = agClosed s" for s
    by (simp add: compact_log_def sync_log_def Let_def split: option.split prod.split)
  have "chan_inv (foldl (drop_orphan now g) s (agJobs s))" for g
    using assms by (intro chan_drop_orphans) (auto simp: agg_inv_def agg_wf_def mget_mem)
  then show ?thesis by (simp add: tick_def Let_def c e)
qed

lemma chans_publish [simp]: "agChans (publish_agg p r s) = agChans s" "agClosed (publish_agg p r s) = agClosed s"
  by (simp_all add: publish_agg_def Let_def)

interpretation aggc: machine "agg_step p wl" "\<lambda>s. agg_inv s \<and> chan_inv s" "\<lambda>_. True" for p wl
proof
  fix s e
  assume s: "agg_inv s \<and> chan_inv s"
  have "chan_inv (handle p wl clk ev s)" for clk ev
    using s by (cases ev) (simp_all add: chan_submit chan_result chan_gone chan_tick,
      simp add: stop_agg_def Let_def split: option.split)
  then show "agg_inv (agg_step p wl s e) \<and> chan_inv (agg_step p wl s e)"
    using s agg_inv_step [of s p wl e]
    by (auto simp: agg_step_def stop_agg_def Let_def split: prod.split option.splits)
qed

text \<open>Recovery gives every job a channel of its own.\<close>

lemma chan_replay:
  assumes "chan_ok (rvJobs r) (rvChans r) []"
  shows "chan_ok (rvJobs (foldl (replay wl now) r rs)) (rvChans (foldl (replay wl now) r rs)) []"
  using assms
proof (induction rs arbitrary: r)
  case (Cons x rs)
  have "chan_ok (rvJobs (forget i r)) (rvChans (forget i r)) []" for i
    using Cons.prems by (auto simp: forget_def chan_ok_del split: option.split)
  with Cons.prems have "chan_ok (rvJobs (replay wl now r x)) (rvChans (replay wl now r x)) []"
    by (cases x) (auto simp: newJob_def Let_def chan_ok_put chan_ok_new split: option.split)
  with Cons.IH show ?case by simp
qed simp

lemma chan_promote:
  assumes "chan_ok (rvJobs r) (rvChans r) []"
  shows "chan_ok (rvJobs (foldl (promote now) r es)) (rvChans (foldl (promote now) r es)) []"
  using assms
proof (induction es arbitrary: r)
  case (Cons e es)
  have "chan_ok (rvJobs (promote now r e)) (rvChans (promote now r e)) []"
    using Cons.prems by (auto simp: promote_def forget_def Let_def chan_ok_del split: option.split)
  with Cons.IH show ?case by simp
qed simp

lemma chan_rebuild: "chan_ok (rvJobs (rebuild wl now l recs)) (rvChans (rebuild wl now l recs)) []"
proof -
  have "chan_ok (rvJobs (no_state\<lparr>rvLog := Some l\<rparr>)) (rvChans (no_state\<lparr>rvLog := Some l\<rparr>)) []"
    by (simp add: no_state_def chan_ok_def)
  then show ?thesis unfolding rebuild_def Let_def by (simp add: chan_promote chan_replay)
qed

lemma chan_recover:
  assumes "recover_sched p wl now a b c w img = Ret (Some r)"
  shows "agg_inv (boot_agg dev r) \<and> chan_inv (boot_agg dev r)"
proof (cases rule: recover_cases [of p wl now a b c w img])
  case error
  with assms show ?thesis by simp
next
  case nolog
  then have "r = no_state\<lparr>rvLog := None\<rparr>" using assms by (simp add: no_state_def)
  then show ?thesis
    using boot_inv [OF no_state_led(2) [of None]] by simp (simp add: boot_agg_def no_state_def chan_ok_def)
next
  case (state l recs l')
  then have r: "r = (rebuild wl now l recs)\<lparr>rvLog := Some l'\<rparr>" using assms by simp
  then have "rv_wf r" using rebuild_led(3) [of wl now l recs] by (simp add: rv_wf_def rv_led_def)
  then have "agg_inv (boot_agg dev r)" by (rule boot_inv)
  moreover have "chan_inv (boot_agg dev r)" using chan_rebuild [of wl now l recs] r by (simp add: boot_agg_def)
  ultimately show ?thesis ..
qed

section \<open>Answering an attached client\<close>

definition answered :: "int \<Rightarrow> u64 \<Rightarrow> agg \<Rightarrow> bool" where
  "answered h i s \<longleftrightarrow> (\<exists>x y. AWrite h (MResult (Result i x y)) \<in> set (agOut s))"

definition serving :: "int \<Rightarrow> jobSpec \<Rightarrow> u32 set \<Rightarrow> agg \<Rightarrow> bool" where
  "serving h spec K s \<longleftrightarrow> (\<exists>j. mget (agJobs s) (sId spec) = Some j \<and> jSpec j = spec \<and>
     jClient j = Some h \<and> jOrphanedAt j = None) \<and> (\<forall>k \<in> K. TaskID (sId spec) k \<in> agDone s)"

text \<open>Events that leave the client \<open>h\<close> attached to job \<open>i\<close>.\<close>

fun keeps :: "int \<Rightarrow> u64 \<Rightarrow> agg_event \<Rightarrow> bool" where
  "keeps h i (ESubmit h' gone spec) \<longleftrightarrow> sId spec \<noteq> i"
| "keeps h i (EClientGone h') \<longleftrightarrow> h' \<noteq> h"
| "keeps h i EStop \<longleftrightarrow> False"
| "keeps h i _ \<longleftrightarrow> True"

text \<open>The tasks of \<open>spec\<close> an event reports.\<close>

fun reports :: "jobSpec \<Rightarrow> agg_event \<Rightarrow> u32 set" where
  "reports spec (EResult r) = (if Job (crID r) = sId spec \<and> Idx (crID r) < sN spec then {Idx (crID r)} else {})"
| "reports spec _ = {}"

lemma answered_mono: "answered h i s \<Longrightarrow> adv wl src s s' \<Longrightarrow> answered h i s'"
  unfolding answered_def adv_def by fastforce

lemma serving_cong:
  assumes "serving h spec K s" "mget (agJobs s') (sId spec) = mget (agJobs s) (sId spec)"
    "\<And>k. TaskID (sId spec) k \<in> agDone s \<Longrightarrow> TaskID (sId spec) k \<in> agDone s'"
  shows "serving h spec K s'"
  using assms by (auto simp: serving_def)

lemma task_not_other: "i \<noteq> k \<Longrightarrow> TaskID k x \<notin> job_tasks i n"
  by (auto simp: job_tasks_def)

lemma serving_finish_other:
  assumes "serving h spec K s" "sId (jSpec j) \<noteq> sId spec"
  shows "serving h spec K (finish_job clk j b s)"
  using assms by (intro serving_cong [OF assms(1)]) (simp_all add: finish_job_simps task_not_other)

lemma serving_submit:
  assumes s: "serving h spec K s" and inv: "agg_inv s" and other: "sId spec' \<noteq> sId spec"
  shows "serving h spec K (submit wl clk h' gone spec' s)"
proof (cases "mget (agResults s) (sId spec')")
  case (Some f)
  with s show ?thesis by (simp add: submit_def Let_def serving_def)
next
  case None
  obtain b j s1 where jn: "join_job wl (clk 0) spec' s = (b, j, s1)" by (metis prod_cases3)
  obtain j2 s2 where at: "attach (clk 1) h' gone (sId spec') j s1 = (j2, s2)" by fastforce
  note a = attach_simps [OF at]
  have "sId (jSpec j) = sId spec'"
    using jn led_inv_spec [of s "sId spec'"] inv
    by (auto simp: join_job_def detach_def newJob_def agg_inv_def Let_def split: option.splits)
  then have id: "sId (jSpec j2) = sId spec'" using a by simp
  have "mget (agJobs s1) (sId spec) = mget (agJobs s) (sId spec) \<and> agDone s1 = agDone s"
    using jn other by (auto simp: join_job_def detach_def Let_def split: option.splits)
  then have s3: "serving h spec K (reply x y z (emit w (s2\<lparr>agJobs := mput (agJobs s2) (sId spec') j2\<rparr>)))"
    "serving h spec K (emit w (s2\<lparr>agJobs := mput (agJobs s2) (sId spec') j2\<rparr>))" for x y z w
    using a other by (auto intro: serving_cong [OF s])
  show ?thesis
    using None s3 id other
    by (auto simp: submit_def Let_def jn at [unfolded One_nat_def] intro!: serving_finish_other)
qed

lemma serving_result:
  assumes s: "serving h spec K s" and inv: "agg_inv s"
  shows "serving h spec (K \<union> reports spec (EResult r)) (on_result wl clk r s) \<or> answered h (sId spec) (on_result wl clk r s)"
proof (cases "mget (agJobs s) (Job (crID r))")
  case None
  then have "Job (crID r) \<noteq> sId spec" using s by (auto simp: serving_def)
  with None s show ?thesis by (simp add: on_result_def discard_def Let_def serving_def)
next
  case (Some j)
  have id: "sId (jSpec j) = Job (crID r)" using inv led_inv_spec [OF _ Some] by (simp add: agg_inv_def)
  show ?thesis
  proof (cases "Job (crID r) = sId spec")
    case False
    with Some s id show ?thesis
      by (auto simp: on_result_def discard_def count_result_def Let_def intro!: disjI1 serving_finish_other)
        (auto simp: serving_def)
  next
    case True
    then have j: "jSpec j = spec" "jClient j = Some h" "jOrphanedAt j = None" using s Some by (auto simp: serving_def)
    show ?thesis
    proof (cases "Idx (crID r) \<ge> sN (jSpec j) \<or> crID r \<in> agDone s")
      case d: True
      then have "on_result wl clk r s = discard (crID r) (Idx (crID r) < sN (jSpec j)) s"
        using Some by (simp add: on_result_def Let_def)
      with d s j True show ?thesis
        by (cases "crID r") (auto simp: discard_def serving_def Let_def)
    next
      case new: False
      show ?thesis
      proof (cases "remaining j - 1 = 0")
        case l: True
        have "answered h (sId spec) (on_result wl clk r s)"
          using Some new l j True by (simp add: on_result_def count_result_def Let_def answered_def finish_job_simps reply_def) blast
        then show ?thesis ..
      next
        case False
        with Some new j True s show ?thesis
          by (cases "crID r") (auto simp: on_result_def count_result_def Let_def serving_def)
      qed
    qed
  qed
qed

lemma serving_gone:
  assumes s: "serving h spec K s" and other: "c \<noteq> h"
  shows "serving h spec K (client_gone now c s)"
  using assms by (auto simp: client_gone_def detach_def serving_def Let_def split: option.split)

lemma serving_drop_orphans:
  "mwf es \<Longrightarrow> \<forall>(i, j) \<in> set es. mget (agJobs s) i = Some j \<Longrightarrow> led_inv (led_of s) \<Longrightarrow> serving h spec K s \<Longrightarrow>
   serving h spec K (foldl (drop_orphan now g) s es)"
proof (induction es arbitrary: s)
  case Nil
  then show ?case by simp
next
  case (Cons e es)
  obtain i j where e: "e = (i, j)" by (cases e)
  let ?s = "drop_orphan now g s (i, j)"
  have job: "mget (agJobs s) i = Some j" using Cons.prems(2) e by simp
  have id: "sId (jSpec j) = i" using led_inv_spec [OF Cons.prems(3) job] .
  have "mget (agJobs ?s) i' = Some j'" if "(i', j') \<in> set es" for i' j'
  proof -
    have "i' \<noteq> i" using that Cons.prems(1) e by (force simp: mwf_def)
    then show ?thesis using mget_drop_orphan [OF job Cons.prems(3)] Cons.prems(2) that by auto
  qed
  moreover have "serving h spec K ?s"
  proof (cases "i = sId spec")
    case True
    then have "jOrphanedAt j = None" using Cons.prems(4) job by (auto simp: serving_def)
    with Cons.prems(4) show ?thesis by (simp add: drop_orphan_def)
  next
    case False
    with Cons.prems(4) id show ?thesis by (auto simp: drop_orphan_def serving_finish_other split: option.split)
  qed
  moreover have "led_inv (led_of ?s)"
    using adv_inv [OF adv_drop_orphan [OF job Cons.prems(3)] Cons.prems(3)] .
  moreover have "mwf es" using Cons.prems(1) by (simp add: mwf_def)
  ultimately show ?case using Cons.IH e by (simp add: Ball_def split_beta)
qed

lemma serving_tick:
  assumes "serving h spec K s" "agg_inv s"
  shows "serving h spec K (tick p now s)"
proof -
  have e: "agJobs (foldl (expire_result now ttl) s es) = agJobs s \<and> agDone (foldl (expire_result now ttl) s es) = agDone s" for ttl es s
    by (induction es arbitrary: s) (auto simp: expire_result_def)
  have c: "agJobs (sync_log (compact_log s)) = agJobs s \<and> agDone (sync_log (compact_log s)) = agDone s" for s
    by (simp add: compact_log_def sync_log_def Let_def split: option.split prod.split)
  have "serving h spec K (foldl (drop_orphan now g) s (agJobs s))" for g
    using assms by (intro serving_drop_orphans) (auto simp: agg_inv_def agg_wf_def mget_mem)
  then show ?thesis by (simp add: tick_def serving_def Let_def c e)
qed

lemma serving_step:
  assumes s: "agg_inv s" "serving h spec K s" "\<not> agStopped s" and k: "keeps h (sId spec) ev"
  shows "serving h spec (K \<union> reports spec ev) (agg_step p wl s (clk, room, ev)) \<or> answered h (sId spec) (agg_step p wl s (clk, room, ev))"
proof -
  have pub: "serving h spec K' (publish_agg p room x) = serving h spec K' x"
    "answered h (sId spec) x \<Longrightarrow> answered h (sId spec) (publish_agg p room x)" for K' x
    by (auto simp: publish_agg_def serving_def answered_def Let_def)
  have "serving h spec (K \<union> reports spec ev) (handle p wl clk ev s) \<or> answered h (sId spec) (handle p wl clk ev s)"
    using s k serving_result [of h spec K s _ wl clk]
    by (cases ev) (auto simp: serving_submit serving_gone serving_tick simp del: reports.simps(1))
  with k s(3) pub show ?thesis by (cases ev) (auto simp: agg_step_def)
qed

lemma stopped_step:
  assumes "\<not> agStopped s"
  shows "agStopped (agg_step p wl s (clk, room, ev)) = (ev = EStop)"
proof -
  have sub: "agStopped (submit wl clk h gone spec s) = agStopped s" for h gone spec
    by (auto simp: submit_def join_job_def detach_def attach_def Let_def finish_job_simps split: option.split)
  have d: "agStopped (foldl (drop_orphan now g) s es) = agStopped s" for now g es s
    by (induction es arbitrary: s) (auto simp: drop_orphan_def finish_job_simps split: option.split)
  have x: "agStopped (foldl (expire_result now g) s es) = agStopped s" for now g es s
    by (induction es arbitrary: s) (auto simp: expire_result_def)
  have t: "agStopped (tick p now s) = agStopped s" for now
    by (simp add: tick_def d x sync_log_def compact_log_def Let_def split: option.split prod.split)
  have "agStopped (handle p wl clk ev s) = agStopped s" if "ev \<noteq> EStop"
    using that by (cases ev) (auto simp: sub t on_result_def discard_def count_result_def client_gone_def detach_def
      finish_job_simps Let_def split: option.split)
  with assms show ?thesis
    by (auto simp: agg_step_def publish_agg_def stop_agg_def Let_def split: option.split)
qed

lemma serving_start:
  assumes inv: "agg_inv s" and same: "\<And>j. mget (agJobs s) (sId spec) = Some j \<Longrightarrow> jSpec j = spec"
  shows "serving h spec {k. TaskID (sId spec) k \<in> agDone s} (submit wl clk h False spec s) \<or>
    answered h (sId spec) (submit wl clk h False spec s)"
proof (cases "mget (agResults s) (sId spec)")
  case (Some f)
  then have "answered h (sId spec) (submit wl clk h False spec s)"
    by (simp add: submit_def Let_def answered_def reply_def) blast
  then show ?thesis ..
next
  case None
  obtain b j s1 where jn: "join_job wl (clk 0) spec s = (b, j, s1)" by (metis prod_cases3)
  let ?j = "j\<lparr>jClient := Some h, jOrphanedAt := None\<rparr>"
  have j: "jSpec j = spec" "agDone s1 = agDone s"
    using jn same by (auto simp: join_job_def detach_def newJob_def Let_def split: option.splits)
  show ?thesis
  proof (cases "remaining j = 0")
    case True
    then have "answered h (sId spec) (submit wl clk h False spec s)"
      using None j by (simp add: submit_def Let_def jn attach_def answered_def finish_job_simps reply_def) blast
    then show ?thesis ..
  next
    case False
    then have "serving h spec {k. TaskID (sId spec) k \<in> agDone s} (submit wl clk h False spec s)"
      using None j by (simp add: submit_def Let_def jn attach_def serving_def)
    then show ?thesis ..
  qed
qed

lemma serving_run:
  assumes "serve_inv s" "serving h spec K s \<or> answered h (sId spec) s" "\<not> agStopped s"
    "list_all (\<lambda>e. keeps h (sId spec) (snd (snd e))) es"
  shows "serving h spec (K \<union> (\<Union>e \<in> set es. reports spec (snd (snd e)))) (aggregator p wl s es) \<or>
    answered h (sId spec) (aggregator p wl s es)"
  using assms
proof (induction es arbitrary: s K)
  case Nil
  then show ?case by (simp add: aggregator_def)
next
  case (Cons e es)
  obtain clk room ev where e: "e = (clk, room, ev)" by (cases e)
  let ?s = "agg_step p wl s e"
  have inv: "agg_inv s" using Cons.prems(1) by (simp add: serve_inv_def)
  have k: "keeps h (sId spec) ev" using Cons.prems(4) e by simp
  have 1: "serving h spec (K \<union> reports spec ev) ?s \<or> answered h (sId spec) ?s"
    using serving_step [OF inv _ Cons.prems(3) k, of K p wl clk room] Cons.prems(2) answered_mono adv_step [OF inv] e by blast
  have stop: "\<not> agStopped ?s" using stopped_step [OF Cons.prems(3)] k e by auto
  have "serving h spec ((K \<union> reports spec ev) \<union> (\<Union>e \<in> set es. reports spec (snd (snd e)))) (aggregator p wl ?s es) \<or>
    answered h (sId spec) (aggregator p wl ?s es)"
    using Cons.prems(4) by (intro Cons.IH aggl.step_inv Cons.prems(1) 1 stop) simp_all
  then show ?case by (simp add: aggregator_def e Un_assoc)
qed

text \<open>Once every task is counted, the client has its answer.\<close>

lemma serving_all:
  assumes inv: "serve_inv s" and s: "serving h spec K s \<or> answered h (sId spec) s" and all: "\<And>k. k < sN spec \<Longrightarrow> k \<in> K"
  shows "answered h (sId spec) s"
proof (rule ccontr)
  assume "\<not> answered h (sId spec) s"
  with s obtain j where j: "mget (agJobs s) (sId spec) = Some j" "jSpec j = spec"
    and K: "\<forall>k \<in> K. TaskID (sId spec) k \<in> agDone s"
    by (auto simp: serving_def)
  have d: "led_inv (led_of s)" "remaining j \<noteq> 0" using inv j(1) by (auto simp: serve_inv_def agg_inv_def live_inv_def)
  have "set (idxs (sN spec)) \<subseteq> counted (led_of s) (sId spec)"
    using K all by (auto simp: set_idxs counted_def)
  moreover have "counted (led_of s) (sId spec) \<subseteq> set (idxs (sN spec))"
    "unat (remaining j) + card (counted (led_of s) (sId spec)) = unat (sN spec)"
    using led_invD [OF d(1), of "sId spec"] j by simp_all
  ultimately have "unat (remaining j) = 0" by (metis add_cancel_left_left card_idxs subset_antisym)
  with d(2) show False by (simp add: unat_eq_0)
qed

section \<open>What the log replays to\<close>

lemma replay_led_snoc: "replay_led wl (rs @ [r]) = apply_rec wl (replay_led wl rs) r"
  by (simp add: replay_led_def)

lemma fair_write:
  assumes "fair wl src d (AWrite c m # as)"
  shows "fair wl src d as"
proof (cases m)
  case (MResult x)
  with assms show ?thesis by (cases x) simp
qed (use assms in simp_all)

lemma fair_log:
  "fair wl src d as \<Longrightarrow> replay_led wl rs = d \<Longrightarrow> replay_led wl (log_of rs as) = foldl (apply_rec wl) d (recs_of as)"
proof (induction as arbitrary: d rs)
  case Nil
  then show ?case by simp
next
  case (Cons a as)
  show ?case
  proof (cases a)
    case (ALog r)
    then have "fair wl src (apply_rec wl d r) as" using Cons.prems(1) by (cases r) simp_all
    then show ?thesis using Cons.IH [of "apply_rec wl d r" "rs @ [r]"] Cons.prems(2) ALog by (simp add: replay_led_snoc)
  next
    case (ACompact recs b)
    then have "fair wl src d as" "replay_led wl recs = d" using Cons.prems(1) by simp_all
    then show ?thesis using Cons ACompact by (cases b) simp_all
  next
    case (AWrite c m)
    then have "fair wl src d as" using Cons.prems(1) fair_write by blast
    then show ?thesis using Cons AWrite by simp
  qed (use Cons in simp_all)
qed

lemma fair_fits:
  assumes "fair wl src d as" "list_all rec_fits rs" and src: "\<And>r. src r \<Longrightarrow> rec_fits r"
  shows "list_all rec_fits (log_of rs as)"
  using assms(1,2)
proof (induction as arbitrary: d rs)
  case Nil
  then show ?case by simp
next
  case (Cons a as)
  show ?case
  proof (cases a)
    case (ALog r)
    have "fair wl src (apply_rec wl d r) as"
      using Cons.prems(1) ALog by (cases r) simp_all
    moreover have "rec_fits r" using Cons.prems(1) ALog src [of r] by (cases r) (auto simp: rec_fits_iff)
    ultimately show ?thesis using Cons.IH [of "apply_rec wl d r" "rs @ [r]"] Cons.prems(2) ALog by simp
  next
    case (ACompact recs b)
    then have f: "fair wl src d as" and "\<forall>r \<in> set recs. \<exists>i p. r = JobDone i (Hash p) (Nonce p)" using Cons.prems(1) by (simp, fastforce)
    then have "list_all rec_fits recs" by (force simp: list_all_iff rec_fits_iff)
    with Cons.IH [OF f] Cons.prems(2) ACompact show ?thesis by (cases b) simp_all
  next
    case (AWrite c m)
    then have "fair wl src d as" using Cons.prems(1) fair_write by blast
    then show ?thesis using Cons.IH Cons.prems(2) AWrite by simp
  qed (use Cons.IH Cons.prems in simp_all)
qed

text \<open>Requests whose message the wire format admits.\<close>

fun msg_fits :: "agg_event \<Rightarrow> bool" where
  "msg_fits (ESubmit h gone spec) \<longleftrightarrow> length (sMsg spec) \<le> MaxMsgLen"
| "msg_fits _ \<longleftrightarrow> True"

definition logged :: "Workload \<Rightarrow> agg \<Rightarrow> bool" where
  "logged wl s \<longleftrightarrow> serve_inv s \<and> log_inv [] s \<and> replay_led wl (log_of [] (agOut s)) = led_of s \<and>
     list_all rec_fits (log_of [] (agOut s))"

interpretation aggw: machine "agg_step p wl" "logged wl" "\<lambda>e. msg_fits (snd (snd e))" for p wl
proof
  fix s and e :: agg_input
  assume s: "logged wl s" and e: "msg_fits (snd (snd e))"
  then have inv: "agg_inv s" by (simp add: logged_def serve_inv_def)
  obtain as where as: "agOut (agg_step p wl s e) = agOut s @ as" "led_of (agg_step p wl s e) = foldl (apply_rec wl) (led_of s) (recs_of as)"
    "fair wl (ev_src (snd (snd e))) (led_of s) as"
    using adv_step [OF inv, of wl e p] unfolding adv_def by blast
  have src: "rec_fits r" if "ev_src (snd (snd e)) r" for r
    using that e by (cases "snd (snd e)") (auto simp: start_rec_def chunk_rec_def rec_fits_iff MaxMsgLen_def)
  have "list_all rec_fits (log_of [] (agOut s))" "replay_led wl (log_of [] (agOut s)) = led_of s"
    using s by (simp_all add: logged_def)
  then show "logged wl (agg_step p wl s e)"
    using s as fair_log [OF as(3)] fair_fits [OF as(3) _ src] aggl.step_inv [where s = s and e = e and p = p and wl = wl] log_inv_step [of "[]" s p wl e]
    by (simp add: logged_def)
qed

lemma logged_fresh: "logged wl (fresh b dev)"
proof -
  have "agg_inv (fresh b dev)" "led_of (fresh b dev) = empty_ledger"
    unfolding fresh_def using no_state_led boot_inv by simp_all
  moreover have "live_inv (fresh b dev)" by (simp add: fresh_def boot_agg_def no_state_def live_inv_def)
  moreover have "log_inv [] (fresh b dev)" by (simp add: fresh_def log_inv_def log_ok_empty split: if_split)
  ultimately show ?thesis
    by (simp add: logged_def serve_inv_def) (simp add: fresh_def replay_led_def)
qed

text \<open>An operating system that does what it is asked.\<close>

definition io_ok :: "io \<Rightarrow> bool" where
  "io_ok x = (case x of IoOk _ \<Rightarrow> True | IoErr _ \<Rightarrow> False)"

definition dev_ok :: "wio \<Rightarrow> bool" where
  "dev_ok w \<longleftrightarrow> io_ok (ioHead w) \<and> io_ok (ioBody w) \<and> io_ok (ioFlush w) \<and> fsyncOk w \<and> tmpOpened w \<and>
     (\<forall>n. io_ok (fst (ioTmp w n)) \<and> io_ok (snd (ioTmp w n))) \<and> renamedOk w \<and> closedOk w"

lemma Append_ok: "io_ok a \<Longrightarrow> io_ok b \<Longrightarrow> \<not> lfailed l \<Longrightarrow> \<exists>l'. Append a b r l = (l', True) \<and> \<not> lfailed l'"
  by (auto simp: Append_def bw_write_def io_ok_def Let_def split: io.splits)

lemma Sync_ok: "io_ok a \<Longrightarrow> \<not> lfailed l \<Longrightarrow>
  \<exists>l'. Sync a True l = (l', True) \<and> \<not> lfailed l' \<and> lsynced l' = lfile l' \<and> lbuf l' = []"
  by (auto simp: Sync_def bw_flush_def push_def io_ok_def split: io.splits)

lemma append_all_ok:
  "\<forall>n. io_ok (fst (ios n)) \<and> io_ok (snd (ios n)) \<Longrightarrow> \<not> lfailed l \<Longrightarrow> \<exists>l'. append_all ios rs l = (l', True) \<and> \<not> lfailed l'"
proof (induction rs arbitrary: ios l)
  case (Cons r rs)
  obtain l1 where l1: "Append (fst (ios 0)) (snd (ios 0)) r l = (l1, True)" "\<not> lfailed l1" using Append_ok Cons.prems by blast
  obtain l' where "append_all (\<lambda>i. ios (Suc i)) rs l1 = (l', True)" "\<not> lfailed l'"
    using Cons.IH [of "\<lambda>i. ios (Suc i)" l1] Cons.prems(1) l1(2) by auto
  with l1 show ?case by simp
qed simp

lemma Rewrite_dev_ok:
  assumes "dev_ok w"
  shows "\<exists>l'. Rewrite (tmpOpened w) (ioTmp w) (ioFlush w) (fsyncOk w) (renamedOk w) recs l = (l', True)"
proof -
  obtain n where n: "append_all (ioTmp w) recs \<lparr>lfile = [], lsynced = [], lbuf = [], lfailed = False, lsize = 0\<rparr> = (n, True)" "\<not> lfailed n"
    using append_all_ok [of "ioTmp w" "\<lparr>lfile = [], lsynced = [], lbuf = [], lfailed = False, lsize = 0\<rparr>" recs] assms
    by (auto simp: dev_ok_def)
  then show ?thesis using assms Sync_ok [of "ioFlush w" n] by (auto simp: Rewrite_def dev_ok_def)
qed

text \<open>A fully synced log brings the whole ledger back, whatever the crash keeps beyond it.\<close>

lemma synced_recover:
  assumes s: "logged wl s" and l: "agLog s = Some l" "\<not> lfailed l" "lbuf l = []" "lsynced l = lfile l"
    and p: "WALPath p \<noteq> []"
  shows "\<exists>r. recover_sched p wl now True True True w (disk k s) = Ret r \<and>
    (dev_ok w \<longrightarrow> r \<noteq> None) \<and> (\<forall>x. r = Some x \<longrightarrow> rv_led x = led_of s)"
proof -
  let ?rs = "log_of [] (agOut s)"
  have ok: "log_ok ?rs l" and fits: "list_all rec_fits ?rs" and rep: "replay_led wl ?rs = led_of s"
    using s l(1) by (simp_all add: logged_def log_inv_def)
  have img: "disk k s = concat (map frame ?rs)"
    using ok l by (simp add: disk_def log_ok_def log_bytes_def)
  obtain l0 where op: "Open True True True (disk k s) = Ret (Some (l0, ?rs))"
    using readAll_stream [OF fits] by (simp add: Open_def img)
  let ?r1 = "foldl (replay wl now) (no_state\<lparr>rvLog := Some l0\<rparr>) ?rs"
  have "remaining j \<noteq> 0" if "(i, j) \<in> set (rvJobs ?r1)" for i j
  proof -
    have "mwf (rvJobs ?r1)" "rv_led ?r1 = led_of s" using replay_all [of wl now "Some l0" ?rs] rep by (simp_all add: rv_wf_def)
    then have "ldJobs (led_of s) i = Some (jSpec j, remaining j, jAcc j)"
      using that rv_led_simps(2) [of ?r1 i] by (auto simp: mget_mem)
    then show ?thesis using s by (auto simp: logged_def serve_inv_def live_inv_def)
  qed
  then have "promo_recs (rvJobs ?r1) = []" by (auto simp: promo_recs_def filter_empty_conv)
  then have led: "rv_led (rebuild wl now l0 ?rs) = led_of s"
    using rebuild_led(1) [of wl now l0 ?rs] rep by simp
  have led': "rv_led (x\<lparr>rvLog := y\<rparr>) = rv_led x" for x y by (simp add: rv_led_def)
  show ?thesis
  proof (cases "?rs = []")
    case True
    with p op led show ?thesis by (simp add: recover_sched_def Let_def)
  next
    case False
    obtain l' b where rw: "Rewrite (tmpOpened w) (ioTmp w) (ioFlush w) (fsyncOk w) (renamedOk w)
        (compact_recs (rebuild wl now l0 ?rs)) l0 = (l', b)" by fastforce
    moreover have "dev_ok w \<Longrightarrow> b" using rw Rewrite_dev_ok [of w "compact_recs (rebuild wl now l0 ?rs)" l0] by simp
    ultimately show ?thesis using p op led led' False by (cases b) (auto simp: recover_sched_def Let_def)
  qed
qed

section \<open>Demonstration runs\<close>

definition demo_wio :: wio where
  "demo_wio = \<lparr>ioHead = IoOk 0, ioBody = IoOk 0, ioFlush = IoOk 0, fsyncOk = True, tmpOpened = True,
     ioTmp = (\<lambda>_. (IoOk 0, IoOk 0)), renamedOk = True, closedOk = True\<rparr>"

lemma demo_wio_ok: "dev_ok demo_wio"
  by (simp add: dev_ok_def demo_wio_def io_ok_def)

definition demo_params :: schedParams where
  "demo_params = withDefaults (Some (zeroSchedParams\<lparr>WALPath := [119]\<rparr>))"

end
