(* ===== verification/Guarantees.thy ===== *)
theory Guarantees
  imports Service
begin

text \<open>
  The guarantees of the aggregator, its log and recovery, as theorems over whole runs. A run
  starts from \<open>fresh\<close>, the state of a scheduler that finds no log or an empty one, or from what
  recovery returns.
\<close>

section \<open>Books\<close>

lemma sys_agg_inv:
  assumes "agg_inv (fst x)"
  shows "agg_inv (fst (sys_step p wl x e))"
proof (cases e)
  case (Live i)
  with assms show ?thesis by (cases x) (simp add: agg_inv_step)
next
  case (Crash k now w dev)
  obtain s past where x: "x = (s, past)" by (cases x)
  have "agg_inv (s\<lparr>agStopped := True\<rparr>)" using assms x by (simp add: agg_inv_def agg_wf_def led_of_def)
  then show ?thesis
    using Crash x chan_recover [of p wl now True True True w "disk k s" _ dev]
    by (auto split: go.split option.split)
qed

interpretation sysb: machine "sys_step p wl" "\<lambda>x. agg_inv (fst x)" "\<lambda>_. True" for p wl
  by unfold_locales (rule sys_agg_inv)

lemma fresh_inv: "agg_inv (fresh b dev)"
  using logged_fresh by (simp add: logged_def serve_inv_def)

lemma fresh_run: "serve_inv (aggregator p wl (fresh b dev) es)"
  unfolding aggregator_def using logged_fresh [of _ b dev] by (intro aggl.run_inv) (simp_all add: logged_def list_all_iff)


text \<open>
  (C9) The aggregator implements the abstract ledger: after any run, its jobs, counted tasks and
  stored answers are what the abstract machine computes from the records the aggregator passed
  to the log, in the order it passed them.
\<close>

theorem agg_refines_ledger:
  "led_of (aggregator p wl (fresh b dev) es) = replay_led wl (recs_of (agOut (aggregator p wl (fresh b dev) es)))"
proof -
  have "led_of (aggregator p wl s es) = foldl (apply_rec wl) d (recs_of (agOut (aggregator p wl s es)))"
    if "agg_inv s" "led_of s = foldl (apply_rec wl) d (recs_of (agOut s))" for s d
    using that
  proof (induction es arbitrary: s)
    case Nil
    then show ?case by (simp add: aggregator_def)
  next
    case (Cons e es)
    obtain as where "agOut (agg_step p wl s e) = agOut s @ as"
      "led_of (agg_step p wl s e) = foldl (apply_rec wl) (led_of s) (recs_of as)"
      using adv_step [OF Cons.prems(1), of wl e p] unfolding adv_def by blast
    then show ?case
      using Cons.IH [OF agg_inv_step [OF Cons.prems(1)]] Cons.prems(2) by (simp add: aggregator_def)
  qed
  moreover have "led_of (fresh b dev) = empty_ledger" "agOut (fresh b dev) = []"
    by (simp_all add: fresh_def no_state_led)
  ultimately show ?thesis using fresh_inv [of b dev] by (simp add: replay_led_def)
qed

section \<open>Answers\<close>

text \<open>
  (C1) Answers are right: whatever interleaving of requests, results, disconnections, ticks,
  crashes that keep any part of the log beyond what was synced, and restarts, every answer the
  scheduler sends to a client for job \<open>i\<close> is the minimum the hash search defines over the job's
  whole range, provided identifiers name one job each and workers compute what they are asked.
\<close>

theorem answers_correct:
  assumes "\<forall>i. spec_ok (sp i) \<and> length (sMsg (sp i)) \<le> MaxMsgLen"
    and "list_all (sys_ev_ok sp) es"
    and "AWrite c (MResult (Result i h x)) \<in>
      set (snd (sys_run p hashsearch (fresh b dev, []) es) @ agOut (fst (sys_run p hashsearch (fresh b dev, []) es)))"
  shows "Partial h x = Compute (sMsg (sp i)) (sLo (sp i)) (sHi (sp i))"
proof -
  have "sys_ok sp (sys_run p hashsearch (fresh b dev, []) es)"
    unfolding sys_run_def using sys_ok_fresh [OF assms(1)] assms(2) by (rule sysm.run_inv)
  then have "list_all (act_ok hashsearch sp)
      (snd (sys_run p hashsearch (fresh b dev, []) es) @ agOut (fst (sys_run p hashsearch (fresh b dev, []) es)))"
    by (simp add: sys_ok_def agg_val_def)
  then have "act_ok hashsearch sp (AWrite c (MResult (Result i h x)))" using assms(3) unfolding list_all_iff by blast
  then show ?thesis by (simp add: spec_value_def hashsearch_def)
qed

text \<open>A run in which a job is answered, the scheduler restarts, and the client asks again.\<close>

definition demo_spec :: "u64 \<Rightarrow> jobSpec" where
  "demo_spec i = jobSpec i 10 11 10 1 [104]"

definition demo_answer :: Partial where
  "demo_answer = task_value hashsearch (feed_task (demo_spec 7) 0)"

definition demo_result :: "agg_input" where
  "demo_result = (\<lambda>_. 0, False, EResult (ChunkResult (TaskID 7 0) (Hash demo_answer) (Nonce demo_answer)))"

definition demo_crash :: "sys_event list" where
  "demo_crash = [Live (\<lambda>_. 0, False, ESubmit 1 False (demo_spec 7)), Crash 3 9 demo_wio (\<lambda>_. demo_wio),
     Live (\<lambda>_. 0, False, ESubmit 2 False (demo_spec 7)), Live demo_result]"

lemmas demo_simps = sys_run_def agg_step_def publish_agg_def submit_def join_job_def attach_def newJob_def
  on_result_def count_result_def finish_job_simps reply_def fresh_def boot_agg_def no_state_def recover_sched_def
  mput_def mget_def withDefaults_def zeroSchedParams_def

theorem answers_correct_witness:
  "AWrite 2 (MResult (Result 7 (Hash (Merge Zero demo_answer)) (Nonce (Merge Zero demo_answer)))) \<in>
     set (snd (sys_run (withDefaults None) hashsearch (fresh False (\<lambda>_. demo_wio), []) demo_crash) @
          agOut (fst (sys_run (withDefaults None) hashsearch (fresh False (\<lambda>_. demo_wio), []) demo_crash))) \<and>
   Merge Zero demo_answer = Compute [104] 10 11"
proof -
  have m: "AWrite 2 (MResult (Result 7 (Hash (Merge Zero demo_answer)) (Nonce (Merge Zero demo_answer)))) \<in>
     set (snd (sys_run (withDefaults None) hashsearch (fresh False (\<lambda>_. demo_wio), []) demo_crash) @
          agOut (fst (sys_run (withDefaults None) hashsearch (fresh False (\<lambda>_. demo_wio), []) demo_crash)))"
    by (simp add: demo_simps demo_crash_def demo_result_def demo_spec_def hashsearch_def Let_def)
  have "\<forall>i. spec_ok (demo_spec i) \<and> length (sMsg (demo_spec i)) \<le> MaxMsgLen"
    by (simp add: demo_spec_def spec_ok_def MaxMsgLen_def)
  moreover have "list_all (sys_ev_ok demo_spec) demo_crash"
    by (simp add: demo_crash_def demo_result_def demo_spec_def chunk_rec_def)
      (simp add: demo_answer_def demo_spec_def)
  ultimately have "Partial (Hash (Merge Zero demo_answer)) (Nonce (Merge Zero demo_answer)) =
      Compute (sMsg (demo_spec 7)) (sLo (demo_spec 7)) (sHi (demo_spec 7))"
    using answers_correct m by blast
  with m show ?thesis by (simp add: demo_spec_def)
qed



section \<open>Counting once\<close>

text \<open>
  (C19) A result counts once: when the same result arrives again, at any time before the next
  change, it is discarded. The jobs, the counted tasks, the stored answers and the log stay as
  they are, nothing is sent to a client, and only the discard is reported.
\<close>

theorem result_idempotent:
  "\<exists>dup. let s = aggregator p wl (fresh b dev) es; s1 = on_result wl clk r s; s2 = on_result wl clk' r s1 in
     agJobs s2 = agJobs s1 \<and> agDone s2 = agDone s1 \<and> agResults s2 = agResults s1 \<and> agLog s2 = agLog s1 \<and>
     agOut s2 = agOut s1 @ [AOnDiscard (crID r) dup]"
proof -
  let ?s = "aggregator p wl (fresh b dev) es" and ?t = "crID r"
  have inv: "agg_inv ?s" using fresh_run by (simp add: serve_inv_def)
  have "\<exists>dup. on_result wl clk' r (on_result wl clk r ?s) = discard ?t dup (on_result wl clk r ?s)"
  proof (cases "mget (agJobs ?s) (Job ?t)")
    case None
    then show ?thesis by (auto simp: on_result_def discard_def Let_def)
  next
    case (Some j)
    then have id: "sId (jSpec j) = Job ?t" using inv led_inv_spec [OF _ Some] by (simp add: agg_inv_def)
    show ?thesis
    proof (cases "Idx ?t \<ge> sN (jSpec j) \<or> ?t \<in> agDone ?s")
      case True
      with Some show ?thesis by (auto simp: on_result_def discard_def Let_def)
    next
      case False
      with Some id show ?thesis
        by (cases "remaining j - 1 = 0") (auto simp: on_result_def count_result_def Let_def finish_job_simps)
    qed
  qed
  then show ?thesis by (auto simp: discard_def Let_def)
qed

section \<open>Durability\<close>

text \<open>With a working device, a new request leaves a log that is completely synced.\<close>

lemma record_synced:
  assumes "agLog s = Some l" "\<not> lfailed l" "dev_ok (agDev s 0)"
  shows "\<exists>l'. agLog (record_rec r True s) = Some l' \<and> \<not> lfailed l' \<and> lbuf l' = [] \<and> lsynced l' = lfile l'"
proof -
  let ?w = "agDev s 0"
  obtain l1 where l1: "Append (ioHead ?w) (ioBody ?w) r l = (l1, True)" "\<not> lfailed l1"
    using Append_ok [of "ioHead ?w" "ioBody ?w" l r] assms by (auto simp: dev_ok_def)
  obtain l2 where "Sync (ioFlush ?w) True l1 = (l2, True)" "\<not> lfailed l2" "lsynced l2 = lfile l2" "lbuf l2 = []"
    using Sync_ok [of "ioFlush ?w" l1] l1(2) assms(3) by (auto simp: dev_ok_def)
  with l1 assms show ?thesis by (simp add: record_rec_def dev_ok_def Let_def)
qed


definition demo_task_spec :: jobSpec where
  "demo_task_spec = jobSpec 7 0 20 10 2 [104]"


section \<open>Recovery\<close>

text \<open>
  (C20) Recovery is total: whatever bytes the log file holds and however the operating system
  behaves, \<^verbatim>\<open>recover\<close> returns a state or an error and never panics, and a scheduler started from
  the state it returns never closes a cancel channel twice (which would panic), in any run.
\<close>

theorem recover_total:
  "\<exists>x. recover_sched p wl now opened truncated sought w img = Ret x \<and>
    (case x of None \<Rightarrow> True | Some r \<Rightarrow> distinct (agClosed (aggregator p wl (boot_agg dev r) es)))"
proof -
  have d: "distinct (agClosed (aggregator p wl (boot_agg dev r) es))"
    if "recover_sched p wl now opened truncated sought w img = Ret (Some r)" for r
  proof -
    have "agg_inv (aggregator p wl (boot_agg dev r) es) \<and> chan_inv (aggregator p wl (boot_agg dev r) es)"
      unfolding aggregator_def using chan_recover [OF that, of dev]
      by (rule aggc.run_inv) (simp add: list_all_iff)
    then show ?thesis unfolding chan_ok_def by blast
  qed
  show ?thesis
  proof (cases rule: recover_cases [of p wl now opened truncated sought w img])
    case error
    then show ?thesis by simp
  next
    case nolog
    with d [OF nolog(2)] show ?thesis by simp
  next
    case (state l recs l')
    with d [OF state(2)] show ?thesis by simp
  qed
qed

section \<open>Grace periods\<close>

lemma drop_orphans_exact:
  "mwf es \<Longrightarrow> \<forall>(i, j) \<in> set es. sId (jSpec j) = i \<Longrightarrow>
   mget (agJobs (foldl (drop_orphan now g) s es)) i =
     (case mget es i of
        Some j \<Rightarrow> (case jOrphanedAt j of Some t \<Rightarrow> if now - t > g then None else mget (agJobs s) i | None \<Rightarrow> mget (agJobs s) i)
      | None \<Rightarrow> mget (agJobs s) i)"
proof (induction es arbitrary: s)
  case Nil
  then show ?case by simp
next
  case (Cons e es)
  obtain k j where e: "e = (k, j)" by (cases e)
  have none: "mget es k = None" using Cons.prems(1) e by (force simp: mwf_def mget_def map_of_eq_None_iff)
  have "mwf es" using Cons.prems(1) by (simp add: mwf_def)
  note IH = Cons.IH [OF this, of "drop_orphan now g s e"]
  have "mget (agJobs (drop_orphan now g s e)) i =
      (if i = k then (case jOrphanedAt j of Some t \<Rightarrow> if now - t > g then None else mget (agJobs s) i | None \<Rightarrow> mget (agJobs s) i)
       else mget (agJobs s) i)"
    using Cons.prems(2) e by (auto simp: drop_orphan_def finish_job_simps split: option.split)
  with IH Cons.prems(2) none e show ?case
    by (cases "i = k") (simp_all add: mget_def split: option.split)
qed

lemma expire_exact:
  "mwf es \<Longrightarrow> mget (agResults (foldl (expire_result now g) s es)) i =
     (case mget es i of Some f \<Rightarrow> if now - fAt f > g then None else mget (agResults s) i | None \<Rightarrow> mget (agResults s) i)"
proof (induction es arbitrary: s)
  case Nil
  then show ?case by simp
next
  case (Cons e es)
  obtain k f where e: "e = (k, f)" by (cases e)
  have none: "mget es k = None" using Cons.prems(1) e by (force simp: mwf_def mget_def map_of_eq_None_iff)
  have "mwf es" using Cons.prems(1) by (simp add: mwf_def)
  note IH = Cons.IH [OF this, of "expire_result now g s e"]
  have "mget (agResults (expire_result now g s e)) i = (if i = k \<and> now - fAt f > g then None else mget (agResults s) i)"
    by (simp add: expire_result_def e)
  with IH none e show ?case by (cases "i = k") (simp_all add: mget_def split: option.split)
qed

text \<open>
  (C25) Housekeeping drops exactly what is due: of the running jobs, those whose client has been
  gone for longer than the grace period, and of the stored answers, those older than their time
  to live. Every other job and answer is untouched, in particular every job with a client.
\<close>

theorem tick_exact:
  assumes "s = aggregator p wl (fresh b dev) es"
  shows "mget (agJobs (tick p now s)) i =
      (case mget (agJobs s) i of
         Some j \<Rightarrow> (case jOrphanedAt j of Some t \<Rightarrow> if now - t > JobGraceMs p * Millisecond then None else Some j | None \<Rightarrow> Some j)
       | None \<Rightarrow> None) \<and>
    mget (agResults (tick p now s)) i =
      (case mget (agResults s) i of
         Some f \<Rightarrow> if now - fAt f > ResultTTLMs p * Millisecond then None else Some f
       | None \<Rightarrow> None)"
proof -
  have inv: "agg_inv s" using fresh_run [of p wl b dev es] unfolding assms by (simp add: serve_inv_def)
  then have wf: "mwf (agJobs s)" "mwf (agResults s)" "\<forall>(i, j) \<in> set (agJobs s). sId (jSpec j) = i"
    using led_inv_spec [of s] by (auto simp: agg_inv_def agg_wf_def mget_mem)
  have r1: "agResults (foldl (drop_orphan now g) s es) = agResults s" for g s es
    by (induction es arbitrary: s) (auto simp: drop_orphan_def finish_job_simps split: option.split)
  have j1: "agJobs (foldl (expire_result now g) s es) = agJobs s" for g s es
    by (induction es arbitrary: s) (auto simp: expire_result_def)
  have c: "agJobs (sync_log (compact_log s)) = agJobs s" "agResults (sync_log (compact_log s)) = agResults s" for s
    by (simp_all add: compact_log_def sync_log_def Let_def split: option.split prod.split)
  show ?thesis
    using drop_orphans_exact [OF wf(1,3), of now "JobGraceMs p * Millisecond" s i]
      expire_exact [OF wf(2), of now "ResultTTLMs p * Millisecond" _ i]
    by (auto simp: tick_def Let_def c j1 r1 split: option.split)
qed

theorem tick_exact_witness:
  "mget (agJobs (tick (withDefaults None) 0 (aggregator (withDefaults None) hashsearch (fresh False (\<lambda>_. demo_wio))
     [(\<lambda>_. 0, False, ESubmit 1 False demo_task_spec)]))) 7 \<noteq> None"
  using tick_exact [OF refl, of "withDefaults None" 0 hashsearch False "\<lambda>_. demo_wio" "[(\<lambda>_. 0, False, ESubmit 1 False demo_task_spec)]" 7]
  by (simp add: aggregator_def demo_simps demo_task_spec_def Let_def)

end
