(* ===== verification/Compaction.thy ===== *)
theory Compaction
  imports Guarantees
begin

text \<open>
  The rewritten log and the feeds of recovery. The ledger is local: what it holds for a job
  depends on the records of that job only. From this follows that, when no identifier is started
  twice in the log, the log \<^verbatim>\<open>recover\<close> writes back replays to the recovered state and the feeders
  it starts queue exactly the tasks that are not counted. When an identifier is started twice this
  fails, which is shown on a run.
\<close>

section \<open>The ledger is local\<close>

fun rec_job :: "Record \<Rightarrow> u64" where
  "rec_job (JobStart i lo hi sz n msg) = i"
| "rec_job (ChunkDone i k h x) = i"
| "rec_job (JobDone i h x) = i"
| "rec_job (JobDrop i) = i"

definition led_entry :: "ledger \<Rightarrow> u64 \<Rightarrow> (jobSpec \<times> u32 \<times> Partial) option \<times> u32 set \<times> Partial option" where
  "led_entry d i = (ldJobs d i, counted d i, ldResults d i)"

lemma led_entry_eqI: "(\<And>i. led_entry d i = led_entry d' i) \<Longrightarrow> d = d'"
proof (rule ledger_eqI)
  assume e: "\<And>i. led_entry d i = led_entry d' i"
  then show "ldJobs d i = ldJobs d' i" "ldResults d i = ldResults d' i" for i by (simp_all add: led_entry_def)
  have "t \<in> ldDone d \<longleftrightarrow> t \<in> ldDone d'" for t
  proof -
    have "Idx t \<in> counted d (Job t) \<longleftrightarrow> Idx t \<in> counted d' (Job t)" using e [of "Job t"] by (simp add: led_entry_def)
    then show ?thesis by (simp add: counted_def)
  qed
  then show "ldDone d = ldDone d'" by blast
qed

lemma apply_other:
  assumes "led_inv d" "rec_job r \<noteq> i"
  shows "led_entry (apply_rec wl d r) i = led_entry d i"
  using assms by (cases r) (auto simp: led_entry_def Let_def split: option.split)

lemma apply_same:
  assumes "led_inv d" "led_inv d'" "rec_job r = i" "led_entry d i = led_entry d' i"
  shows "led_entry (apply_rec wl d r) i = led_entry (apply_rec wl d' r) i"
proof (cases r)
  case (ChunkDone i' k h x)
  moreover have "TaskID i k \<in> ldDone d \<longleftrightarrow> TaskID i k \<in> ldDone d'"
    using assms(4) by (auto simp: led_entry_def counted_def)
  ultimately show ?thesis using assms by (auto simp: led_entry_def split: option.split)
qed (use assms in \<open>auto simp: led_entry_def Let_def\<close>)

lemma replay_local:
  "led_inv d \<Longrightarrow> led_inv d' \<Longrightarrow> led_entry d i = led_entry d' i \<Longrightarrow>
   led_entry (foldl (apply_rec wl) d rs) i = led_entry (foldl (apply_rec wl) d' (filter (\<lambda>r. rec_job r = i) rs)) i"
proof (induction rs arbitrary: d d')
  case Nil
  then show ?case by simp
next
  case (Cons r rs)
  show ?case
  proof (cases "rec_job r = i")
    case True
    have "led_entry (apply_rec wl d r) i = led_entry (apply_rec wl d' r) i"
      by (rule apply_same [OF Cons.prems(1,2) True Cons.prems(3)])
    from Cons.IH [OF led_inv_apply [OF Cons.prems(1)] led_inv_apply [OF Cons.prems(2)] this] True show ?thesis by simp
  next
    case False
    have "led_entry (apply_rec wl d r) i = led_entry d' i"
      using apply_other [OF Cons.prems(1) False] Cons.prems(3) by simp
    with Cons.IH [OF led_inv_apply [OF Cons.prems(1)] Cons.prems(2)] False show ?thesis by simp
  qed
qed

lemma replay_entry: "led_entry (replay_led wl rs) i = led_entry (replay_led wl (filter (\<lambda>r. rec_job r = i) rs)) i"
  unfolding replay_led_def by (rule replay_local) (simp_all add: led_inv_empty)

section \<open>The chunks kept for compaction\<close>

fun starts :: "Record list \<Rightarrow> u64 list" where
  "starts [] = []"
| "starts (JobStart i lo hi sz n msg # rs) = i # starts rs"
| "starts (_ # rs) = starts rs"

text \<open>
  After the replay of records that start the jobs \<open>S\<close>: a job not started has no chunks, and the
  records kept for a running job replay to its entry.
\<close>

definition chunk_at :: "Workload \<Rightarrow> u64 set \<Rightarrow> recovered \<Rightarrow> u64 \<Rightarrow> bool" where
  "chunk_at wl S r i \<longleftrightarrow> (i \<notin> S \<longrightarrow> chunks_of i r = []) \<and> (\<forall>k \<in> set (chunks_of i r). rec_job k = i) \<and>
     (\<forall>j. mget (rvJobs r) i = Some j \<longrightarrow> i \<in> S \<and>
        led_entry (replay_led wl (job_recs r (i, j))) i = led_entry (rv_led r) i \<and> skip_of r i = counted (rv_led r) i)"

text \<open>Only the chunks, the job and the entry of \<open>i\<close> matter, and a job may go.\<close>

lemma chunk_at_frame:
  assumes c: "chunk_at wl S r i" and "S \<subseteq> S'" and s: "i \<notin> S' \<or> i \<in> S \<or> chunks_of i r = []" and ch: "chunks_of i r' = chunks_of i r"
    and j: "\<And>j. mget (rvJobs r') i = Some j \<Longrightarrow> mget (rvJobs r) i = Some j \<and> led_entry (rv_led r') i = led_entry (rv_led r) i"
  shows "chunk_at wl S' r' i"
proof -
  have same: "job_recs r' (i, j) = job_recs r (i, j)" "skip_of r' i = skip_of r i" for j by (simp_all add: job_recs_def skip_of_def ch)
  show ?thesis
    unfolding chunk_at_def
  proof (intro conjI allI impI)
    show "chunks_of i r' = []" if "i \<notin> S'" using c that assms(2) ch unfolding chunk_at_def by auto
    show "\<forall>k \<in> set (chunks_of i r'). rec_job k = i" using c unfolding ch chunk_at_def by blast
    fix j'
    assume "mget (rvJobs r') i = Some j'"
    then have m: "mget (rvJobs r) i = Some j'" and e: "led_entry (rv_led r') i = led_entry (rv_led r) i" using j by blast+
    have "i \<in> S" "led_entry (replay_led wl (job_recs r (i, j'))) i = led_entry (rv_led r) i" "skip_of r i = counted (rv_led r) i"
      using c m unfolding chunk_at_def by blast+
    with assms(2) e same show "i \<in> S'" "led_entry (replay_led wl (job_recs r' (i, j'))) i = led_entry (rv_led r') i"
      "skip_of r' i = counted (rv_led r') i"
      by (auto simp: led_entry_def)
  qed
qed

lemma chunk_at_other:
  assumes "chunk_at wl S r i" "rv_wf r" "rec_job rec \<noteq> i"
  shows "chunk_at wl (S \<union> set (starts [rec])) (replay wl now r rec) i"
proof (rule chunk_at_frame [OF assms(1)])
  show "i \<notin> S \<union> set (starts [rec]) \<or> i \<in> S \<or> chunks_of i r = []" using assms(3) by (cases rec) auto
  show "chunks_of i (replay wl now r rec) = chunks_of i r"
    using assms(3) by (cases rec) (auto simp: chunks_of_def Let_def split: option.split)
  have e: "led_entry (rv_led (replay wl now r rec)) i = led_entry (rv_led r) i"
    using assms(2,3) by (simp add: replay_led1 apply_other rv_wf_def)
  have "mget (rvJobs (replay wl now r rec)) i = mget (rvJobs r) i"
    using assms(3) by (cases rec) (auto simp: Let_def split: option.split)
  with e show "mget (rvJobs (replay wl now r rec)) i = Some j \<Longrightarrow>
      mget (rvJobs r) i = Some j \<and> led_entry (rv_led (replay wl now r rec)) i = led_entry (rv_led r) i" for j by simp
qed blast

lemma chunk_at_start:
  assumes c: "chunk_at wl S r i" and wf: "rv_wf r" and new: "i \<notin> S"
  shows "chunk_at wl (insert i S) (replay wl now r (JobStart i lo hi sz n msg)) i"
proof -
  have ch: "chunks_of i r = []" and none: "mget (rvJobs r) i = None" using c new unfolding chunk_at_def by fastforce+
  let ?r = "replay wl now r (JobStart i lo hi sz n msg)"
  have ch': "chunks_of i ?r = []" using ch by (simp add: none) (simp add: chunks_of_def)
  have d: "led_inv (rv_led r)" using wf by (simp add: rv_wf_def)
  have emp: "counted (rv_led r) i = {}" using led_invD [OF d, of i] none by simp
  have e: "led_entry (rv_led ?r) i = (Some (jobSpec i lo hi sz n msg, n, wlZero wl), {}, None)"
    unfolding replay_led1 using none emp by (simp add: led_entry_def)
  moreover have "job_recs ?r (i, j) = [JobStart i lo hi sz n msg]" if "mget (rvJobs ?r) i = Some j" for j
    using that none ch' by (auto simp: job_recs_def newJob_def)
  moreover have "led_entry (replay_led wl [JobStart i lo hi sz n msg]) i = (Some (jobSpec i lo hi sz n msg, n, wlZero wl), {}, None)"
    by (simp add: replay_led_def empty_ledger_def led_entry_def counted_def)
  moreover have "counted (rv_led ?r) i = {}" using e by (simp add: led_entry_def)
  ultimately show ?thesis
    using ch' unfolding chunk_at_def by (simp add: skip_of_def del: replay.simps rv_led_simps)
qed

lemma chunk_at_chunk:
  assumes c: "chunk_at wl S r i" and wf: "rv_wf r"
  shows "chunk_at wl S (replay wl now r (ChunkDone i k h x)) i"
proof (cases "\<exists>j. mget (rvJobs r) i = Some j \<and> k < sN (jSpec j) \<and> TaskID i k \<notin> rvDone r")
  case False
  then have "replay wl now r (ChunkDone i k h x) = r" by (auto simp: not_le split: option.split)
  with c show ?thesis by simp
next
  case True
  then obtain j where j: "mget (rvJobs r) i = Some j" "k < sN (jSpec j)" "TaskID i k \<notin> rvDone r" by blast
  let ?rec = "ChunkDone i k h x"
  let ?r = "replay wl now r ?rec"
  have d: "led_inv (rv_led r)" using wf by (simp add: rv_wf_def)
  have ch: "chunks_of i ?r = chunks_of i r @ [?rec]" using j by (simp add: not_le [symmetric]) (simp add: chunks_of_def)
  have old: "i \<in> S" "led_entry (replay_led wl (job_recs r (i, j))) i = led_entry (rv_led r) i" "skip_of r i = counted (rv_led r) i"
    "\<forall>k \<in> set (chunks_of i r). rec_job k = i"
    using c j(1) unfolding chunk_at_def by blast+
  have job: "job_recs ?r (i, j') = job_recs r (i, j) @ [?rec]" if "mget (rvJobs ?r) i = Some j'" for j'
    using that j ch by (auto simp: job_recs_def Let_def not_le [symmetric])
  have "led_entry (replay_led wl (job_recs r (i, j) @ [?rec])) i = led_entry (rv_led ?r) i"
    unfolding replay_led1 replay_led_snoc by (rule apply_same [OF led_inv_replay d _ old(2)]) simp
  moreover have "skip_of ?r i = insert k (skip_of r i)" by (simp add: skip_of_def ch del: replay.simps)
  moreover have "counted (rv_led ?r) i = insert k (counted (rv_led r) i)"
    using j by (auto simp: counted_def not_le [symmetric])
  ultimately show ?thesis
    unfolding chunk_at_def using old ch job by (auto simp del: replay.simps)
qed

lemma chunk_at_end:
  assumes "chunk_at wl S r i" "rec = JobDone i h x \<or> rec = JobDrop i"
  shows "chunk_at wl S (replay wl now r rec) i"
  by (rule chunk_at_frame [OF assms(1)]) (use assms(2) in \<open>auto simp: Let_def chunks_of_def\<close>)

lemma chunk_at_replay:
  "\<forall>i. chunk_at wl S r i \<Longrightarrow> rv_wf r \<Longrightarrow> distinct (starts rs) \<Longrightarrow> set (starts rs) \<inter> S = {} \<Longrightarrow>
   chunk_at wl (S \<union> set (starts rs)) (foldl (replay wl now) r rs) i"
proof (induction rs arbitrary: S r)
  case Nil
  then show ?case by simp
next
  case (Cons rec rs)
  let ?S = "S \<union> set (starts [rec])" and ?r = "replay wl now r rec"
  have st: "starts (rec # rs) = starts [rec] @ starts rs" by (cases rec) simp_all
  have "chunk_at wl ?S ?r k" for k
  proof (cases "rec_job rec = k")
    case False
    with Cons.prems(1,2) show ?thesis by (intro chunk_at_other) blast+
  next
    case True
    have ck: "chunk_at wl S r k" using Cons.prems(1) by blast
    show ?thesis
    proof (cases rec)
      case (JobStart i lo hi sz n msg)
      then have "k \<notin> S" using Cons.prems(4) True by auto
      with chunk_at_start [OF ck Cons.prems(2)] JobStart True show ?thesis by (simp del: replay.simps)
    next
      case (ChunkDone i q h x)
      with chunk_at_chunk [OF ck Cons.prems(2)] True show ?thesis by (simp del: replay.simps)
    next
      case (JobDone i h x)
      with chunk_at_end [OF ck, of rec h x now] True show ?thesis by (simp del: replay.simps)
    next
      case (JobDrop i)
      with chunk_at_end [OF ck, of rec 0 0 now] True show ?thesis by (simp del: replay.simps)
    qed
  qed
  moreover have "rv_wf ?r" using Cons.prems(2) rp.step_inv by blast
  moreover have "distinct (starts rs)" "set (starts rs) \<inter> ?S = {}" using Cons.prems(3,4) st by auto
  ultimately have "chunk_at wl (?S \<union> set (starts rs)) (foldl (replay wl now) ?r rs) i" using Cons.IH by blast
  then show ?case by (simp add: st Un_assoc del: replay.simps)
qed

section \<open>What recovery writes back and feeds\<close>

lemma chunk_at_rebuild:
  assumes "distinct (starts recs)"
  shows "chunk_at wl (set (starts recs)) (rebuild wl now l recs) i"
proof -
  let ?r1 = "foldl (replay wl now) (no_state\<lparr>rvLog := Some l\<rparr>) recs"
  have "\<forall>i. chunk_at wl {} (no_state\<lparr>rvLog := Some l\<rparr>) i" by (simp add: chunk_at_def chunks_of_def no_state_def)
  then have c: "chunk_at wl (set (starts recs)) ?r1 i"
    using chunk_at_replay [of wl "{}" "no_state\<lparr>rvLog := Some l\<rparr>" recs now i] no_state_led assms by simp
  have wf: "rv_wf ?r1" by (rule replay_all)
  then have m: "mwf (rvJobs ?r1)" by (simp add: rv_wf_def)
  then have mem: "\<forall>(i, j) \<in> set (rvJobs ?r1). mget (rvJobs ?r1) i = Some j" by (auto simp: mget_mem)
  let ?r2 = "foldl (promote now) ?r1 (rvJobs ?r1)"
  note p = promote_all [OF m mem wf, of now wl "\<lambda>_. True"]
  show ?thesis
  proof (rule chunk_at_frame [OF c])
    show "chunks_of i (rebuild wl now l recs) = chunks_of i ?r1" by (rule chunks_rebuild)
    fix j
    assume "mget (rvJobs (rebuild wl now l recs)) i = Some j"
    then have j2: "mget (rvJobs ?r2) i = Some j" by (simp add: rebuild_def Let_def)
    then have j1: "mget (rvJobs ?r1) i = Some j" and ne: "\<not> (\<exists>j. (i, j) \<in> set (rvJobs ?r1) \<and> remaining j = 0)"
      using p by (auto split: if_splits)
    have "filter (\<lambda>r. rec_job r = i) (promo_recs (rvJobs ?r1)) = []"
      using ne by (auto simp: promo_recs_def filter_empty_conv)
    then have "led_entry (rv_led ?r2) i = led_entry (rv_led ?r1) i"
      using p wf replay_local [of "rv_led ?r1" "rv_led ?r1" i wl "promo_recs (rvJobs ?r1)"] by (simp add: rv_wf_def)
    then show "mget (rvJobs ?r1) i = Some j \<and> led_entry (rv_led (rebuild wl now l recs)) i = led_entry (rv_led ?r1) i"
      using j1 by (simp add: rebuild_def Let_def)
  qed auto
qed

lemma filter_concat_jobs:
  assumes "mwf es" and own: "\<And>i j k. k \<in> set (job_recs r (i, j)) \<Longrightarrow> rec_job k = i"
  shows "filter (\<lambda>k. rec_job k = i) (concat (map (job_recs r) es)) =
    (case mget es i of None \<Rightarrow> [] | Some j \<Rightarrow> job_recs r (i, j))"
  using assms(1)
proof (induction es)
  case Nil
  then show ?case by simp
next
  case (Cons e es)
  obtain k j where e: "e = (k, j)" by (cases e)
  have none: "mget es k = None" using Cons.prems e by (force simp: mwf_def mget_def map_of_eq_None_iff)
  have "mwf es" using Cons.prems by (simp add: mwf_def)
  note IH = Cons.IH [OF this]
  have "filter (\<lambda>x. rec_job x = i) (job_recs r (k, j)) = (if i = k then job_recs r (k, j) else [])"
    using own by (auto simp: filter_id_conv filter_empty_conv)
  with IH none e show ?case by (cases "i = k") (simp_all add: mget_def)
qed

lemma filter_snapshot:
  "mwf rs \<Longrightarrow> filter (\<lambda>k. rec_job k = i) (snapshotResults rs) =
    (case mget rs i of None \<Rightarrow> [] | Some f \<Rightarrow> [JobDone i (Hash (fResult f)) (Nonce (fResult f))])"
proof (induction rs)
  case Nil
  then show ?case by (simp add: snapshotResults_def)
next
  case (Cons e rs)
  obtain k f where e: "e = (k, f)" by (cases e)
  have none: "mget rs k = None" using Cons.prems e by (force simp: mwf_def mget_def map_of_eq_None_iff)
  have "mwf rs" using Cons.prems by (simp add: mwf_def)
  with Cons.IH none e show ?case by (cases "i = k") (simp_all add: mget_def snapshotResults_def)
qed

lemma compact_replay:
  assumes c: "\<And>i. chunk_at wl S r i" and wf: "rv_wf r"
  shows "replay_led wl (compact_recs r) = rv_led r"
proof (rule led_entry_eqI)
  fix i
  have m: "mwf (rvJobs r)" "mwf (rvResults r)" and d: "led_inv (rv_led r)" using wf by (simp_all add: rv_wf_def)
  have own: "rec_job k = i" if "k \<in> set (job_recs r (i, j))" for i j k
    using that c [of i] by (auto simp: job_recs_def Let_def chunk_at_def)
  have f: "filter (\<lambda>k. rec_job k = i) (compact_recs r) =
      (case mget (rvResults r) i of None \<Rightarrow> [] | Some f \<Rightarrow> [JobDone i (Hash (fResult f)) (Nonce (fResult f))]) @
      (case mget (rvJobs r) i of None \<Rightarrow> [] | Some j \<Rightarrow> job_recs r (i, j))"
    unfolding compact_recs_def by (simp add: filter_snapshot [OF m(2)] filter_concat_jobs [OF m(1) own])
  have e: "entry_inv i (ldJobs (rv_led r) i) (counted (rv_led r) i) (ldResults (rv_led r) i)" by (rule led_invD [OF d])
  show "led_entry (replay_led wl (compact_recs r)) i = led_entry (rv_led r) i"
  proof (cases "mget (rvJobs r) i")
    case (Some j)
    then have "led_entry (replay_led wl (job_recs r (i, j))) i = led_entry (rv_led r) i"
      using c [of i] unfolding chunk_at_def by blast
    moreover have "mget (rvResults r) i = None" using e Some by simp
    ultimately show ?thesis using Some f by (simp add: replay_entry [of wl "compact_recs r"])
  next
    case None
    then have "counted (rv_led r) i = {}" using e by simp
    with None f show ?thesis
      unfolding replay_entry [of wl "compact_recs r"] f
      by (cases "mget (rvResults r) i")
        (simp_all add: led_entry_def replay_led_def empty_ledger_def drop_job_def, simp_all add: counted_def)
  qed
qed

text \<open>
  (C14) Recovery picks up every job where it stopped: if the log starts each identifier at most
  once, the feeders that \<^verbatim>\<open>recover\<close> asks for queue exactly the tasks of the running jobs that are
  not counted, and the compacted log replays to the recovered jobs, counts and answers, so a
  second crash right after the restart changes nothing.
\<close>

theorem recovery_resumes:
  assumes "distinct (starts recs)"
  shows "set (map tID (concat (map (\<lambda>(spec, skip, cancel). feed spec skip (\<lambda>_. False)) (rvFeeds (rebuild wl now l recs))))) =
      {t. \<exists>j. mget (rvJobs (rebuild wl now l recs)) (Job t) = Some j \<and> Idx t < sN (jSpec j) \<and> t \<notin> rvDone (rebuild wl now l recs)} \<and>
    replay_led wl (compact_recs (rebuild wl now l recs)) = rv_led (rebuild wl now l recs)"
proof
  let ?r = "rebuild wl now l recs"
  have wf: "rv_wf ?r" by (rule rebuild_led(3))
  then have m: "mwf (rvJobs ?r)" and d: "led_inv (rv_led ?r)" by (simp_all add: rv_wf_def)
  have c: "chunk_at wl (set (starts recs)) ?r i" for i by (rule chunk_at_rebuild [OF assms])
  then show "replay_led wl (compact_recs ?r) = rv_led ?r" using wf by (rule compact_replay)
  have feeds: "rvFeeds ?r = map (\<lambda>(i, j). (jSpec j, skip_of ?r i, jCancel j)) (rvJobs ?r)"
    by (rule rebuild_feeds)
  have ids: "sId (jSpec j) = i" "skip_of ?r i = {k. TaskID i k \<in> rvDone ?r}" if "(i, j) \<in> set (rvJobs ?r)" for i j
  proof -
    have job: "mget (rvJobs ?r) i = Some j" using that m by (simp add: mget_mem)
    then show "sId (jSpec j) = i" using led_invD [OF d, of i] by simp
    show "skip_of ?r i = {k. TaskID i k \<in> rvDone ?r}" using c [of i] job by (simp add: chunk_at_def counted_def)
  qed
  show "set (map tID (concat (map (\<lambda>(spec, skip, cancel). feed spec skip (\<lambda>_. False)) (rvFeeds ?r)))) =
      {t. \<exists>j. mget (rvJobs ?r) (Job t) = Some j \<and> Idx t < sN (jSpec j) \<and> t \<notin> rvDone ?r}"
  proof (intro set_eqI iffI)
    fix t
    assume "t \<in> set (map tID (concat (map (\<lambda>(spec, skip, cancel). feed spec skip (\<lambda>_. False)) (rvFeeds ?r))))"
    then obtain i j k where "(i, j) \<in> set (rvJobs ?r)" "t = TaskID (sId (jSpec j)) k" "k < sN (jSpec j)" "k \<notin> skip_of ?r i"
      by (auto simp: feeds feed_all set_idxs)
    then show "t \<in> {t. \<exists>j. mget (rvJobs ?r) (Job t) = Some j \<and> Idx t < sN (jSpec j) \<and> t \<notin> rvDone ?r}"
      using ids m by (auto simp: mget_mem)
  next
    fix t
    assume "t \<in> {t. \<exists>j. mget (rvJobs ?r) (Job t) = Some j \<and> Idx t < sN (jSpec j) \<and> t \<notin> rvDone ?r}"
    then obtain j where j: "(Job t, j) \<in> set (rvJobs ?r)" "Idx t < sN (jSpec j)" "t \<notin> rvDone ?r" by (auto simp: m mget_mem)
    then have "feed_task (jSpec j) (Idx t) \<in> set (feed (jSpec j) (skip_of ?r (Job t)) (\<lambda>_. False))"
      using ids(2) [OF j(1)] by (auto simp: feed_all set_idxs)
    moreover have "tID (feed_task (jSpec j) (Idx t)) = t" using ids(1) [OF j(1)] by simp
    ultimately show "t \<in> set (map tID (concat (map (\<lambda>(spec, skip, cancel). feed spec skip (\<lambda>_. False)) (rvFeeds ?r))))"
      using j(1) by (force simp: feeds)
  qed
qed

theorem recovery_resumes_witness:
  "set (map tID (concat (map (\<lambda>(spec, skip, cancel). feed spec skip (\<lambda>_. False))
     (rvFeeds (rebuild hashsearch 0 \<lparr>lfile = [], lsynced = [], lbuf = [], lfailed = False, lsize = 0\<rparr>
       [JobStart 7 0 20 10 2 [104], ChunkDone 7 0 5 5]))))) = {TaskID 7 1}"
proof -
  let ?r = "rebuild hashsearch 0 \<lparr>lfile = [], lsynced = [], lbuf = [], lfailed = False, lsize = 0\<rparr>
    [JobStart 7 0 20 10 2 [104], ChunkDone 7 0 5 5]"
  have j: "rvJobs ?r = [(7, \<lparr>jSpec = jobSpec 7 0 20 10 2 [104], jClient = None, remaining = 1, jAcc = Merge Zero (Partial 5 5),
      jStarted = 0, jOrphanedAt = Some 0, jCancel = 0\<rparr>)]" and d: "rvDone ?r = {TaskID 7 0}"
    by (simp_all add: rebuild_def no_state_def newJob_def mget_def mput_def promote_def hashsearch_def add_feed_def Let_def)
  have k: "k = 1" if "k < 2" "k \<noteq> 0" for k :: u32
    using that by (simp add: word_less_nat_alt word_unat_eq_iff)
  have "{t. \<exists>j. mget (rvJobs ?r) (Job t) = Some j \<and> Idx t < sN (jSpec j) \<and> t \<notin> rvDone ?r} = {TaskID 7 1}" (is "?A = _")
  proof (rule set_eqI)
    fix t
    obtain i x where t: "t = TaskID i x" by (cases t)
    show "t \<in> ?A \<longleftrightarrow> t \<in> {TaskID 7 1}" unfolding j d t using k [of x] by (auto simp: mget_def)
  qed
  then show ?thesis using recovery_resumes [of "[JobStart 7 0 20 10 2 [104], ChunkDone 7 0 5 5]"] by simp
qed

section \<open>An identifier that is started twice\<close>

text \<open>A request, a result, the end of its client, a late tick, and a second request.\<close>

definition stale_run :: "agg_input list" where
  "stale_run =
     [(\<lambda>_. 0, False, ESubmit 1 False demo_task_spec),
      (\<lambda>_. 0, False, EResult (ChunkResult (TaskID 7 0) 5 5)),
      (\<lambda>_. 0, False, EClientGone 1),
      (\<lambda>_. 0, False, ETick (6000 * Millisecond)),
      (\<lambda>_. 0, False, ESubmit 2 False demo_task_spec)]"


end
