(* ===== verification/Scheduler.thy ===== *)
theory Scheduler
  imports Worker Compaction
begin

text \<open>
  The scheduler (\<^verbatim>\<open>sched/sched.go\<close>): the dispatcher, the client handlers, the feeders, the worker
  loops and the aggregator around the queues \<^verbatim>\<open>nq\<close> and \<^verbatim>\<open>pq\<close>, as one machine whose events are the
  steps of the goroutines in any interleaving. A send on an unbuffered channel is one step of both
  sides: \<^verbatim>\<open>submitCh\<close>, \<^verbatim>\<open>resultsCh\<close> and \<^verbatim>\<open>clientGoneCh\<close> hand their value to the aggregator in the
  step that sends it. An event that cannot happen in a state changes nothing. A panic of any
  goroutine ends the program, so a step returns a state or \<open>Panic\<close>.

  The goroutines of workers are numbered in the order they were started; the table of the
  dispatcher maps a connection to its worker. A feeder is what it has still to push and the cancel
  channel it watches. What \<^verbatim>\<open>srv.Read\<close> returns, which clients are gone and the clock are inputs.
\<close>

section \<open>State\<close>

record sched =
  scNq :: "Task list"
  scPq :: "Task list"
  scWorkers :: "worker list"
  scTable :: "(int, nat) gomap"
  scClients :: "int set"
  scHandlers :: "(int \<times> Request) list"
  scFeeders :: "(Task list \<times> nat) list"
  scAgg :: agg
  scStop :: bool
  scOut :: "wact list"

definition window_of :: "schedParams \<Rightarrow> nat" where
  "window_of p = nat (Window (Transport p))"

definition nqCap :: "schedParams \<Rightarrow> nat" where
  "nqCap p = nat (NQCap p)"

definition pqCap :: "schedParams \<Rightarrow> nat" where
  "pqCap p = nat (MaxWorkers p * Window (Transport p))"

text \<open>\<^verbatim>\<open>New\<close> followed by the start of \<^verbatim>\<open>Run\<close>: a feeder for each job of the log, and the aggregator.\<close>

definition New_sched :: "schedParams option \<Rightarrow> Workload \<Rightarrow> time \<Rightarrow> bool \<Rightarrow> bool \<Rightarrow> bool \<Rightarrow> wio \<Rightarrow> bytes \<Rightarrow> (schedParams \<times> recovered) option go" where
  "New_sched p0 wl now opened truncated sought w img =
     (let p = withDefaults p0 in
      go_bind (recover_sched p wl now opened truncated sought w img) (\<lambda>r. case r of
        None \<Rightarrow> Ret None
      | Some boot \<Rightarrow> Ret (Some (p, boot))))"

definition Run_sched :: "(nat \<Rightarrow> wio) \<Rightarrow> recovered \<Rightarrow> sched" where
  "Run_sched dev boot = \<lparr>scNq = [], scPq = [], scWorkers = [], scTable = [], scClients = {}, scHandlers = [],
     scFeeders = map (\<lambda>(spec, skip, cancel). (feed spec skip (\<lambda>_. False), cancel)) (rvFeeds boot),
     scAgg = boot_agg dev boot, scStop = False, scOut = []\<rparr>"

definition QueueDepths :: "sched \<Rightarrow> nat \<times> nat" where
  "QueueDepths s = (length (scNq s), length (scPq s))"

section \<open>The goroutines\<close>

datatype read_outcome = RClosed | RGone int | RMsg int bytes

text \<open>One turn of the dispatcher's loop.\<close>

definition dispatch_gone :: "schedParams \<Rightarrow> Workload \<Rightarrow> (nat \<Rightarrow> time) \<Rightarrow> bool \<Rightarrow> int \<Rightarrow> sched \<Rightarrow> sched go" where
  "dispatch_gone p wl clk chroom h s =
     (case mget (scTable s) h of
        Some i \<Rightarrow>
          if wDead (scWorkers s ! i) then Panic
          else Ret (s\<lparr>scWorkers := (scWorkers s)[i := (scWorkers s ! i)\<lparr>wDead := True\<rparr>], scTable := mdel (scTable s) h\<rparr>)
      | None \<Rightarrow>
          if h \<in> scClients s then
            Ret (s\<lparr>scClients := scClients s - {h}, scAgg := agg_step p wl (scAgg s) (clk, chroom, EClientGone h)\<rparr>)
          else Ret s)"

fun dispatch_msg :: "schedParams \<Rightarrow> time \<Rightarrow> int \<Rightarrow> Message \<Rightarrow> sched \<Rightarrow> sched" where
  "dispatch_msg p now h MJoin s =
     (if mget (scTable s) h \<noteq> None \<or> h \<in> scClients s then s
      else s\<lparr>scTable := mput (scTable s) h (length (scWorkers s)), scWorkers := scWorkers s @ [newWorker now h]\<rparr>)"
| "dispatch_msg p now h (MRequest m) s =
     (if mget (scTable s) h \<noteq> None \<or> h \<in> scClients s then s
      else s\<lparr>scClients := insert h (scClients s), scHandlers := scHandlers s @ [(h, m)]\<rparr>)"
| "dispatch_msg p now h (MChunkResult r) s =
     (case mget (scTable s) h of
        Some i \<Rightarrow>
          let w = scWorkers s ! i in
          if length (wResultCh w) < resultCap (window_of p)
          then s\<lparr>scWorkers := (scWorkers s)[i := w\<lparr>wResultCh := wResultCh w @ [r]\<rparr>]\<rparr>
          else s
      | None \<Rightarrow> s)"
| "dispatch_msg p now h _ s = s"

fun dispatcher :: "schedParams \<Rightarrow> Workload \<Rightarrow> (nat \<Rightarrow> time) \<Rightarrow> bool \<Rightarrow> read_outcome \<Rightarrow> sched \<Rightarrow> sched go" where
  "dispatcher p wl clk chroom RClosed s = Ret (s\<lparr>scStop := True\<rparr>)"
| "dispatcher p wl clk chroom (RGone h) s = dispatch_gone p wl clk chroom h s"
| "dispatcher p wl clk chroom (RMsg h payload) s =
     go_bind (Decode payload) (\<lambda>d. case d of
        Inl _ \<Rightarrow> Ret s
      | Inr m \<Rightarrow> Ret (dispatch_msg p (clk 0) h m s))"

text \<open>The reply the aggregator sends for a request: the last \<^verbatim>\<open>submitReply\<close> of its output.\<close>

fun submit_reply :: "act list \<Rightarrow> (bool \<times> nat option) option" where
  "submit_reply [] = None"
| "submit_reply (ASubmitReply b c # as) = (case submit_reply as of None \<Rightarrow> Some (b, c) | Some x \<Rightarrow> Some x)"
| "submit_reply (_ # as) = submit_reply as"

text \<open>
  \<^verbatim>\<open>clientHandler\<close>: the split, the rendezvous with the aggregator, and,
  when the reply says so, the feed. \<open>gone\<close> says that the client's connection has ended.
\<close>

definition clientHandler :: "schedParams \<Rightarrow> Workload \<Rightarrow> (nat \<Rightarrow> time) \<Rightarrow> bool \<Rightarrow> bool \<Rightarrow> int \<times> Request \<Rightarrow> sched \<Rightarrow> sched go" where
  "clientHandler p wl clk chroom gone hm s =
     (case hm of (h, m) \<Rightarrow>
      go_bind (split (rqLo m) (rqHi m) (ChunkSize p)) (\<lambda>(n, size).
        let spec = jobSpec (rqJob m) (rqLo m) (rqHi m) size n (rqMsg m);
            a = agg_step p wl (scAgg s) (clk, chroom, ESubmit h gone spec);
            s' = s\<lparr>scAgg := a\<rparr>
        in case submit_reply (drop (length (agOut (scAgg s))) (agOut a)) of
             Some (True, Some cancel) \<Rightarrow> Ret (s'\<lparr>scFeeders := scFeeders s' @ [(feed spec {} (\<lambda>_. False), cancel)]\<rparr>)
           | _ \<Rightarrow> Ret s'))"

text \<open>One \<^verbatim>\<open>select\<close> of a feeder: push into \<^verbatim>\<open>nq\<close>, or return when \<open>quit\<close> is taken.\<close>

definition feeder_step :: "schedParams \<Rightarrow> nat \<Rightarrow> bool \<Rightarrow> sched \<Rightarrow> sched" where
  "feeder_step p k quit s =
     (if k \<ge> length (scFeeders s) then s
      else case scFeeders s ! k of (ts, cancel) \<Rightarrow>
        if quit then
          (if cancel \<in> set (agClosed (scAgg s)) \<or> scStop s then s\<lparr>scFeeders := (scFeeders s)[k := ([], cancel)]\<rparr> else s)
        else case ts of
          [] \<Rightarrow> s
        | t # ts' \<Rightarrow>
            if length (scNq s) < nqCap p then s\<lparr>scNq := scNq s @ [t], scFeeders := (scFeeders s)[k := (ts', cancel)]\<rparr>
            else s)"

text \<open>
  A step of the worker loop number \<open>i\<close>; a forwarded result is handled by the aggregator. When the
  aggregator has stopped, the send on \<^verbatim>\<open>resultsCh\<close> takes \<^verbatim>\<open>stop\<close> and the loop returns.
\<close>

definition deliver :: "schedParams \<Rightarrow> Workload \<Rightarrow> (nat \<Rightarrow> time) \<Rightarrow> bool \<Rightarrow> agg \<Rightarrow> ChunkResult \<Rightarrow> agg" where
  "deliver p wl clk chroom a r = agg_step p wl a (clk, chroom, EResult r)"

definition workerLoop :: "schedParams \<Rightarrow> Workload \<Rightarrow> (nat \<Rightarrow> time) \<Rightarrow> bool \<Rightarrow> bool \<Rightarrow> nat \<Rightarrow> wevent \<Rightarrow> sched \<Rightarrow> sched go" where
  "workerLoop p wl clk chroom aggroom i ev s =
     (if i \<ge> length (scWorkers s) then Ret s
      else go_bind (worker_step p (window_of p) (pqCap p) (scStop s) clk chroom ev (scWorkers s ! i) (scNq s) (scPq s))
        (\<lambda>(w, nq, pq, acts).
           let w' = (if forwarded acts \<noteq> [] \<and> agStopped (scAgg s) then w\<lparr>wPhase := Exited\<rparr> else w) in
           Ret (s\<lparr>scNq := nq, scPq := pq, scWorkers := (scWorkers s)[i := w'], scOut := scOut s @ acts,
             scAgg := foldl (deliver p wl (\<lambda>k. clk (k + 4)) aggroom) (scAgg s) (forwarded acts)\<rparr>)))"

section \<open>The machine\<close>

datatype sched_event =
    SRead read_outcome
  | SSubmit nat bool
  | SFeed nat bool
  | SWorker nat wevent
  | STick time
  | SAggStop

text \<open>An event with the clock and whether the statistics channels of worker and aggregator have room.\<close>

type_synonym sched_input = "(nat \<Rightarrow> time) \<times> bool \<times> bool \<times> sched_event"

fun sched_handle :: "schedParams \<Rightarrow> Workload \<Rightarrow> (nat \<Rightarrow> time) \<Rightarrow> bool \<Rightarrow> bool \<Rightarrow> sched_event \<Rightarrow> sched \<Rightarrow> sched go" where
  "sched_handle p wl clk wroom aroom (SRead rd) s = (if scStop s then Ret s else dispatcher p wl clk aroom rd s)"
| "sched_handle p wl clk wroom aroom (SSubmit k gone) s =
     (if k \<ge> length (scHandlers s) then Ret s
      else let s' = s\<lparr>scHandlers := take k (scHandlers s) @ drop (Suc k) (scHandlers s)\<rparr>
        in if agStopped (scAgg s) then Ret s' else clientHandler p wl clk aroom gone (scHandlers s ! k) s')"
| "sched_handle p wl clk wroom aroom (SFeed k quit) s = Ret (feeder_step p k quit s)"
| "sched_handle p wl clk wroom aroom (SWorker i ev) s = workerLoop p wl clk wroom aroom i ev s"
| "sched_handle p wl clk wroom aroom (STick now) s = Ret (s\<lparr>scAgg := agg_step p wl (scAgg s) (clk, aroom, ETick now)\<rparr>)"
| "sched_handle p wl clk wroom aroom SAggStop s =
     Ret (if scStop s then s\<lparr>scAgg := agg_step p wl (scAgg s) (clk, aroom, EStop)\<rparr> else s)"

definition sched_step :: "schedParams \<Rightarrow> Workload \<Rightarrow> sched go \<Rightarrow> sched_input \<Rightarrow> sched go" where
  "sched_step p wl m e = (case e of (clk, wroom, aroom, ev) \<Rightarrow> go_bind m (sched_handle p wl clk wroom aroom ev))"

definition Scheduler_run :: "schedParams \<Rightarrow> Workload \<Rightarrow> sched \<Rightarrow> sched_input list \<Rightarrow> sched go" where
  "Scheduler_run p wl s es = foldl (sched_step p wl) (Ret s) es"

end
