(* ===== verification/SchedAgg.thy ===== *)
theory SchedAgg
  imports Scheduler
begin

text \<open>
  What the steps of the aggregator mean for the rest of the scheduler: which jobs survive a step,
  that a delivered result leaves its task counted or its job gone, and when a request starts a job.
\<close>

section \<open>What the aggregator keeps\<close>

text \<open>The jobs of \<open>a'\<close> are jobs of \<open>a\<close>, with at least the same tasks counted.\<close>

definition kept :: "agg \<Rightarrow> agg \<Rightarrow> bool" where
  "kept a a' \<longleftrightarrow> (\<forall>i j'. mget (agJobs a') i = Some j' \<longrightarrow>
     (\<exists>j. mget (agJobs a) i = Some j \<and> jSpec j = jSpec j' \<and> jCancel j = jCancel j' \<and>
        (\<forall>k. TaskID i k \<in> agDone a \<longrightarrow> TaskID i k \<in> agDone a')))"

lemma kept_same: "agJobs a' = agJobs a \<Longrightarrow> agDone a' = agDone a \<Longrightarrow> kept a a'"
  by (simp add: kept_def)

lemma keptD:
  assumes "kept a a'" "mget (agJobs a') i = Some j'"
  obtains j where "mget (agJobs a) i = Some j" "jSpec j = jSpec j'" "jCancel j = jCancel j'"
    "\<forall>k. TaskID i k \<in> agDone a \<longrightarrow> TaskID i k \<in> agDone a'"
  using assms unfolding kept_def by blast

lemma kept_trans:
  assumes "kept a b" "kept b c"
  shows "kept a c"
  unfolding kept_def
proof (intro allI impI)
  fix i j'
  assume "mget (agJobs c) i = Some j'"
  with assms(2) obtain j1 where 1: "mget (agJobs b) i = Some j1" "jSpec j1 = jSpec j'" "jCancel j1 = jCancel j'"
    "\<forall>k. TaskID i k \<in> agDone b \<longrightarrow> TaskID i k \<in> agDone c" by (rule keptD)
  from assms(1) 1(1) obtain j where "mget (agJobs a) i = Some j" "jSpec j = jSpec j1" "jCancel j = jCancel j1"
    "\<forall>k. TaskID i k \<in> agDone a \<longrightarrow> TaskID i k \<in> agDone b" by (rule keptD)
  with 1 show "\<exists>j. mget (agJobs a) i = Some j \<and> jSpec j = jSpec j' \<and> jCancel j = jCancel j' \<and>
      (\<forall>k. TaskID i k \<in> agDone a \<longrightarrow> TaskID i k \<in> agDone c)" by simp
qed

lemma kept_put:
  assumes "agJobs a' = mput (agJobs a) i j'" "mget (agJobs a) i = Some j" "jSpec j' = jSpec j" "jCancel j' = jCancel j" "agDone a \<subseteq> agDone a'"
  shows "kept a a'"
  using assms by (auto simp: kept_def)

lemma kept_finish: "kept s (finish_job clk j b s)"
proof -
  have "TaskID i k \<notin> job_tasks (sId (jSpec j)) (sN (jSpec j))" if "i \<noteq> sId (jSpec j)" for i k
    using task_not_other that by metis
  then show ?thesis by (auto simp: kept_def finish_job_simps)
qed

lemma kept_result: "kept s (on_result wl clk r s)"
proof (cases "mget (agJobs s) (Job (crID r))")
  case None
  then show ?thesis by (intro kept_same) (simp_all add: on_result_def discard_def Let_def)
next
  case (Some j)
  show ?thesis
  proof (cases "Idx (crID r) \<ge> sN (jSpec j) \<or> crID r \<in> agDone s")
    case True
    with Some show ?thesis by (intro kept_same) (simp_all add: on_result_def discard_def Let_def)
  next
    case False
    obtain j1 s1 where c: "count_result wl r j s = (j1, s1)" by fastforce
    have s1: "kept s s1"
      by (rule kept_put [OF _ Some, of _ j1]) (use c in \<open>auto simp: count_result_def Let_def\<close>)
    have "kept s1 (finish_job clk j1 True (reply (jClient j1) (Job (crID r)) (jAcc j1) s1))"
      by (rule kept_trans [OF kept_same kept_finish]) simp_all
    with s1 have "kept s (finish_job clk j1 True (reply (jClient j1) (Job (crID r)) (jAcc j1) s1))" by (rule kept_trans)
    with s1 Some False c show ?thesis by (simp add: on_result_def Let_def)
  qed
qed

lemma kept_gone: "kept s (client_gone now c s)"
proof -
  have "agDone (client_gone now c s) = agDone s" by (auto simp: client_gone_def detach_def Let_def split: option.split)
  moreover have "\<exists>j. mget (agJobs s) i = Some j \<and> jSpec j = jSpec j' \<and> jCancel j = jCancel j'"
    if "mget (agJobs (client_gone now c s)) i = Some j'" for i j'
    using that by (auto simp: client_gone_def detach_def Let_def split: option.splits if_splits)
  ultimately show ?thesis unfolding kept_def by auto
qed

lemma kept_tick: "kept s (tick p now s)"
proof -
  have d: "kept s (foldl (drop_orphan now g) s es)" for g es s
  proof (induction es arbitrary: s)
    case (Cons e es)
    have "kept s (drop_orphan now g s e)"
      by (auto simp: drop_orphan_def kept_finish intro: kept_same split: option.split)
    then show ?case using kept_trans [OF _ Cons] by simp
  qed (simp add: kept_same)
  have e: "agJobs (foldl (expire_result now ttl) s es) = agJobs s \<and> agDone (foldl (expire_result now ttl) s es) = agDone s" for ttl es s
    by (induction es arbitrary: s) (auto simp: expire_result_def)
  have c: "agJobs (sync_log (compact_log s)) = agJobs s \<and> agDone (sync_log (compact_log s)) = agDone s" for s
    by (simp add: compact_log_def sync_log_def Let_def split: option.split prod.split)
  show ?thesis using d [of s "JobGraceMs p * Millisecond" "agJobs s"] by (simp add: tick_def kept_def Let_def c e)
qed

lemma agDone_publish [simp]: "agDone (publish_agg p r s) = agDone s"
  by (simp add: publish_agg_def Let_def)

lemma kept_step:
  assumes "\<And>h g spec. ev \<noteq> ESubmit h g spec"
  shows "kept a (agg_step p wl a (clk, room, ev))"
proof -
  have "kept a (handle p wl clk ev a)" if "ev \<noteq> EStop"
  proof (cases ev)
    case (ESubmit h g spec)
    with assms show ?thesis by blast
  qed (use that in \<open>simp_all add: kept_result kept_gone kept_tick\<close>)
  moreover have "kept b (publish_agg p room b)" for b by (rule kept_same) simp_all
  moreover have "kept a (stop_agg a)" by (rule kept_same) (simp_all add: stop_agg_def Let_def split: option.split)
  ultimately show ?thesis by (auto simp: agg_step_def intro: kept_same kept_trans)
qed

text \<open>A result that arrives leaves no uncounted task behind it.\<close>

lemma result_counted:
  assumes "\<not> agStopped a" "agg_inv a" "mget (agJobs (agg_step p wl a (clk, room, EResult r))) i = Some j" "Idx (crID r) < sN (jSpec j)" "Job (crID r) = i"
  shows "crID r \<in> agDone (agg_step p wl a (clk, room, EResult r))"
proof (cases "mget (agJobs a) i")
  case None
  then have "mget (agJobs (agg_step p wl a (clk, room, EResult r))) i = None"
    using assms(1,5) by (simp add: agg_step_def on_result_def discard_def Let_def)
  with assms(3) show ?thesis by simp
next
  case (Some j0)
  then have id: "sId (jSpec j0) = i" using led_inv_spec [OF _ Some] assms(2) by (simp add: agg_inv_def)
  show ?thesis
    using assms Some id
    by (auto simp: agg_step_def on_result_def discard_def count_result_def Let_def finish_job_simps split: if_splits)
qed

text \<open>What a request does to the jobs: it starts one and the reply says so, or it starts none.\<close>

lemma submit_reply_append: "submit_reply bs = None \<Longrightarrow> submit_reply (as @ bs) = submit_reply as"
  by (induction as rule: submit_reply.induct) (auto split: option.split)

definition started :: "jobSpec \<Rightarrow> nat \<Rightarrow> agg \<Rightarrow> agg \<Rightarrow> bool" where
  "started spec c a a' \<longleftrightarrow> (\<forall>i j'. mget (agJobs a') i = Some j' \<longrightarrow>
     i = sId spec \<and> jSpec j' = spec \<and> jCancel j' = c \<or>
     (\<exists>j. mget (agJobs a) i = Some j \<and> jSpec j = jSpec j' \<and> jCancel j = jCancel j' \<and>
        (\<forall>k. TaskID i k \<in> agDone a \<longrightarrow> TaskID i k \<in> agDone a')))"

lemma kept_started: "kept a a' \<Longrightarrow> started spec c a a'"
  by (simp add: kept_def started_def)

lemma started_kept:
  assumes s: "started spec c a b" and k: "kept b d"
  shows "started spec c a d"
  unfolding started_def
proof (intro allI impI)
  fix i j'
  assume "mget (agJobs d) i = Some j'"
  then obtain j where j: "mget (agJobs b) i = Some j" "jSpec j = jSpec j'" "jCancel j = jCancel j'"
    and dn: "\<forall>k. TaskID i k \<in> agDone b \<longrightarrow> TaskID i k \<in> agDone d"
    using k unfolding kept_def by blast
  from s j(1) consider "i = sId spec \<and> jSpec j = spec \<and> jCancel j = c"
    | j0 where "mget (agJobs a) i = Some j0" "jSpec j0 = jSpec j" "jCancel j0 = jCancel j"
      "\<forall>k. TaskID i k \<in> agDone a \<longrightarrow> TaskID i k \<in> agDone b"
    unfolding started_def by blast
  then show "i = sId spec \<and> jSpec j' = spec \<and> jCancel j' = c \<or>
     (\<exists>j. mget (agJobs a) i = Some j \<and> jSpec j = jSpec j' \<and> jCancel j = jCancel j' \<and>
        (\<forall>k. TaskID i k \<in> agDone a \<longrightarrow> TaskID i k \<in> agDone d))"
    by cases (use j dn in auto)
qed

lemma submit_kept:
  assumes "mget (agResults a) (sId spec) \<noteq> None \<or> mget (agJobs a) (sId spec) \<noteq> None"
  shows "kept a (submit wl clk h gone spec a)"
proof (cases "mget (agResults a) (sId spec)")
  case (Some f)
  then show ?thesis by (intro kept_same) (simp_all add: submit_def Let_def)
next
  case None
  then obtain j where j: "mget (agJobs a) (sId spec) = Some j" using assms by blast
  obtain j1 s1 where d: "detach j a = (j1, s1)" by fastforce
  obtain j2 s2 where at: "attach (clk 1) h gone (sId spec) j1 (reattached s1) = (j2, s2)" by fastforce
  define s3 where "s3 = emit (ASubmitReply False (Some (jCancel j2))) (s2\<lparr>agJobs := mput (agJobs s2) (sId spec) j2\<rparr>)"
  have "kept a s3"
    by (rule kept_put [OF _ j, of _ j2]) (use detach_simps [OF d] attach_simps [OF at] in \<open>simp_all add: s3_def\<close>)
  moreover have "kept s3 (finish_job clk' j2 True (reply (jClient j2) (sId spec) (jAcc j2) s3))" for clk'
    by (rule kept_trans [OF kept_same kept_finish]) simp_all
  moreover have "submit wl clk h gone spec a =
      (if remaining j2 = 0 then finish_job (\<lambda>k. clk (k + 2)) j2 True (reply (jClient j2) (sId spec) (jAcc j2) s3) else s3)"
    using None j d at [unfolded One_nat_def] by (simp add: submit_def join_job_def Let_def s3_def)
  ultimately show ?thesis using kept_trans by (cases "remaining j2 = 0") auto
qed

lemma submit_new:
  assumes "mget (agResults a) (sId spec) = None" "mget (agJobs a) (sId spec) = None"
  shows "started spec (agChans a) a (submit wl clk h gone spec a)"
    "\<exists>as. agOut (submit wl clk h gone spec a) = agOut a @ as \<and> submit_reply as = Some (True, Some (agChans a))"
proof -
  obtain b j s1 where jn: "join_job wl (clk 0) spec a = (b, j, s1)" by (metis prod_cases3)
  obtain j2 s2 where at: "attach (clk 1) h gone (sId spec) j s1 = (j2, s2)" by fastforce
  define s3 where "s3 = emit (ASubmitReply (\<not> b) (Some (jCancel j2))) (s2\<lparr>agJobs := mput (agJobs s2) (sId spec) j2\<rparr>)"
  have j: "b = False" "jSpec j = spec" "jCancel j = agChans a" "agDone s1 = agDone a" "agJobs s1 = mput (agJobs a) (sId spec) j"
    "agOut s1 = agOut a @ [ALog (start_rec spec)]"
    using jn assms by (auto simp: join_job_def newJob_def start_rec_def Let_def)
  note at' = attach_simps [OF at]
  have st: "started spec (agChans a) a s3" using j at' by (auto simp: started_def s3_def)
  have eq: "submit wl clk h gone spec a =
      (if remaining j2 = 0 then finish_job (\<lambda>k. clk (k + 2)) j2 True (reply (jClient j2) (sId spec) (jAcc j2) s3) else s3)"
    using assms(1) by (simp add: submit_def Let_def jn at [unfolded One_nat_def] s3_def)
  have "kept s3 (finish_job clk' j2 True (reply (jClient j2) (sId spec) (jAcc j2) s3))" for clk'
    by (rule kept_trans [OF kept_same kept_finish]) simp_all
  then show "started spec (agChans a) a (submit wl clk h gone spec a)"
    using st started_kept eq by (cases "remaining j2 = 0") auto
  have "agOut s3 = agOut a @ [ALog (start_rec spec), ASubmitReply True (Some (agChans a))]"
    using j at' by (simp add: s3_def)
  then show "\<exists>as. agOut (submit wl clk h gone spec a) = agOut a @ as \<and> submit_reply as = Some (True, Some (agChans a))"
    unfolding eq by (auto simp: finish_job_simps reply_def split: option.split)
qed

lemma submit_cases:
  assumes "\<not> agStopped a"
  obtains (old) "kept a (agg_step p wl a (clk, room, ESubmit h gone spec))"
  | (new) "started spec (agChans a) a (agg_step p wl a (clk, room, ESubmit h gone spec))"
      "submit_reply (drop (length (agOut a)) (agOut (agg_step p wl a (clk, room, ESubmit h gone spec)))) = Some (True, Some (agChans a))"
proof -
  have eq: "agg_step p wl a (clk, room, ESubmit h gone spec) = publish_agg p room (submit wl clk h gone spec a)"
    using assms by (simp add: agg_step_def)
  have pub: "kept b (publish_agg p room b)" for b by (rule kept_same) simp_all
  show thesis
  proof (cases "mget (agResults a) (sId spec) = None \<and> mget (agJobs a) (sId spec) = None")
    case True
    then have n: "mget (agResults a) (sId spec) = None" "mget (agJobs a) (sId spec) = None" by simp_all
    obtain as where as: "agOut (submit wl clk h gone spec a) = agOut a @ as" "submit_reply as = Some (True, Some (agChans a))"
      using submit_new(2) [OF n] by blast
    have "started spec (agChans a) a (agg_step p wl a (clk, room, ESubmit h gone spec))"
      unfolding eq by (rule started_kept [OF submit_new(1) [OF n] pub])
    moreover have "submit_reply (drop (length (agOut a)) (agOut (agg_step p wl a (clk, room, ESubmit h gone spec)))) = Some (True, Some (agChans a))"
      using as submit_reply_append [of "[APublish _]" as] unfolding eq by (simp add: publish_agg_def Let_def)
    ultimately show thesis by (rule new)
  next
    case False
    then have "kept a (submit wl clk h gone spec a)" using submit_kept by blast
    then show thesis using old pub kept_trans unfolding eq by blast
  qed
qed

end
