(* ===== verification/SchedInv.thy ===== *)
theory SchedInv
  imports SchedAgg
begin

text \<open>
  The invariant of the scheduler machine. Every uncounted task of a running job is somewhere: in
  \<open>nq\<close>, in \<open>pq\<close>, in flight at a worker, or still to be pushed by the job's feeder. The queues and the
  tasks in flight stay within their bounds, a connection is a worker or a client but not both, and
  every message that is encoded fits, so that no goroutine panics.
\<close>

section \<open>The invariant\<close>

definition queues_ok :: "schedParams \<Rightarrow> Task list \<Rightarrow> Task list \<Rightarrow> bool" where
  "queues_ok p nq pq \<longleftrightarrow> length nq \<le> nqCap p \<and> length pq \<le> pqCap p \<and> (\<forall>t \<in> set nq. task_ok t) \<and> (\<forall>t \<in> set pq. task_ok t)"

definition table_ok :: "(int, nat) gomap \<Rightarrow> int set \<Rightarrow> worker list \<Rightarrow> bool" where
  "table_ok tb cl ws \<longleftrightarrow> mwf tb \<and> mkeys tb \<inter> cl = {} \<and>
     (\<forall>h i. mget tb h = Some i \<longrightarrow> i < length ws \<and> wH (ws ! i) = h \<and> \<not> wDead (ws ! i))"

definition feeders_ok :: "(Task list \<times> nat) list \<Rightarrow> bool" where
  "feeders_ok fs \<longleftrightarrow> (\<forall>(ts, c) \<in> set fs. \<forall>t \<in> set ts. task_ok t)"

definition handlers_ok :: "(int \<times> Request) list \<Rightarrow> bool" where
  "handlers_ok hs \<longleftrightarrow> (\<forall>(h, m) \<in> set hs. length (rqMsg m) \<le> MaxMsgLen)"

definition agg_ok :: "agg \<Rightarrow> bool \<Rightarrow> bool" where
  "agg_ok a stop \<longleftrightarrow> serve_inv a \<and> chan_inv a \<and> (agStopped a \<longrightarrow> stop)"

definition sched_ok :: "schedParams \<Rightarrow> sched \<Rightarrow> bool" where
  "sched_ok p s \<longleftrightarrow> queues_ok p (scNq s) (scPq s) \<and> list_all (worker_ok (window_of p)) (scWorkers s) \<and>
     table_ok (scTable s) (scClients s) (scWorkers s) \<and> feeders_ok (scFeeders s) \<and> handlers_ok (scHandlers s) \<and>
     agg_ok (scAgg s) (scStop s)"

text \<open>Where a task of a job with cancel channel \<open>c\<close> can be, and that every uncounted task is there.\<close>

definition located :: "sched \<Rightarrow> nat \<Rightarrow> TaskID \<Rightarrow> bool" where
  "located s c t \<longleftrightarrow> t \<in> tids (scNq s) \<or> t \<in> tids (scPq s) \<or> (\<exists>w \<in> set (scWorkers s). t \<in> held w) \<or>
     (\<exists>ts. (ts, c) \<in> set (scFeeders s) \<and> t \<in> tids ts)"

definition missing :: "agg \<Rightarrow> nat \<Rightarrow> TaskID \<Rightarrow> bool" where
  "missing a c t \<longleftrightarrow> (\<exists>j. mget (agJobs a) (Job t) = Some j \<and> jCancel j = c \<and> Idx t < sN (jSpec j) \<and> t \<notin> agDone a)"

definition conserve :: "sched \<Rightarrow> bool" where
  "conserve s \<longleftrightarrow> (\<forall>c t. missing (scAgg s) c t \<longrightarrow> located s c t)"

lemma missing_kept:
  assumes "kept a a'" "missing a' c t"
  shows "missing a c t"
proof -
  obtain j' where j': "mget (agJobs a') (Job t) = Some j'" "jCancel j' = c" "Idx t < sN (jSpec j')" "t \<notin> agDone a'"
    using assms(2) unfolding missing_def by blast
  obtain j where j: "mget (agJobs a) (Job t) = Some j" "jSpec j = jSpec j'" "jCancel j = jCancel j'"
    "\<forall>k. TaskID (Job t) k \<in> agDone a \<longrightarrow> TaskID (Job t) k \<in> agDone a'"
    using assms(1) j'(1) unfolding kept_def by blast
  have "TaskID (Job t) (Idx t) = t" by simp
  then have "t \<notin> agDone a" using j(4) j'(4) by metis
  with j j' show ?thesis by (simp add: missing_def)
qed

lemma conserveI:
  assumes "conserve s" "kept (scAgg s) (scAgg s')"
    "\<And>c t. missing (scAgg s') c t \<Longrightarrow> located s c t \<Longrightarrow> located s' c t"
  shows "conserve s'"
  using assms missing_kept unfolding conserve_def by blast

lemma agg_ok_step:
  assumes "agg_ok a st" "ev = EStop \<Longrightarrow> st"
  shows "agg_ok (agg_step p wl a (clk, room, ev)) st"
proof -
  have "serve_inv (agg_step p wl a (clk, room, ev))" using assms(1) by (intro aggl.step_inv) (simp_all add: agg_ok_def)
  moreover have "chan_inv (agg_step p wl a (clk, room, ev))"
    using aggc.step_inv [where s = a and e = "(clk, room, ev)" and p = p and wl = wl] assms(1) by (simp add: agg_ok_def serve_inv_def)
  moreover have "agStopped (agg_step p wl a (clk, room, ev)) \<longrightarrow> st"
    using assms stopped_step [of a p wl clk room ev] by (cases "agStopped a") (auto simp: agg_ok_def)
  ultimately show ?thesis by (simp add: agg_ok_def)
qed

section \<open>The dispatcher\<close>

lemma table_ok_update:
  assumes "table_ok tb cl ws" "i < length ws" "wH w = wH (ws ! i)" "wDead w = wDead (ws ! i)"
  shows "table_ok tb cl (ws[i := w])"
  using assms unfolding table_ok_def by (auto simp: nth_list_update)

lemma table_ok_close:
  assumes "table_ok tb cl ws" "mget tb h = Some i"
  shows "table_ok (mdel tb h) cl (ws[i := (ws ! i)\<lparr>wDead := True\<rparr>])"
proof -
  have t: "k < length ws \<and> wH (ws ! k) = h' \<and> \<not> wDead (ws ! k)" if "mget tb h' = Some k" for h' k
    using assms(1) that unfolding table_ok_def by blast
  have "i \<noteq> k" if "mget tb h' = Some k" "h' \<noteq> h" for h' k using t [OF that(1)] t [OF assms(2)] that(2) by auto
  with t assms(1) show ?thesis unfolding table_ok_def by (auto simp: nth_list_update)
qed

lemma located_worker:
  assumes "located s c t" "i < length (scWorkers s)" "held w = held (scWorkers s ! i)"
    "scNq s' = scNq s" "scPq s' = scPq s" "scFeeders s' = scFeeders s" "scWorkers s' = (scWorkers s)[i := w]"
  shows "located s' c t"
proof -
  have "\<exists>w' \<in> set ((scWorkers s)[i := w]). t \<in> held w'" if v: "v \<in> set (scWorkers s)" and h: "t \<in> held v" for v
  proof -
    obtain k where k: "k < length (scWorkers s)" "v = scWorkers s ! k" using v by (auto simp: in_set_conv_nth)
    show ?thesis
    proof (cases "k = i")
      case True
      then have "t \<in> held w" "w \<in> set ((scWorkers s)[i := w])" using h k assms(2,3) by (auto intro: set_update_memI)
      then show ?thesis by blast
    next
      case False
      then have "v \<in> set ((scWorkers s)[i := w])" using k by (auto simp: in_set_conv_nth intro!: exI [of _ k])
      then show ?thesis using h by blast
    qed
  qed
  with assms(1,4-7) show ?thesis unfolding located_def by auto
qed

lemma list_all_update: "list_all P xs \<Longrightarrow> P x \<Longrightarrow> list_all P (xs[i := x])"
  by (induction xs arbitrary: i) (auto split: nat.split)

lemma dispatch_gone_ok:
  assumes ok: "sched_ok p s" and c: "scStop s \<or> conserve s"
  shows "\<exists>s'. dispatch_gone p wl clk room h s = Ret s' \<and> sched_ok p s' \<and> (scStop s' \<or> conserve s')"
proof (cases "mget (scTable s) h")
  case (Some i)
  have t: "table_ok (scTable s) (scClients s) (scWorkers s)" using ok by (simp add: sched_ok_def)
  then have i: "i < length (scWorkers s)" "\<not> wDead (scWorkers s ! i)" using Some unfolding table_ok_def by blast+
  let ?w = "(scWorkers s ! i)\<lparr>wDead := True\<rparr>"
  let ?s = "s\<lparr>scWorkers := (scWorkers s)[i := ?w], scTable := mdel (scTable s) h\<rparr>"
  have "worker_ok (window_of p) ?w" using ok i(1) by (auto simp: sched_ok_def list_all_length worker_ok_def)
  then have "sched_ok p ?s"
    using ok table_ok_close [OF t Some] by (simp add: sched_ok_def list_all_update)
  moreover have loc: "located ?s c' x" if "located s c' x" for c' x
    using that i(1) by (rule located_worker [of s c' x i ?w]) (simp_all add: held_def)
  moreover have "conserve ?s" if "conserve s"
    using that by (rule conserveI) (simp_all add: kept_same loc)
  ultimately show ?thesis using Some i c by (auto simp: dispatch_gone_def)
next
  case None
  let ?s = "s\<lparr>scClients := scClients s - {h}, scAgg := agg_step p wl (scAgg s) (clk, room, EClientGone h)\<rparr>"
  have "agg_ok (agg_step p wl (scAgg s) (clk, room, EClientGone h)) (scStop s)"
    by (rule agg_ok_step) (use ok in \<open>simp_all add: sched_ok_def\<close>)
  moreover have "table_ok (scTable s) (scClients s - {h}) (scWorkers s)" using ok by (auto simp: sched_ok_def table_ok_def)
  ultimately have "sched_ok p ?s" using ok by (simp add: sched_ok_def)
  moreover have "conserve ?s" if "conserve s"
    by (rule conserveI [OF that]) (simp_all add: kept_step located_def)
  ultimately show ?thesis using None ok c by (auto simp: dispatch_gone_def)
qed

lemma request_fits: "Decode b = Ret (Inr (MRequest m)) \<Longrightarrow> length (rqMsg m) \<le> MaxMsgLen"
  using Encode_Decode [of b "MRequest m"] by (auto simp: go_bind_Ret_iff msgLen_Ret)

lemma table_ok_join:
  assumes "table_ok tb cl ws" "mget tb h = None" "h \<notin> cl" "wH w = h" "\<not> wDead w"
  shows "table_ok (mput tb h (length ws)) cl (ws @ [w])"
  using assms unfolding table_ok_def by (auto simp: nth_append less_SucI)

lemma dispatch_msg_ok:
  assumes ok: "sched_ok p s" and c: "scStop s \<or> conserve s" and d: "Decode b = Ret (Inr m)"
  shows "sched_ok p (dispatch_msg p now h m s) \<and> (scStop (dispatch_msg p now h m s) \<or> conserve (dispatch_msg p now h m s))"
proof (cases m)
  case MJoin
  let ?w = "newWorker now h"
  let ?s = "s\<lparr>scTable := mput (scTable s) h (length (scWorkers s)), scWorkers := scWorkers s @ [?w]\<rparr>"
  have "sched_ok p ?s" if "mget (scTable s) h = None" "h \<notin> scClients s"
    using ok table_ok_join [OF _ that, of "scWorkers s" ?w] newWorker_ok
    by (simp add: sched_ok_def) (simp add: newWorker_def)
  moreover have "conserve ?s" if "conserve s"
    using that by (rule conserveI) (auto simp: kept_same located_def)
  ultimately show ?thesis using MJoin ok c by auto
next
  case (MRequest rq)
  let ?s = "s\<lparr>scClients := insert h (scClients s), scHandlers := scHandlers s @ [(h, rq)]\<rparr>"
  have "sched_ok p ?s" if "mget (scTable s) h = None"
    using ok that request_fits d MRequest by (auto simp: sched_ok_def table_ok_def handlers_ok_def mget_None_iff)
  moreover have "conserve ?s" if "conserve s"
    using that by (rule conserveI) (auto simp: kept_same located_def)
  ultimately show ?thesis using MRequest ok c by auto
next
  case (MChunkResult r)
  show ?thesis
  proof (cases "mget (scTable s) h")
    case None
    then show ?thesis using MChunkResult ok c by simp
  next
    case (Some i)
    let ?w = "(scWorkers s ! i)\<lparr>wResultCh := wResultCh (scWorkers s ! i) @ [r]\<rparr>"
    let ?s = "s\<lparr>scWorkers := (scWorkers s)[i := ?w]\<rparr>"
    have t: "table_ok (scTable s) (scClients s) (scWorkers s)" using ok by (simp add: sched_ok_def)
    then have i: "i < length (scWorkers s)" using Some unfolding table_ok_def by blast
    have "sched_ok p ?s" if "length (wResultCh (scWorkers s ! i)) < resultCap (window_of p)"
    proof -
      have "worker_ok (window_of p) ?w" using ok i that by (auto simp: sched_ok_def list_all_length worker_ok_def)
      then show ?thesis using ok table_ok_update [OF t i, of ?w] by (simp add: sched_ok_def list_all_update)
    qed
    moreover have loc: "located ?s c' x" if "located s c' x" for c' x
      using that i by (rule located_worker [of s c' x i ?w]) (simp_all add: held_def)
    have "conserve ?s" if "conserve s"
      using that by (rule conserveI) (simp_all add: kept_same loc)
    ultimately show ?thesis using MChunkResult ok c Some by (auto simp: Let_def)
  qed
qed (use ok c in simp_all)

lemma dispatcher_ok:
  assumes ok: "sched_ok p s" and c: "scStop s \<or> conserve s"
  shows "\<exists>s'. dispatcher p wl clk room rd s = Ret s' \<and> sched_ok p s' \<and> (scStop s' \<or> conserve s')"
proof (cases rd)
  case RClosed
  then show ?thesis using ok by (auto simp: sched_ok_def agg_ok_def)
next
  case (RGone h)
  then show ?thesis using dispatch_gone_ok [OF ok c] by simp
next
  case (RMsg h b)
  obtain d where d: "Decode b = Ret d" using Decode_total by blast
  then show ?thesis
    using RMsg ok c dispatch_msg_ok [OF ok c, of b _ "clk 0" h] by (cases d) auto
qed

section \<open>Handlers and feeders\<close>

lemma feed_task_ok: "t \<in> set (feed spec skip q) \<Longrightarrow> length (sMsg spec) \<le> MaxMsgLen \<Longrightarrow> task_ok t"
  using feed_sub [of spec skip q] by (auto simp: task_ok_def)

lemma feed_tids: "tids (feed spec {} (\<lambda>_. False)) = {t. Job t = sId spec \<and> Idx t < sN spec}"
proof -
  have "t \<in> tids (feed spec {} (\<lambda>_. False)) \<longleftrightarrow> Job t = sId spec \<and> Idx t < sN spec" for t
    by (cases t) (auto simp: tids_def feed_all set_idxs image_image)
  then show ?thesis by blast
qed

lemma missing_started:
  assumes "started spec c a a'" "missing a' c' t"
  shows "missing a c' t \<or> c' = c \<and> Job t = sId spec \<and> Idx t < sN spec"
proof -
  obtain j' where j': "mget (agJobs a') (Job t) = Some j'" "jCancel j' = c'" "Idx t < sN (jSpec j')" "t \<notin> agDone a'"
    using assms(2) unfolding missing_def by blast
  from assms(1) j'(1) consider "Job t = sId spec" "jSpec j' = spec" "jCancel j' = c"
    | j where "mget (agJobs a) (Job t) = Some j" "jSpec j = jSpec j'" "jCancel j = jCancel j'"
      "\<forall>k. TaskID (Job t) k \<in> agDone a \<longrightarrow> TaskID (Job t) k \<in> agDone a'"
    unfolding started_def by blast
  then show ?thesis
  proof cases
    case 1
    with j' show ?thesis by simp
  next
    case (2 j)
    have "TaskID (Job t) (Idx t) = t" by simp
    then have "t \<notin> agDone a" using 2(4) j'(4) by metis
    with 2 j' show ?thesis by (simp add: missing_def)
  qed
qed

lemma clientHandler_ok:
  assumes p: "ChunkSize p \<noteq> 0" and ok: "sched_ok p s" and c: "scStop s \<or> conserve s" and m: "length (rqMsg m) \<le> MaxMsgLen"
    and a: "\<not> agStopped (scAgg s)"
  shows "\<exists>s'. clientHandler p wl clk room gone (h, m) s = Ret s' \<and> sched_ok p s' \<and> (scStop s' \<or> conserve s')"
proof -
  obtain n sz where sp: "split (rqLo m) (rqHi m) (ChunkSize p) = Ret (n, sz)" using split_total [OF p] by blast
  define spec where "spec = jobSpec (rqJob m) (rqLo m) (rqHi m) sz n (rqMsg m)"
  define a' where "a' = agg_step p wl (scAgg s) (clk, room, ESubmit h gone spec)"
  let ?fd = "(feed spec {} (\<lambda>_. False), agChans (scAgg s))"
  let ?s = "s\<lparr>scAgg := a'\<rparr>"
  have ok': "agg_ok a' (scStop s)" unfolding a'_def by (rule agg_ok_step) (use ok in \<open>simp_all add: sched_ok_def\<close>)
  have "length (sMsg spec) \<le> MaxMsgLen" using m by (simp add: spec_def)
  then have fd: "feeders_ok (scFeeders s @ [(feed spec {} (\<lambda>_. False), x)])" for x
    using ok feed_task_ok by (auto simp: sched_ok_def feeders_ok_def)
  have step: "clientHandler p wl clk room gone (h, m) s =
      (case submit_reply (drop (length (agOut (scAgg s))) (agOut a')) of
         Some (True, Some x) \<Rightarrow> Ret (?s\<lparr>scFeeders := scFeeders s @ [(feed spec {} (\<lambda>_. False), x)]\<rparr>) | _ \<Rightarrow> Ret ?s)"
    by (simp add: clientHandler_def sp a'_def spec_def Let_def split: option.split bool.split)
  have oks: "sched_ok p ?s" "sched_ok p (?s\<lparr>scFeeders := scFeeders s @ [(feed spec {} (\<lambda>_. False), x)]\<rparr>)" for x
    using ok ok' fd by (simp_all add: sched_ok_def)
  from a show ?thesis
  proof (cases rule: submit_cases [of "scAgg s" p wl clk room h gone spec])
    case old
    have k: "conserve ?s" "conserve (?s\<lparr>scFeeders := scFeeders s @ [(feed spec {} (\<lambda>_. False), x)]\<rparr>)" if "conserve s" for x
      using that by (rule conserveI; use old in \<open>auto simp: a'_def located_def\<close>)+
    then show ?thesis unfolding step using oks c by (auto split: option.split bool.split)
  next
    case new
    have "conserve (?s\<lparr>scFeeders := scFeeders s @ [?fd]\<rparr>)" if "conserve s"
      unfolding conserve_def
    proof (intro allI impI)
      fix c' t
      assume "missing (scAgg (?s\<lparr>scFeeders := scFeeders s @ [?fd]\<rparr>)) c' t"
      then have "missing (scAgg s) c' t \<or> c' = agChans (scAgg s) \<and> Job t = sId spec \<and> Idx t < sN spec"
        using missing_started [OF new(1), of c' t] by (simp add: a'_def)
      then show "located (?s\<lparr>scFeeders := scFeeders s @ [?fd]\<rparr>) c' t"
      proof
        assume "missing (scAgg s) c' t"
        then have "located s c' t" using that unfolding conserve_def by blast
        then show ?thesis unfolding located_def by auto
      next
        assume "c' = agChans (scAgg s) \<and> Job t = sId spec \<and> Idx t < sN spec"
        then show ?thesis using feed_tids [of spec] unfolding located_def by auto
      qed
    qed
    then show ?thesis unfolding step using new(2) oks c by (auto simp: a'_def)
  qed
qed

lemma mem_update_other: "x \<in> set xs \<Longrightarrow> x \<noteq> xs ! k \<Longrightarrow> x \<in> set (xs[k := y])"
  by (metis in_set_conv_nth length_list_update nth_list_update_neq)

lemma feeder_step_ok:
  assumes ok: "sched_ok p s" and c: "scStop s \<or> conserve s"
  shows "sched_ok p (feeder_step p k quit s) \<and> (scStop (feeder_step p k quit s) \<or> conserve (feeder_step p k quit s))"
proof (cases "k < length (scFeeders s)")
  case False
  then show ?thesis using ok c by (simp add: feeder_step_def)
next
  case True
  obtain ts x where f: "scFeeders s ! k = (ts, x)" by (cases "scFeeders s ! k")
  then have mem: "(ts, x) \<in> set (scFeeders s)" using True by (metis nth_mem)
  have fo: "feeders_ok (scFeeders s)" "agg_ok (scAgg s) (scStop s)" using ok by (simp_all add: sched_ok_def)
  have upd: "feeders_ok ((scFeeders s)[k := (us, x)])" if us: "set us \<subseteq> set ts" for us
    unfolding feeders_ok_def
  proof (intro ballI, clarify)
    fix vs y t
    assume v: "(vs, y) \<in> set ((scFeeders s)[k := (us, x)])" and t: "t \<in> set vs"
    from v have "(vs, y) = (us, x) \<or> (vs, y) \<in> set (scFeeders s)" using set_update_subset_insert by fastforce
    with t us mem fo(1) show "task_ok t" unfolding feeders_ok_def by blast
  qed
  have other: "(us, c') \<in> set ((scFeeders s)[k := y])" if "(us, c') \<in> set (scFeeders s)" "(us, c') \<noteq> (ts, x)" for us c' y
    using mem_update_other [OF that(1)] that(2) f by metis
  show ?thesis
  proof (cases quit)
    case q: True
    let ?s = "s\<lparr>scFeeders := (scFeeders s)[k := ([], x)]\<rparr>"
    have "conserve ?s" if cl: "x \<in> set (agClosed (scAgg s))" and "conserve s"
      using that(2)
    proof (rule conserveI)
      fix c' t
      assume m: "missing (scAgg ?s) c' t" and l: "located s c' t"
      then have "c' \<noteq> x" using cl fo(2) by (auto simp: missing_def agg_ok_def chan_ok_def)
      then show "located ?s c' t" using l other [of _ c'] unfolding located_def by auto
    qed (simp add: kept_same)
    moreover have "sched_ok p ?s" using ok upd [of "[]"] by (simp add: sched_ok_def)
    ultimately show ?thesis using True q f ok c by (auto simp: feeder_step_def)
  next
    case q: False
    show ?thesis
    proof (cases "ts = [] \<or> length (scNq s) \<ge> nqCap p")
      case True
      then have "feeder_step p k quit s = s" using q f \<open>k < length (scFeeders s)\<close> by (cases ts) (auto simp: feeder_step_def)
      then show ?thesis using ok c by simp
    next
      case False
      then obtain t us where ts: "ts = t # us" by (cases ts) auto
      let ?s = "s\<lparr>scNq := scNq s @ [t], scFeeders := (scFeeders s)[k := (us, x)]\<rparr>"
      have "task_ok t" using fo(1) mem ts by (auto simp: feeders_ok_def)
      then have "sched_ok p ?s" using ok upd [of us] ts False by (auto simp: sched_ok_def queues_ok_def)
      moreover have new: "(us, x) \<in> set ((scFeeders s)[k := (us, x)])" using True by (rule set_update_memI)
      have "conserve ?s" if "conserve s"
        using that
      proof (rule conserveI)
        fix c' t'
        assume "located s c' t'"
        then consider "t' \<in> tids (scNq s) \<or> t' \<in> tids (scPq s) \<or> (\<exists>w \<in> set (scWorkers s). t' \<in> held w)"
          | us' where "(us', c') \<in> set (scFeeders s)" "t' \<in> tids us'" unfolding located_def by blast
        then show "located ?s c' t'"
        proof cases
          case 1
          then show ?thesis by (auto simp: located_def)
        next
          case (2 us')
          then show ?thesis using other [of us' c'] new ts by (cases "(us', c') = (ts, x)") (auto simp: located_def)
        qed
      qed (simp add: kept_same)
      ultimately show ?thesis using True q f ts False c by (auto simp: feeder_step_def)
    qed
  qed
qed

section \<open>Workers\<close>

lemma located_step:
  assumes l: "located s c t" and i: "i < length (scWorkers s)"
    and st: "tids (scNq s) \<union> tids (scPq s) \<union> held (scWorkers s ! i) \<subseteq> tids nq \<union> tids pq \<union> held w \<union> F"
  shows "located (s\<lparr>scNq := nq, scPq := pq, scWorkers := (scWorkers s)[i := w], scOut := out, scAgg := a\<rparr>) c t \<or> t \<in> F"
proof -
  have new: "w \<in> set ((scWorkers s)[i := w])" using i by (rule set_update_memI)
  from l consider "t \<in> tids (scNq s) \<union> tids (scPq s) \<union> held (scWorkers s ! i)"
    | k where "k < length (scWorkers s)" "k \<noteq> i" "t \<in> held (scWorkers s ! k)"
    | ts where "(ts, c) \<in> set (scFeeders s)" "t \<in> tids ts"
    unfolding located_def by (metis UnI1 UnI2 in_set_conv_nth)
  then show ?thesis
  proof cases
    case 1
    then show ?thesis using st new unfolding located_def by auto
  next
    case (2 k)
    then have "scWorkers s ! k \<in> set ((scWorkers s)[i := w])" by (auto simp: in_set_conv_nth intro!: exI [of _ k])
    then show ?thesis using 2 unfolding located_def by auto
  next
    case (3 ts)
    then show ?thesis unfolding located_def by auto
  qed
qed

lemma deliver_ok: "agg_ok a st \<Longrightarrow> agg_ok (foldl (deliver p wl clk room) a rs) st"
proof (induction rs arbitrary: a)
  case (Cons r rs)
  have "agg_ok (deliver p wl clk room a r) st"
    unfolding deliver_def by (rule agg_ok_step) (use Cons.prems in simp_all)
  then show ?case using Cons.IH by simp
qed simp

lemma deliver_kept: "kept a (foldl (deliver p wl clk room) a rs)"
proof (induction rs arbitrary: a)
  case Nil
  then show ?case by (simp add: kept_same)
next
  case (Cons r rs)
  have "kept a (deliver p wl clk room a r)" unfolding deliver_def by (rule kept_step) simp
  then show ?case using kept_trans [OF _ Cons] by simp
qed

lemma deliver_counted:
  assumes "agg_ok a False" "missing (deliver p wl clk room a r) c t"
  shows "t \<noteq> crID r"
proof
  assume t: "t = crID r"
  obtain j where j: "mget (agJobs (deliver p wl clk room a r)) (Job t) = Some j" "Idx t < sN (jSpec j)" "t \<notin> agDone (deliver p wl clk room a r)"
    using assms(2) unfolding missing_def by blast
  have "\<not> agStopped a" "agg_inv a" using assms(1) by (simp_all add: agg_ok_def serve_inv_def)
  then have "crID r \<in> agDone (deliver p wl clk room a r)"
    unfolding deliver_def by (rule result_counted) (use j t in \<open>simp_all add: deliver_def\<close>)
  with j(3) t show False by simp
qed

lemma deliver_missing:
  "agg_ok a False \<Longrightarrow> missing (foldl (deliver p wl clk room) a rs) c t \<Longrightarrow> t \<notin> crID ` set rs"
proof (induction rs arbitrary: a)
  case Nil
  then show ?case by simp
next
  case (Cons r rs)
  let ?a = "deliver p wl clk room a r"
  have ok: "agg_ok ?a False" using deliver_ok [OF Cons.prems(1), of p wl clk room "[r]"] by simp
  have m: "missing (foldl (deliver p wl clk room) ?a rs) c t" using Cons.prems(2) by simp
  have "missing ?a c t" by (rule missing_kept [OF deliver_kept m])
  then have "t \<noteq> crID r" by (rule deliver_counted [OF Cons.prems(1)])
  with Cons.IH [OF ok m] show ?case by simp
qed

lemma workerLoop_ok:
  assumes ok: "sched_ok p s" and c: "scStop s \<or> conserve s" and ev: "ev \<noteq> WStop"
  shows "\<exists>s'. workerLoop p wl clk wroom aroom i ev s = Ret s' \<and> sched_ok p s' \<and> (scStop s' \<or> conserve s')"
proof (cases "i < length (scWorkers s)")
  case False
  then show ?thesis using ok c by (simp add: workerLoop_def)
next
  case True
  let ?w = "scWorkers s ! i"
  have o: "worker_ok (window_of p) ?w" "queues_ok p (scNq s) (scPq s)" "agg_ok (scAgg s) (scStop s)"
    using ok True by (simp_all add: sched_ok_def list_all_length)
  then have qs: "length (scPq s) \<le> pqCap p" "\<forall>t \<in> set (scPq s). task_ok t" "\<forall>t \<in> set (scNq s). task_ok t"
    by (simp_all add: queues_ok_def)
  obtain w nq pq acts where st: "worker_step p (window_of p) (pqCap p) (scStop s) clk wroom ev ?w (scNq s) (scPq s) = Ret (w, nq, pq, acts)"
    and so: "step_ok (window_of p) (pqCap p) ?w (scNq s) (scPq s) w nq pq acts"
    using worker_step_ok [OF o(1) qs ev] by blast
  let ?v = "if forwarded acts \<noteq> [] \<and> agStopped (scAgg s) then w\<lparr>wPhase := Exited\<rparr> else w"
  let ?a = "foldl (deliver p wl (\<lambda>k. clk (k + 4)) aroom) (scAgg s) (forwarded acts)"
  let ?s = "s\<lparr>scNq := nq, scPq := pq, scWorkers := (scWorkers s)[i := ?v], scOut := scOut s @ acts, scAgg := ?a\<rparr>"
  have v: "worker_ok (window_of p) ?v" using so worker_ok_phase [of _ w Exited] by (simp add: step_ok_def)
  have fl: "task_ok t" if "t \<in> flight_tasks ?w" for t
    using o(1) that by (auto simp: flight_tasks_def worker_ok_def)
  have "nq = scNq s \<or> nq = tl (scNq s)" using so by (simp add: step_ok_def)
  then have "set nq \<subseteq> set (scNq s)" "length nq \<le> length (scNq s)" by (cases "scNq s"; auto)+
  then have q: "queues_ok p nq pq" using so o(2) fl unfolding step_ok_def queues_ok_def by (meson UnE order_trans subset_iff)
  have "table_ok (scTable s) (scClients s) ((scWorkers s)[i := ?v])"
    using ok True so by (intro table_ok_update) (simp_all add: sched_ok_def step_ok_def)
  then have "sched_ok p ?s"
    using ok v q deliver_ok [OF o(3)] by (simp add: sched_ok_def list_all_update)
  moreover have "conserve ?s" if "conserve s" "\<not> scStop s"
    using that(1)
  proof (rule conserveI)
    have a: "agg_ok (scAgg s) False" using o(3) that(2) by simp
    then have vw: "?v = w" by (simp add: agg_ok_def)
    fix c' t
    assume m: "missing (scAgg ?s) c' t" and l: "located s c' t"
    then have "t \<notin> crID ` set (forwarded acts)" using deliver_missing [OF a] by simp
    then show "located ?s c' t"
      using located_step [OF l True, where nq = nq and pq = pq and w = w and F = "crID ` set (forwarded acts)" and out = "scOut s @ acts" and a = ?a] so vw by (simp add: step_ok_def)
  qed (simp add: deliver_kept)
  moreover have "scStop ?s = scStop s" by simp
  moreover have "workerLoop p wl clk wroom aroom i ev s = Ret ?s" using True st by (simp add: workerLoop_def Let_def)
  ultimately show ?thesis using c by blast
qed

lemma workerLoop_stop:
  assumes ok: "sched_ok p s" and c: "scStop s \<or> conserve s"
  shows "\<exists>s'. workerLoop p wl clk wroom aroom i WStop s = Ret s' \<and> sched_ok p s' \<and> (scStop s' \<or> conserve s')"
proof (cases "i < length (scWorkers s) \<and> scStop s \<and> wPhase (scWorkers s ! i) \<noteq> AtTop")
  case False
  moreover have "s\<lparr>scWorkers := (scWorkers s)[i := scWorkers s ! i]\<rparr> = s" by simp
  ultimately show ?thesis using ok c by (auto simp: workerLoop_def)
next
  case True
  let ?w = "(scWorkers s ! i)\<lparr>wPhase := Exited\<rparr>"
  have "worker_ok (window_of p) ?w" using ok True by (intro worker_ok_phase) (simp_all add: sched_ok_def list_all_length)
  moreover have "table_ok (scTable s) (scClients s) ((scWorkers s)[i := ?w])"
    using ok True by (intro table_ok_update) (simp_all add: sched_ok_def)
  ultimately have "sched_ok p (s\<lparr>scWorkers := (scWorkers s)[i := ?w]\<rparr>)"
    using ok by (simp add: sched_ok_def list_all_update)
  then show ?thesis using True by (auto simp: workerLoop_def)
qed

section \<open>The machine\<close>

definition sched_inv :: "schedParams \<Rightarrow> sched go \<Rightarrow> bool" where
  "sched_inv p m \<longleftrightarrow> (\<exists>s. m = Ret s \<and> sched_ok p s \<and> (scStop s \<or> conserve s))"

lemma sched_handle_ok:
  assumes p: "ChunkSize p \<noteq> 0" and ok: "sched_ok p s" and c: "scStop s \<or> conserve s"
  shows "sched_inv p (sched_handle p wl clk wroom aroom ev s)"
proof (cases ev)
  case (SRead rd)
  then show ?thesis using dispatcher_ok [OF ok c] ok c by (auto simp: sched_inv_def simp del: dispatcher.simps)
next
  case (SSubmit k gone)
  let ?s = "s\<lparr>scHandlers := take k (scHandlers s) @ drop (Suc k) (scHandlers s)\<rparr>"
  have ok': "sched_ok p ?s" using ok by (auto simp: sched_ok_def handlers_ok_def dest: in_set_takeD in_set_dropD)
  have c': "scStop ?s \<or> conserve ?s" using c by (auto simp: conserve_def located_def)
  show ?thesis
  proof (cases "k < length (scHandlers s) \<and> \<not> agStopped (scAgg s)")
    case False
    then show ?thesis using SSubmit ok c ok' c' by (auto simp: sched_inv_def Let_def)
  next
    case True
    obtain h m where hm: "scHandlers s ! k = (h, m)" by (cases "scHandlers s ! k")
    then have "length (rqMsg m) \<le> MaxMsgLen" using ok True by (metis handlers_ok_def nth_mem sched_ok_def case_prodD)
    then show ?thesis using clientHandler_ok [OF p ok' c', of m wl clk aroom gone h] SSubmit True hm by (auto simp: sched_inv_def Let_def)
  qed
next
  case (SFeed k quit)
  then show ?thesis using feeder_step_ok [OF ok c] by (simp add: sched_inv_def)
next
  case (SWorker i e)
  then show ?thesis
    using workerLoop_ok [OF ok c, of e wl clk wroom aroom i] workerLoop_stop [OF ok c, of wl clk wroom aroom i]
    by (cases "e = WStop") (auto simp: sched_inv_def)
next
  case (STick now)
  let ?a = "agg_step p wl (scAgg s) (clk, aroom, ETick now)"
  have "agg_ok ?a (scStop s)" by (rule agg_ok_step) (use ok in \<open>simp_all add: sched_ok_def\<close>)
  moreover have "conserve (s\<lparr>scAgg := ?a\<rparr>)" if "conserve s"
    using that by (rule conserveI) (simp_all add: kept_step located_def)
  ultimately show ?thesis using STick ok c by (auto simp: sched_inv_def sched_ok_def)
next
  case SAggStop
  let ?a = "agg_step p wl (scAgg s) (clk, aroom, EStop)"
  have "agg_ok ?a (scStop s)" if "scStop s" by (rule agg_ok_step) (use ok that in \<open>simp_all add: sched_ok_def\<close>)
  then show ?thesis using SAggStop ok c by (auto simp: sched_inv_def sched_ok_def)
qed

lemma sched_inv_step: "ChunkSize p \<noteq> 0 \<Longrightarrow> sched_inv p m \<Longrightarrow> sched_inv p (sched_step p wl m e)"
  by (cases e) (auto simp: sched_step_def sched_inv_def [of p m] sched_handle_ok)

interpretation schm: machine "sched_step (withDefaults p) wl" "sched_inv (withDefaults p)" "\<lambda>_. True" for p wl
  using withDefaults_ok [of p] by unfold_locales (simp add: sched_inv_step sched_params_ok_def)

end
