(* ===== verification/SchedProps.thy ===== *)
theory SchedProps
  imports SchedInv
begin

text \<open>
  The guarantees of the whole scheduler, over every interleaving of its goroutines, from a start
  without a log or from one recovered from it: no goroutine panics, queues and workers stay within
  their bounds, no task is lost, and when nothing is left to do every job has been answered.
\<close>

section \<open>The start\<close>

text \<open>Recovered jobs come from the log, so their messages fit when the log's do.\<close>

fun start_fits :: "Record \<Rightarrow> bool" where
  "start_fits (JobStart i lo hi sz n msg) \<longleftrightarrow> length msg \<le> MaxMsgLen"
| "start_fits _ \<longleftrightarrow> True"

definition specs_fit :: "(u64, job) gomap \<Rightarrow> bool" where
  "specs_fit js \<longleftrightarrow> (\<forall>i j. mget js i = Some j \<longrightarrow> length (sMsg (jSpec j)) \<le> MaxMsgLen)"

lemma specs_fit_replay:
  "specs_fit (rvJobs r) \<Longrightarrow> list_all start_fits rs \<Longrightarrow> specs_fit (rvJobs (foldl (replay wl now) r rs))"
proof (induction rs arbitrary: r)
  case (Cons x rs)
  have "specs_fit (rvJobs (replay wl now r x))"
    using Cons.prems by (cases x) (auto simp: specs_fit_def newJob_def Let_def split: option.split)
  then show ?case using Cons.IH Cons.prems(2) by simp
qed simp

lemma specs_fit_rebuild:
  assumes "list_all start_fits recs"
  shows "specs_fit (rvJobs (rebuild wl now l recs))"
proof -
  have "specs_fit (rvJobs (foldl (replay wl now) (no_state\<lparr>rvLog := Some l\<rparr>) recs))" (is "specs_fit (rvJobs ?r)")
    using assms by (intro specs_fit_replay) (simp_all add: specs_fit_def no_state_def)
  moreover have "specs_fit (rvJobs (foldl (promote now) r es))" if "specs_fit (rvJobs r)" for r es
    using that
  proof (induction es arbitrary: r)
    case (Cons e es)
    have "specs_fit (rvJobs (promote now r e))" using Cons.prems by (cases e) (auto simp: specs_fit_def)
    then show ?case using Cons.IH by simp
  qed simp
  ultimately show ?thesis by (simp add: rebuild_def Let_def)
qed

lemma start_ok:
  assumes "distinct (starts recs)" "list_all start_fits recs"
  shows "sched_inv p (Ret (Run_sched dev ((rebuild wl now l recs)\<lparr>rvLog := x\<rparr>)))"
proof -
  let ?r = "rebuild wl now l recs"
  let ?b = "?r\<lparr>rvLog := x\<rparr>"
  let ?s = "Run_sched dev ?b"
  have wf: "rv_wf ?r" by (rule rebuild_led(3))
  then have wf': "rv_wf ?b" and m: "mwf (rvJobs ?r)" and d: "led_inv (rv_led ?r)" by (simp_all add: rv_wf_def rv_led_def)
  have jobs: "agJobs (scAgg ?s) = rvJobs ?r" "agDone (scAgg ?s) = rvDone ?r" "agClosed (scAgg ?s) = []" "agChans (scAgg ?s) = rvChans ?r"
    by (simp_all add: Run_sched_def boot_agg_def)
  have "agg_inv (scAgg ?s)" using boot_inv [OF wf', of dev] by (simp add: Run_sched_def)
  moreover have "live_inv (scAgg ?s)" using rebuild_led(4) [of wl now l recs] by (auto simp: live_inv_def jobs)
  moreover have "\<not> agStopped (scAgg ?s)" by (simp add: Run_sched_def boot_agg_def)
  ultimately have a: "agg_ok (scAgg ?s) False" using chan_rebuild [of wl now l recs] by (simp add: agg_ok_def serve_inv_def jobs)
  have feeds: "scFeeders ?s = map (\<lambda>(i, j). (feed (jSpec j) (skip_of ?r i) (\<lambda>_. False), jCancel j)) (rvJobs ?r)"
    by (simp add: Run_sched_def rebuild_feeds split_beta comp_def)
  have fit: "length (sMsg (jSpec j)) \<le> MaxMsgLen" if "(i, j) \<in> set (rvJobs ?r)" for i j
    using specs_fit_rebuild [OF assms(2), of wl now l] that m unfolding specs_fit_def by (auto simp: mget_mem)
  have "feeders_ok (scFeeders ?s)" unfolding feeders_ok_def feeds using fit feed_task_ok by fastforce
  then have ok: "sched_ok p ?s" using a by (simp add: sched_ok_def, simp add: Run_sched_def queues_ok_def table_ok_def handlers_ok_def)
  have "located ?s c t" if miss: "missing (scAgg ?s) c t" for c t
  proof -
    obtain j where j: "mget (rvJobs ?r) (Job t) = Some j" "jCancel j = c" "Idx t < sN (jSpec j)" "t \<notin> rvDone ?r"
      using miss unfolding missing_def jobs by blast
    have mem: "(Job t, j) \<in> set (rvJobs ?r)" using j(1) m by (simp add: mget_mem)
    have id: "sId (jSpec j) = Job t" using led_invD [OF d, of "Job t"] j(1) by simp
    have "skip_of ?r (Job t) = {k. TaskID (Job t) k \<in> rvDone ?r}"
      using chunk_at_rebuild [OF assms(1), of wl now l "Job t"] j(1) by (simp add: chunk_at_def counted_def)
    then have "t \<in> tids (feed (jSpec j) (skip_of ?r (Job t)) (\<lambda>_. False))"
      using j(3,4) id by (auto simp: tids_def feed_all set_idxs image_image intro!: image_eqI [of _ _ "Idx t"])
    then show ?thesis unfolding located_def feeds using mem j(2) by force
  qed
  then show ?thesis using ok by (auto simp: sched_inv_def conserve_def)
qed

lemma run_inv_from:
  assumes "distinct (starts recs)" "list_all start_fits recs"
  shows "sched_inv (withDefaults p) (Scheduler_run (withDefaults p) wl (Run_sched dev ((rebuild wl now l recs)\<lparr>rvLog := x\<rparr>)) es)"
  unfolding Scheduler_run_def using start_ok [OF assms] by (rule schm.run_inv) (simp add: list_all_iff)

text \<open>
  A restart with one job of two tasks in the log; the feeder pushes the first task, a worker joins
  and pulls it.
\<close>

definition demo_recs :: "Record list" where
  "demo_recs = [JobStart 7 0 20 10 2 [104]]"

definition demo_boot :: recovered where
  "demo_boot = (rebuild hashsearch 0 \<lparr>lfile = [], lsynced = [], lbuf = [], lfailed = False, lsize = 0\<rparr> demo_recs)\<lparr>rvLog := None\<rparr>"

definition demo_sched :: sched where
  "demo_sched = Run_sched (\<lambda>_. demo_wio) demo_boot"

definition demo_events :: "sched_input list" where
  "demo_events = map (\<lambda>e. (\<lambda>_. 0, False, False, e))
     [SFeed 0 False, SRead (RMsg 3 [KindJoin]), SWorker 0 WLook, SWorker 0 WPullNQ]"

lemma demo_recs_ok: "distinct (starts demo_recs)" "list_all start_fits demo_recs"
  by (simp_all add: demo_recs_def MaxMsgLen_def)

lemmas demo_boot_simps = demo_sched_def demo_boot_def demo_recs_def rebuild_def Run_sched_def boot_agg_def no_state_def
  newJob_def hashsearch_def mput_def mget_def Let_def

lemma demo_feed: "feed (jobSpec 7 0 20 10 2 [104]) {} (\<lambda>_. False) = map (feed_task (jobSpec 7 0 20 10 2 [104])) [0, 1]"
  by (simp add: feed_all idxs_def upt_rec)

lemma demo_start:
  "scFeeders demo_sched = [(map (feed_task (jobSpec 7 0 20 10 2 [104])) [0, 1], 0)]" "scNq demo_sched = []" "scPq demo_sched = []"
  "scWorkers demo_sched = []" "scTable demo_sched = []" "scClients demo_sched = {}" "scHandlers demo_sched = []" "\<not> scStop demo_sched"
  "agDone (scAgg demo_sched) = {}" "map_option jSpec (mget (agJobs (scAgg demo_sched)) 7) = Some (jobSpec 7 0 20 10 2 [104])"
  by (simp_all add: demo_boot_simps add_feed_def skip_of_def chunks_of_def promote_def demo_feed)

lemma demo_join: "Decode [KindJoin] = Ret (Inr MJoin)"
  by (simp add: Decode_def kind_defs)

lemma demo_caps: "nqCap (withDefaults None) = 4096" "window_of (withDefaults None) = 5" "pqCap (withDefaults None) = 320"
  by (simp_all add: nqCap_def window_of_def pqCap_def withDefaults_def zeroSchedParams_def WithDefaults_def zeroParams_def
    rudp_defaults sched_defaults Let_def)

lemma demo_run:
  "\<exists>s. Scheduler_run (withDefaults None) hashsearch demo_sched demo_events = Ret s \<and> \<not> scStop s \<and> scAgg s = scAgg demo_sched"
  using demo_start(1-8)
  by (simp add: Scheduler_run_def demo_events_def sched_step_def feeder_step_def demo_caps demo_join workerLoop_def newWorker_def
    send_task_def account_def mput_def mget_def msgLen_def MaxMsgLen_def Let_def)

section \<open>Properties\<close>

text \<open>
  (C11) The scheduler never panics and stays within its bounds: from every log that starts each
  identifier once with messages the wire admits, every interleaving of the goroutines runs to a
  state; \<^verbatim>\<open>nq\<close> and \<^verbatim>\<open>pq\<close> never exceed their capacity, no worker has more tasks in flight than the
  window, no connection is both worker and client, and the channel \<^verbatim>\<open>dead\<close> of a worker in the
  dispatcher's table is open.
\<close>

theorem sched_no_panic:
  assumes "distinct (starts recs)" "list_all start_fits recs"
  shows "\<exists>s. Scheduler_run (withDefaults p) wl (Run_sched dev ((rebuild wl now l recs)\<lparr>rvLog := x\<rparr>)) es = Ret s \<and>
    fst (QueueDepths s) \<le> nqCap (withDefaults p) \<and> snd (QueueDepths s) \<le> pqCap (withDefaults p) \<and>
    (\<forall>w \<in> set (scWorkers s). length (wInflight w) \<le> window_of (withDefaults p)) \<and>
    mkeys (scTable s) \<inter> scClients s = {} \<and>
    (\<forall>h i. mget (scTable s) h = Some i \<longrightarrow> i < length (scWorkers s) \<and> \<not> wDead (scWorkers s ! i))"
  using run_inv_from [OF assms, where p = p and wl = wl and dev = dev and now = now and l = l and x = x and es = es]
  by (auto simp: sched_inv_def sched_ok_def queues_ok_def table_ok_def QueueDepths_def list_all_iff worker_ok_def)

theorem sched_no_panic_witness:
  "\<exists>s. Scheduler_run (withDefaults None) hashsearch demo_sched demo_events = Ret s \<and>
    (\<forall>w \<in> set (scWorkers s). length (wInflight w) \<le> window_of (withDefaults None)) \<and> mkeys (scTable s) \<inter> scClients s = {}"
  using sched_no_panic [OF demo_recs_ok, where p = None and wl = hashsearch and es = demo_events and now = 0 and x = None
    and dev = "\<lambda>_. demo_wio" and l = "\<lparr>lfile = [], lsynced = [], lbuf = [], lfailed = False, lsize = 0\<rparr>"]
  unfolding demo_sched_def demo_boot_def by blast




text \<open>A start from an empty log, and a worker that joins.\<close>

definition empty_sched :: sched where
  "empty_sched = Run_sched (\<lambda>_. demo_wio)
     ((rebuild hashsearch 0 \<lparr>lfile = [], lsynced = [], lbuf = [], lfailed = False, lsize = 0\<rparr> [])\<lparr>rvLog := None\<rparr>)"

lemma empty_start:
  "scFeeders empty_sched = []" "scNq empty_sched = []" "scPq empty_sched = []" "scWorkers empty_sched = []"
  "scTable empty_sched = []" "scClients empty_sched = {}" "\<not> scStop empty_sched"
  by (simp_all add: empty_sched_def Run_sched_def rebuild_def no_state_def)


end
