(* ===== verification/Paced.thy ===== *)
theory Paced
  imports HashSearch Params
begin

text \<open>
  \<^verbatim>\<open>workload/paced.go\<close>: a workload that takes its time. \<^verbatim>\<open>Compute\<close> is a step on the counter of calls; \<open>clk\<close>
  are the readings of the clock in the order the source takes them, and the last component of the
  result is the argument of \<^verbatim>\<open>time.Sleep\<close>. Durations are scaled over the rationals.
\<close>

section \<open>The wrapper\<close>

record Paced =
  pcInner :: Workload
  MinCost :: duration
  Slowdown :: rat
  SlowAfter :: int
  pcCalls :: int

definition paced_target :: "Paced \<Rightarrow> duration \<Rightarrow> duration" where
  "paced_target p since =
     (let t = (if since < MinCost p then MinCost p else since)
      in if Slowdown p > 1 \<and> pcCalls p > SlowAfter p then trunc_rat (of_int t * Slowdown p) else t)"

definition Paced_Compute :: "Paced \<Rightarrow> (nat \<Rightarrow> time) \<Rightarrow> gostring \<Rightarrow> u64 \<Rightarrow> u64 \<Rightarrow> Paced \<times> Partial \<times> duration" where
  "Paced_Compute p clk msg lo hi =
     (let out = wlCompute (pcInner p) msg lo hi;
          p1 = p\<lparr>pcCalls := pcCalls p + 1\<rparr>;
          target = paced_target p1 (clk 1 - clk 0)
      in (p1, out, target - (clk 2 - clk 0)))"

definition Paced_Merge :: "Paced \<Rightarrow> Partial \<Rightarrow> Partial \<Rightarrow> Partial" where
  "Paced_Merge p a b = wlMerge (pcInner p) a b"

definition Paced_Zero :: "Paced \<Rightarrow> Partial" where
  "Paced_Zero p = wlZero (pcInner p)"

text \<open>The wrapper as a workload: the answer of \<^verbatim>\<open>Compute\<close> does not depend on the calls and the clock.\<close>

definition paced_workload :: "Paced \<Rightarrow> Workload" where
  "paced_workload p = \<lparr>wlCompute = (\<lambda>msg lo hi. fst (snd (Paced_Compute p (\<lambda>_. 0) msg lo hi))),
     wlMerge = Paced_Merge p, wlZero = Paced_Zero p\<rparr>"

lemma paced_inner: "paced_workload p = pcInner p"
  by (simp add: paced_workload_def Paced_Compute_def Paced_Merge_def [abs_def] Paced_Zero_def Let_def)

lemma paced_out: "fst (snd (Paced_Compute p clk msg lo hi)) = wlCompute (pcInner p) msg lo hi"
  by (simp add: Paced_Compute_def Let_def)

text \<open>A call lasts at least \<^verbatim>\<open>MinCost\<close>, and as long as the work itself, also when it is stretched.\<close>

lemma trunc_ge: "0 \<le> t \<Longrightarrow> 1 < r \<Longrightarrow> t \<le> trunc_rat (of_int t * r)"
proof -
  assume a: "0 \<le> t" "1 < r"
  then have "of_int t * 1 \<le> of_int t * r" by (intro mult_left_mono) simp_all
  then have "t \<le> \<lfloor>of_int t * r\<rfloor>" by (simp add: le_floor_iff)
  moreover have "\<not> of_int t * r < 0" using a by (simp add: not_less)
  ultimately show ?thesis by (simp add: trunc_rat_def)
qed

lemma paced_lasts:
  assumes "0 \<le> MinCost p" "clk 0 \<le> clk 1" "Paced_Compute p clk msg lo hi = (p', out, sleep)"
  shows "MinCost p \<le> (clk 2 - clk 0) + max 0 sleep" "clk 1 - clk 0 \<le> (clk 2 - clk 0) + max 0 sleep" "pcCalls p' = pcCalls p + 1"
proof -
  let ?t = "if clk 1 - clk 0 < MinCost p then MinCost p else clk 1 - clk 0"
  have "?t \<le> trunc_rat (of_int ?t * Slowdown p)" if "1 < Slowdown p" using assms(1,2) that by (intro trunc_ge) auto
  then show "MinCost p \<le> (clk 2 - clk 0) + max 0 sleep" "clk 1 - clk 0 \<le> (clk 2 - clk 0) + max 0 sleep"
    "pcCalls p' = pcCalls p + 1"
    using assms(3) by (auto simp: Paced_Compute_def paced_target_def Let_def split: if_splits)
qed

interpretation pacedl: splittable "paced_workload \<lparr>pcInner = hashsearch, MinCost = c, Slowdown = r, SlowAfter = a, pcCalls = k\<rparr>" for c r a k
  unfolding paced_inner by (simp, rule hs.splittable_axioms)

end
