(* ===== verification/Node.thy ===== *)
theory Node
  imports AggInv Paced
begin

text \<open>
  The run loops of package \<^verbatim>\<open>node\<close>: \<^verbatim>\<open>RunWorker\<close> (\<^verbatim>\<open>node/worker.go\<close>) and \<^verbatim>\<open>Submit\<close> with \<^verbatim>\<open>NewJobID\<close>
  (\<^verbatim>\<open>node/client.go\<close>). The reads of the connection are an input, a list of messages and errors; what the
  loop writes is its output. A loop that has used up the list is still waiting.
\<close>

section \<open>Definitions\<close>

type_synonym 'e read = "'e + bytes"

fun worker_loop :: "Workload \<Rightarrow> 'e read list \<Rightarrow> (bytes list \<times> 'e option) go" where
  "worker_loop wl [] = Ret ([], None)"
| "worker_loop wl (Inl err # rs) = Ret ([], Some err)"
| "worker_loop wl (Inr data # rs) =
     go_bind (Decode data) (\<lambda>d. case d of
        Inr (MChunk chunk) \<Rightarrow>
          let p = wlCompute wl (ckMsg chunk) (ckLo chunk) (ckHi chunk) in
          go_bind (Encode (MChunkResult (ChunkResult (ckID chunk) (Hash p) (Nonce p)))) (\<lambda>b.
          go_bind (worker_loop wl rs) (\<lambda>(ws, e). Ret (b # ws, e)))
      | _ \<Rightarrow> worker_loop wl rs)"

definition RunWorker :: "Workload \<Rightarrow> 'e read list \<Rightarrow> (bytes list \<times> 'e option) go" where
  "RunWorker wl rs = go_bind (Encode MJoin) (\<lambda>b. go_bind (worker_loop wl rs) (\<lambda>(ws, e). Ret (b # ws, e)))"

text \<open>\<open>None\<close> is a client that still waits for its answer.\<close>

fun submit_loop :: "u64 \<Rightarrow> 'e read list \<Rightarrow> ('e + Partial) option go" where
  "submit_loop job [] = Ret None"
| "submit_loop job (Inl err # rs) = Ret (Some (Inl err))"
| "submit_loop job (Inr data # rs) =
     go_bind (Decode data) (\<lambda>d. case d of
        Inr (MResult r) \<Rightarrow> if rsJob r = job then Ret (Some (Inr (Partial (rsHash r) (rsNonce r)))) else submit_loop job rs
      | _ \<Rightarrow> submit_loop job rs)"

datatype 'e submit_error = TooLong nat | ReadError 'e

definition Submit :: "u64 \<Rightarrow> gostring \<Rightarrow> u64 \<Rightarrow> u64 \<Rightarrow> 'e read list \<Rightarrow> (bytes list \<times> ('e submit_error + Partial) option) go" where
  "Submit job msg lo hi rs =
     (if length msg > MaxMsgLen then Ret ([], Some (Inl (TooLong (length msg))))
      else go_bind (Encode (MRequest (Request job lo hi msg))) (\<lambda>b.
           go_bind (submit_loop job rs) (\<lambda>r. Ret ([b], map_option (map_sum ReadError id) r))))"

definition NewJobID :: "bytes option \<Rightarrow> u64 go" where
  "NewJobID r = (case r of None \<Rightarrow> Panic | Some b \<Rightarrow> Uint64 b)"

section \<open>What the loops do\<close>

text \<open>The messages read before the first error, and that error.\<close>

fun until_error :: "'e read list \<Rightarrow> bytes list \<times> 'e option" where
  "until_error [] = ([], None)"
| "until_error (Inl err # rs) = ([], Some err)"
| "until_error (Inr d # rs) = (d # fst (until_error rs), snd (until_error rs))"

definition answer_to :: "Workload \<Rightarrow> Chunk \<Rightarrow> ChunkResult" where
  "answer_to wl ck = (let p = wlCompute wl (ckMsg ck) (ckLo ck) (ckHi ck) in ChunkResult (ckID ck) (Hash p) (Nonce p))"

definition chunks :: "bytes list \<Rightarrow> Chunk list" where
  "chunks ds = concat (map (\<lambda>d. case Decode d of Ret (Inr (MChunk ck)) \<Rightarrow> [ck] | _ \<Rightarrow> []) ds)"

definition results :: "bytes list \<Rightarrow> Result list" where
  "results ds = concat (map (\<lambda>d. case Decode d of Ret (Inr (MResult r)) \<Rightarrow> [r] | _ \<Rightarrow> []) ds)"

lemma Encode_result: "\<exists>b. Encode (MChunkResult r) = Ret b \<and> Decode b = Ret (Inr (MChunkResult r))"
  using Decode_Encode [of "MChunkResult r"] by simp

lemma worker_loop_spec:
  "\<exists>ws. worker_loop wl rs = Ret (ws, snd (until_error rs)) \<and>
     map Decode ws = map (\<lambda>ck. Ret (Inr (MChunkResult (answer_to wl ck)))) (chunks (fst (until_error rs)))"
proof (induction rs rule: until_error.induct)
  case (3 d rs)
  obtain ws where ws: "worker_loop wl rs = Ret (ws, snd (until_error rs))"
    "map Decode ws = map (\<lambda>ck. Ret (Inr (MChunkResult (answer_to wl ck)))) (chunks (fst (until_error rs)))" using 3 by blast
  obtain x where x: "Decode d = Ret x" using Decode_total by blast
  show ?case
  proof (cases "\<exists>ck. x = Inr (MChunk ck)")
    case True
    then obtain ck where ck: "x = Inr (MChunk ck)" by blast
    obtain b where b: "Encode (MChunkResult (answer_to wl ck)) = Ret b" "Decode b = Ret (Inr (MChunkResult (answer_to wl ck)))"
      using Encode_result by blast
    then have "worker_loop wl (Inr d # rs) = Ret (b # ws, snd (until_error rs))"
      using x ck ws(1) by (simp add: answer_to_def Let_def del: Encode.simps)
    with b(2) ws(2) x ck show ?thesis by (simp add: chunks_def)
  next
    case False
    then have "worker_loop wl (Inr d # rs) = worker_loop wl rs" "chunks (d # ds) = chunks ds" for ds
      using x by (auto simp: chunks_def split: sum.split Message.split)
    then show ?thesis using ws by simp
  qed
qed (simp_all add: chunks_def)

lemma submit_loop_spec:
  "submit_loop job rs = Ret (case filter (\<lambda>r. rsJob r = job) (results (fst (until_error rs))) of
     r # _ \<Rightarrow> Some (Inr (Partial (rsHash r) (rsNonce r)))
   | [] \<Rightarrow> map_option Inl (snd (until_error rs)))"
proof (induction rs rule: until_error.induct)
  case (3 d rs)
  obtain x where x: "Decode d = Ret x" using Decode_total by blast
  have "results (d # ds) = (case x of Inr (MResult r) \<Rightarrow> [r] | _ \<Rightarrow> []) @ results ds" for ds using x by (simp add: results_def)
  with x 3 show ?case by (auto split: sum.split Message.split list.split)
qed (simp_all add: results_def)

section \<open>Properties\<close>

text \<open>
  (C23) The worker answers every chunk it reads and nothing else: on any sequence of reads, of any bytes,
  \<^verbatim>\<open>RunWorker\<close> does not panic; it announces itself, then writes for each well-formed chunk read before the
  first error, in order and once per delivery, the result of computing exactly that chunk, and
  returns that error.
\<close>

theorem run_worker_exact:
  "\<exists>ws. RunWorker wl rs = Ret (ws, snd (until_error rs)) \<and>
    map Decode ws = Ret (Inr MJoin) # map (\<lambda>ck. Ret (Inr (MChunkResult (answer_to wl ck)))) (chunks (fst (until_error rs)))"
proof -
  obtain ws where ws: "worker_loop wl rs = Ret (ws, snd (until_error rs))"
    "map Decode ws = map (\<lambda>ck. Ret (Inr (MChunkResult (answer_to wl ck)))) (chunks (fst (until_error rs)))"
    using worker_loop_spec by blast
  have "Encode MJoin = Ret [KindJoin]" "Decode [KindJoin] = Ret (Inr MJoin)" by (simp_all add: Decode_def kind_defs)
  then show ?thesis using ws by (simp add: RunWorker_def)
qed

text \<open>
  (C21) Workers keep the scheduler's promise: when the chunks a worker reads are chunks the
  scheduler sends for tasks of jobs that satisfy \<open>sp\<close>, in any order and any number of times, every result it
  writes is one the correctness of answers asks for.
\<close>

theorem worker_results_honest:
  assumes "\<forall>ck \<in> set (chunks (fst (until_error rs))). \<exists>i k. k < sN (sp i) \<and> sId (sp i) = i \<and>
      ck = (let t = feed_task (sp i) k in Chunk (tID t) (tLo t) (tHi t) (tMsg t))"
    and "RunWorker hashsearch rs = Ret (ws, e)" "b \<in> set ws" "Decode b = Ret (Inr (MChunkResult r))"
  shows "ev_ok hashsearch sp (EResult r)"
proof -
  obtain ws' where "worker_loop hashsearch rs = Ret (ws', snd (until_error rs))"
    "map Decode ws' = map (\<lambda>ck. Ret (Inr (MChunkResult (answer_to hashsearch ck)))) (chunks (fst (until_error rs)))"
    using worker_loop_spec by blast
  then have "ws = [KindJoin] # ws'" "Decode ` set ws' = (\<lambda>ck. Ret (Inr (MChunkResult (answer_to hashsearch ck)))) ` set (chunks (fst (until_error rs)))"
    using assms(2) by (auto simp: RunWorker_def simp flip: set_map)
  moreover have "Decode [KindJoin] \<noteq> Ret (Inr (MChunkResult r))" by (simp add: Decode_def kind_defs)
  ultimately have "Decode b \<in> (\<lambda>ck. Ret (Inr (MChunkResult (answer_to hashsearch ck)))) ` set (chunks (fst (until_error rs)))"
    using assms(3,4) imageI [of b "set ws'" Decode] by auto
  then obtain ck where ck: "ck \<in> set (chunks (fst (until_error rs)))" "r = answer_to hashsearch ck" using assms(4) by auto
  then obtain i k where "k < sN (sp i)" "sId (sp i) = i" "ck = (let t = feed_task (sp i) k in Chunk (tID t) (tLo t) (tHi t) (tMsg t))"
    using assms(1) by blast
  with ck(2) show ?thesis by (simp add: chunk_rec_def answer_to_def task_value_def Let_def)
qed

text \<open>A worker that reads the only chunk of a job.\<close>

definition node_spec :: "u64 \<Rightarrow> jobSpec" where
  "node_spec i = jobSpec i 10 11 10 1 [104]"

definition demo_chunk :: Chunk where
  "demo_chunk = (let t = feed_task (node_spec 7) 0 in Chunk (tID t) (tLo t) (tHi t) (tMsg t))"

definition demo_reads :: "unit read list" where
  "demo_reads = [Inr (case Encode (MChunk demo_chunk) of Ret b \<Rightarrow> b | Panic \<Rightarrow> []), Inl ()]"

theorem worker_results_honest_witness:
  "\<exists>ws b r. RunWorker hashsearch demo_reads = Ret (ws, Some ()) \<and> b \<in> set ws \<and> Decode b = Ret (Inr (MChunkResult r)) \<and>
    ev_ok hashsearch node_spec (EResult r)"
proof -
  have "length (ckMsg demo_chunk) \<le> MaxMsgLen" by (simp add: demo_chunk_def node_spec_def MaxMsgLen_def Let_def)
  then obtain b0 where b0: "Encode (MChunk demo_chunk) = Ret b0" by (simp add: msgLen_def)
  have ck: "chunks (fst (until_error demo_reads)) = [demo_chunk]" "snd (until_error demo_reads) = Some ()"
    using b0 Decode_Encode [OF b0] by (simp_all add: demo_reads_def chunks_def del: Encode.simps)
  obtain ws where ws: "worker_loop hashsearch demo_reads = Ret (ws, Some ())"
    "map Decode ws = [Ret (Inr (MChunkResult (answer_to hashsearch demo_chunk)))]"
    using worker_loop_spec [of hashsearch demo_reads] ck by auto
  then obtain b where b: "ws = [b]" "Decode b = Ret (Inr (MChunkResult (answer_to hashsearch demo_chunk)))" by auto
  have run: "RunWorker hashsearch demo_reads = Ret ([KindJoin] # ws, Some ())" using ws(1) by (simp add: RunWorker_def)
  have "\<exists>i k. k < sN (node_spec i) \<and> sId (node_spec i) = i \<and>
      demo_chunk = (let t = feed_task (node_spec i) k in Chunk (tID t) (tLo t) (tHi t) (tMsg t))"
    by (intro exI [of _ 7] exI [of _ 0]) (simp add: demo_chunk_def node_spec_def)
  then have h: "\<forall>ck \<in> set (chunks (fst (until_error demo_reads))). \<exists>i k. k < sN (node_spec i) \<and> sId (node_spec i) = i \<and>
      ck = (let t = feed_task (node_spec i) k in Chunk (tID t) (tLo t) (tHi t) (tMsg t))" using ck(1) by simp
  have m: "b \<in> set ([KindJoin] # ws)" using b(1) by simp
  from worker_results_honest [OF h run m b(2)] run m b(2) show ?thesis by blast
qed

text \<open>
  (C24) \<^verbatim>\<open>Submit\<close> returns the answer to its own job: it does not panic; a message that is too long is an
  error and nothing is sent; otherwise it sends exactly the request and returns the first well-formed
  result for this job that arrives before the connection ends, or the error that ended it; results
  of other jobs, other messages and malformed bytes are skipped.
\<close>

theorem submit_exact:
  "\<exists>ws r. Submit job msg lo hi rs = Ret (ws, r) \<and>
    (if length msg > MaxMsgLen then ws = [] \<and> r = Some (Inl (TooLong (length msg)))
     else map Decode ws = [Ret (Inr (MRequest (Request job lo hi msg)))] \<and>
       r = (case filter (\<lambda>r. rsJob r = job) (results (fst (until_error rs))) of
              x # _ \<Rightarrow> Some (Inr (Partial (rsHash x) (rsNonce x)))
            | [] \<Rightarrow> map_option (Inl \<circ> ReadError) (snd (until_error rs))))"
proof (cases "length msg > MaxMsgLen")
  case True
  then show ?thesis by (simp add: Submit_def)
next
  case False
  then obtain b where b: "Encode (MRequest (Request job lo hi msg)) = Ret b" by (simp add: msgLen_def)
  moreover have "Decode b = Ret (Inr (MRequest (Request job lo hi msg)))" using Decode_Encode [OF b] .
  ultimately show ?thesis
    using False submit_loop_spec [of job rs]
    by (simp add: Submit_def option.map_comp comp_def del: Encode.simps split: list.split)
qed

end
