(* ===== verification/Tcp.thy ===== *)
theory Tcp
  imports Codec Machine
begin

text \<open>
  The TCP transport (\<^verbatim>\<open>transport/tcp.go\<close>): frames with a two-byte length, a connection with its queue,
  writer and reader goroutines, the accepting server and the client. The socket is an input: how
  much of a write went out and whether it failed, and which bytes arrive. The steps of the three
  goroutines interleave in any way; the hand-off from queue to writer is one step with the write.
\<close>

section \<open>Frames\<close>

definition tcp_frame :: "bytes \<Rightarrow> bytes" where
  "tcp_frame d = PutUint16 (of_nat (length d)) @ d"

text \<open>The two \<^verbatim>\<open>io.ReadFull\<close> of the reader, on what has arrived: a message and what follows it.\<close>

definition tcp_next :: "bytes \<Rightarrow> (bytes \<times> bytes) option" where
  "tcp_next b =
     (if length b < 2 then None
      else case Uint16 (take 2 b) of
        Panic \<Rightarrow> None
      | Ret v \<Rightarrow> let n = unat v in if length b < 2 + n then None else Some (take n (drop 2 b), drop n (drop 2 b)))"

lemma tcp_next_less: "tcp_next b = Some (d, rest) \<Longrightarrow> length rest < length b"
  by (auto simp: tcp_next_def Let_def split: if_splits go.splits)

function tcp_frames :: "bytes \<Rightarrow> bytes list \<times> nat" where
  "tcp_frames b = (case tcp_next b of None \<Rightarrow> ([], 0)
     | Some (d, rest) \<Rightarrow> (d # fst (tcp_frames rest), length b - length rest + snd (tcp_frames rest)))"
  by pat_completeness auto
termination by (relation "measure length") (auto dest: tcp_next_less)

declare tcp_frames.simps [simp del]

definition tcp_fits :: "bytes \<Rightarrow> bool" where
  "tcp_fits d \<longleftrightarrow> length d < 2 ^ 16"

lemma tcp_next_frame: "tcp_fits d \<Longrightarrow> tcp_next (tcp_frame d @ rest) = Some (d, rest)"
  using Uint16_Put [of "of_nat (length d)" "[]"] by (simp add: tcp_next_def tcp_frame_def tcp_fits_def unat_of_nat)

interpretation tcpf: framing tcp_fits tcp_frame tcp_next tcp_frames
proof
  fix r rest p b
  show "tcp_next (tcp_frame r @ rest) = Some (r, rest)" if "tcp_fits r" using that by (rule tcp_next_frame)
  show "tcp_next p = None" if r: "tcp_fits r" and p: "strict_prefix p (tcp_frame r)"
  proof -
    obtain s where s: "tcp_frame r = p @ s" "s \<noteq> []" using p by (metis prefixE strict_prefix_def append_Nil2)
    show ?thesis
    proof (cases "length p < 2")
      case False
      then have "take 2 p = PutUint16 (of_nat (length r))" using s(1) by (metis append_eq_append_conv_if tcp_frame_def length_Put(1) not_less take_append append_take_drop_id)
      then have "Uint16 (take 2 p) = Ret (of_nat (length r))" using Uint16_Put [of "of_nat (length r)" "[]"] by simp
      moreover have "length p + length s = 2 + length r" using arg_cong [OF s(1), of length] by (simp add: tcp_frame_def)
      then have "length p < 2 + length r" using s(2) by (cases s) simp_all
      ultimately show ?thesis using r by (simp add: tcp_next_def tcp_fits_def unat_of_nat Let_def)
    qed (simp add: tcp_next_def)
  qed
  show "tcp_next [] = None" by (simp add: tcp_next_def)
  show "tcp_frames b = (case tcp_next b of None \<Rightarrow> ([], 0)
      | Some (r, rest) \<Rightarrow> (r # fst (tcp_frames rest), length b - length rest + snd (tcp_frames rest)))"
    by (rule tcp_frames.simps)
qed

section \<open>A connection\<close>

datatype tcp_error = IoError | EOF

datatype tcpDelivery = tcpDelivery (tdC: int) (tdData: bytes) (tdErr: "tcp_error option")

datatype writer_phase = Writing | HungUp | WriteFailed | WriterGone

record tcpConn =
  tcId :: int
  tcPending :: "bytes list"
  tcClosing :: bool
  tcQueueEnd :: bool
  tcToWriterClosed :: bool
  tcWriter :: writer_phase
  tcNc :: bytes
  tcNcClosed :: bool
  tcDead :: bool
  tcIn :: bytes
  tcOut :: "tcpDelivery list"

definition newTCPConn :: "int \<Rightarrow> tcpConn" where
  "newTCPConn i = \<lparr>tcId = i, tcPending = [], tcClosing = False, tcQueueEnd = False, tcToWriterClosed = False, tcWriter = Writing,
     tcNc = [], tcNcClosed = False, tcDead = False, tcIn = [], tcOut = []\<rparr>"

text \<open>The top of the loop of \<^verbatim>\<open>queue\<close>: once drained after \<^verbatim>\<open>Close\<close>, it closes the channel to the writer.\<close>

definition queue_top :: "tcpConn \<Rightarrow> tcpConn" where
  "queue_top c = (if tcPending c = [] \<and> tcClosing c then c\<lparr>tcToWriterClosed := True, tcQueueEnd := True\<rparr> else c)"

datatype tcp_event =
    TcWrite bytes
  | TcHand nat bool
  | TcClose
  | TcHangUp
  | TcQueueDead
  | TcWriterDead
  | TcArrive bytes
  | TcFrame bool
  | TcEnd bool

text \<open>
  One step. \<open>TcHand n ok\<close> takes the head of the backlog to the socket, where \<open>n\<close> bytes go out when the
  write fails. \<open>TcFrame\<close> and \<open>TcEnd\<close> hand over to \<^verbatim>\<open>out\<close>, or take \<^verbatim>\<open>stop\<close> when it is closed and chosen. The reader
  meets an error when no whole frame is left, or when this side has closed the socket.
\<close>

definition tcp_deliver :: "bool \<Rightarrow> bool \<Rightarrow> bytes \<Rightarrow> tcp_error option \<Rightarrow> tcpConn \<Rightarrow> tcpConn" where
  "tcp_deliver stop drp d err c = (if stop \<and> drp then c else c\<lparr>tcOut := tcOut c @ [tcpDelivery (tcId c) d err]\<rparr>)"

fun tcp_step :: "bool \<Rightarrow> tcp_event \<Rightarrow> tcpConn \<Rightarrow> tcpConn" where
  "tcp_step stop (TcWrite d) c = (if tcQueueEnd c \<or> tcClosing c then c else c\<lparr>tcPending := tcPending c @ [d]\<rparr>)"
| "tcp_step stop (TcHand n ok) c =
     (case tcPending c of
        [] \<Rightarrow> c
      | d # ds \<Rightarrow>
          if tcQueueEnd c \<or> tcWriter c \<noteq> Writing then c
          else if ok \<and> \<not> tcNcClosed c then queue_top (c\<lparr>tcPending := ds, tcNc := tcNc c @ tcp_frame d\<rparr>)
          else queue_top (c\<lparr>tcPending := ds, tcNc := tcNc c @ take (if tcNcClosed c then 0 else min n (length d + 1)) (tcp_frame d),
                 tcNcClosed := True, tcWriter := WriteFailed\<rparr>))"
| "tcp_step stop TcClose c = (if tcQueueEnd c then c else queue_top (c\<lparr>tcClosing := True\<rparr>))"
| "tcp_step stop TcHangUp c =
     (if tcToWriterClosed c \<and> tcWriter c = Writing then c\<lparr>tcNcClosed := True, tcWriter := HungUp\<rparr> else c)"
| "tcp_step stop TcQueueDead c = (if tcDead c then c\<lparr>tcQueueEnd := True\<rparr> else c)"
| "tcp_step stop TcWriterDead c = (if tcDead c \<and> tcWriter c = Writing then c\<lparr>tcWriter := WriterGone\<rparr> else c)"
| "tcp_step stop (TcArrive b) c = (if tcNcClosed c \<or> tcDead c then c else c\<lparr>tcIn := tcIn c @ b\<rparr>)"
| "tcp_step stop (TcFrame drp) c =
     (if tcDead c then c
      else case tcp_next (tcIn c) of
        None \<Rightarrow> c
      | Some (d, rest) \<Rightarrow> tcp_deliver stop drp d None (c\<lparr>tcIn := rest\<rparr>))"
| "tcp_step stop (TcEnd drp) c =
     (if tcDead c \<or> tcp_next (tcIn c) \<noteq> None \<and> \<not> tcNcClosed c then c
      else tcp_deliver stop drp [] (Some IoError) (c\<lparr>tcNcClosed := True, tcDead := True\<rparr>))"

definition tcp_run :: "tcpConn \<Rightarrow> (bool \<times> tcp_event) list \<Rightarrow> tcpConn" where
  "tcp_run c evs = foldl (\<lambda>c x. tcp_step (fst x) (snd x) c) c evs"

section \<open>The server\<close>

record TCPServer =
  tsProcs :: "tcpConn list"
  tsConns :: "nat list"
  tsNextID :: int
  tsClosing :: bool
  tsDone :: bool

definition ListenTCP :: "bool \<Rightarrow> TCPServer option" where
  "ListenTCP listened = (if \<not> listened then None else Some \<lparr>tsProcs = [], tsConns = [], tsNextID = 1, tsClosing = False, tsDone = False\<rparr>)"

text \<open>One turn of \<^verbatim>\<open>accept\<close>: a connection, or an error, which is how a closed listener shows.\<close>

definition close_nc :: "nat list \<Rightarrow> tcpConn list \<Rightarrow> tcpConn list" where
  "close_nc ks ps = map (\<lambda>k. if k \<in> set ks then (ps ! k)\<lparr>tcNcClosed := True\<rparr> else ps ! k) [0..<length ps]"

definition tcp_accept :: "bool \<Rightarrow> TCPServer \<Rightarrow> TCPServer" where
  "tcp_accept ok s =
     (if tsDone s then s
      else if \<not> ok then s\<lparr>tsClosing := True, tsProcs := close_nc (tsConns s) (tsProcs s), tsDone := True\<rparr>
      else
        let live = filter (\<lambda>k. \<not> tcDead (tsProcs s ! k)) (tsConns s)
        in s\<lparr>tsProcs := tsProcs s @ [newTCPConn (tsNextID s)], tsConns := live @ [length (tsProcs s)], tsNextID := tsNextID s + 1\<rparr>)"

datatype tcp_server_event = TsAccept bool | TsConn nat tcp_event

fun tcp_server_step :: "TCPServer \<Rightarrow> tcp_server_event \<Rightarrow> TCPServer" where
  "tcp_server_step s (TsAccept ok) = tcp_accept ok s"
| "tcp_server_step s (TsConn k ev) =
     (if k < length (tsProcs s) then s\<lparr>tsProcs := (tsProcs s)[k := tcp_step (tsClosing s) ev (tsProcs s ! k)]\<rparr> else s)"

text \<open>Every connection the server accepted is in its list or has ended, and all are closed at the end.\<close>

definition tcp_server_ok :: "TCPServer \<Rightarrow> bool" where
  "tcp_server_ok s \<longleftrightarrow> tsNextID s = int (length (tsProcs s)) + 1 \<and> (tsDone s \<longrightarrow> tsClosing s) \<and>
     (\<forall>k < length (tsProcs s). tcId (tsProcs s ! k) = int k + 1 \<and> (k \<in> set (tsConns s) \<or> tcDead (tsProcs s ! k)) \<and>
        (tsDone s \<longrightarrow> tcNcClosed (tsProcs s ! k) \<or> tcDead (tsProcs s ! k)))"

lemma queue_top_frame [simp]:
  "tcId (queue_top c) = tcId c" "tcDead (queue_top c) = tcDead c" "tcNcClosed (queue_top c) = tcNcClosed c" "tcNc (queue_top c) = tcNc c"
  "tcPending (queue_top c) = tcPending c" "tcWriter (queue_top c) = tcWriter c" "tcIn (queue_top c) = tcIn c" "tcOut (queue_top c) = tcOut c"
  by (simp_all add: queue_top_def)

lemma tcp_deliver_frame [simp]:
  "tcId (tcp_deliver st b d e c) = tcId c" "tcDead (tcp_deliver st b d e c) = tcDead c" "tcNcClosed (tcp_deliver st b d e c) = tcNcClosed c"
  "tcNc (tcp_deliver st b d e c) = tcNc c" "tcPending (tcp_deliver st b d e c) = tcPending c" "tcWriter (tcp_deliver st b d e c) = tcWriter c"
  "tcIn (tcp_deliver st b d e c) = tcIn c" "tcToWriterClosed (tcp_deliver st b d e c) = tcToWriterClosed c"
  by (simp_all add: tcp_deliver_def)

lemma tcp_step_mono:
  "tcId (tcp_step st ev c) = tcId c" "tcDead c \<Longrightarrow> tcDead (tcp_step st ev c)" "tcNcClosed c \<Longrightarrow> tcNcClosed (tcp_step st ev c)"
  by (cases ev; auto split: list.split option.split)+

interpretation tcps: machine tcp_server_step tcp_server_ok "\<lambda>_. True"
proof
  fix s ev
  assume ok: "tcp_server_ok s"
  show "tcp_server_ok (tcp_server_step s ev)"
  proof (cases ev)
    case (TsAccept b)
    with ok show ?thesis
      by (auto simp: tcp_server_ok_def tcp_accept_def close_nc_def nth_append newTCPConn_def Let_def less_Suc_eq)
  next
    case (TsConn k e)
    with ok tcp_step_mono [where st = "tsClosing s" and ev = e and c = "tsProcs s ! k"] show ?thesis
      by (auto simp: tcp_server_ok_def nth_list_update)
  qed
qed

section \<open>The client\<close>

record TCPClient =
  tlConn :: tcpConn
  tlToken :: bool
  tlStop :: bool

definition DialTCP :: "bool \<Rightarrow> TCPClient option" where
  "DialTCP dialled = (if \<not> dialled then None else Some \<lparr>tlConn = newTCPConn 0, tlToken = True, tlStop = False\<rparr>)"

text \<open>\<^verbatim>\<open>Close\<close>: the token says who closes \<^verbatim>\<open>stop\<close>; closing it twice would panic.\<close>

definition tcp_client_Close :: "TCPClient \<Rightarrow> TCPClient go" where
  "tcp_client_Close cl =
     (let cl1 = cl\<lparr>tlConn := tcp_step (tlStop cl) TcClose (tlConn cl)\<rparr> in
      if tlToken cl1 then (if tlStop cl1 then Panic else Ret (cl1\<lparr>tlToken := False, tlStop := True\<rparr>))
      else Ret cl1)"

definition tcp_client_step :: "TCPClient go \<Rightarrow> tcp_event option \<Rightarrow> TCPClient go" where
  "tcp_client_step m ev = go_bind m (\<lambda>cl. case ev of
     None \<Rightarrow> tcp_client_Close cl
   | Some e \<Rightarrow> Ret (cl\<lparr>tlConn := tcp_step (tlStop cl) e (tlConn cl)\<rparr>))"

text \<open>\<^verbatim>\<open>Read\<close>: a delivery of the reader, or that the reader has returned; \<open>None\<close> while that case is not ready.\<close>

definition TCPClient_Read :: "TCPClient \<Rightarrow> tcpDelivery option \<Rightarrow> (tcp_error + bytes) option" where
  "TCPClient_Read cl src =
     (case src of
        Some d \<Rightarrow> Some (case tdErr d of None \<Rightarrow> Inr (tdData d) | Some err \<Rightarrow> Inl err)
      | None \<Rightarrow> if tcDead (tlConn cl) then Some (Inl EOF) else None)"

text \<open>\<^verbatim>\<open>Close\<close> may be called any number of times.\<close>

fun tcp_client_ok :: "TCPClient go \<Rightarrow> bool" where
  "tcp_client_ok Panic \<longleftrightarrow> False"
| "tcp_client_ok (Ret cl) \<longleftrightarrow> tlToken cl \<noteq> tlStop cl"

interpretation tcpcl: machine tcp_client_step tcp_client_ok "\<lambda>_. True"
proof
  fix m ev
  assume "tcp_client_ok m"
  then obtain cl where "m = Ret cl" "tlToken cl \<noteq> tlStop cl" by (cases m) simp_all
  then show "tcp_client_ok (tcp_client_step m ev)"
    by (cases ev) (simp_all add: tcp_client_step_def tcp_client_Close_def Let_def)
qed

end
