(* ===== verification/TcpProps.thy ===== *)
theory TcpProps
  imports Tcp
begin

text \<open>
  What the TCP connection delivers: the bytes on the wire are the frames of the messages its queue took
  over, and the receiving side cuts exactly these messages from what arrives.
\<close>

section \<open>What goes out\<close>

text \<open>The messages the queue takes over, in order.\<close>

fun tcp_taken :: "tcp_event \<Rightarrow> tcpConn \<Rightarrow> bytes list" where
  "tcp_taken (TcWrite d) c = (if tcQueueEnd c \<or> tcClosing c then [] else [d])"
| "tcp_taken _ c = []"

fun tcp_writes :: "tcpConn \<Rightarrow> (bool \<times> tcp_event) list \<Rightarrow> bytes list" where
  "tcp_writes c [] = []"
| "tcp_writes c (x # xs) = tcp_taken (snd x) c @ tcp_writes (tcp_step (fst x) (snd x) c) xs"

definition sent_ok :: "bytes list \<Rightarrow> tcpConn \<Rightarrow> bool" where
  "sent_ok W c \<longleftrightarrow> (tcToWriterClosed c \<longrightarrow> tcPending c = [] \<and> tcQueueEnd c) \<and> (tcWriter c = HungUp \<longrightarrow> tcToWriterClosed c) \<and>
     (if tcWriter c = WriteFailed then prefix (tcNc c) (tcpf.stream W)
      else \<exists>sent. W = sent @ tcPending c \<and> tcNc c = tcpf.stream sent)"

lemma sent_okD:
  assumes "sent_ok W c"
  shows "tcToWriterClosed c \<Longrightarrow> tcPending c = []" "tcToWriterClosed c \<Longrightarrow> tcQueueEnd c" "tcWriter c = HungUp \<Longrightarrow> tcToWriterClosed c"
    "tcWriter c = WriteFailed \<Longrightarrow> prefix (tcNc c) (tcpf.stream W)"
    "tcWriter c \<noteq> WriteFailed \<Longrightarrow> \<exists>sent. W = sent @ tcPending c \<and> tcNc c = tcpf.stream sent"
  using assms unfolding sent_ok_def by (simp_all split: if_split_asm)

lemma sent_ok_same:
  assumes "sent_ok W c" "tcPending c' = tcPending c" "tcNc c' = tcNc c" "tcToWriterClosed c' = tcToWriterClosed c"
    and "tcWriter c' = tcWriter c \<or> tcWriter c = Writing \<and> (tcWriter c' = WriterGone \<or> tcWriter c' = HungUp \<and> tcToWriterClosed c)"
    and "tcQueueEnd c \<longrightarrow> tcQueueEnd c'"
  shows "sent_ok W c'"
  using assms(2-) sent_okD [OF assms(1)] unfolding sent_ok_def by (cases "tcWriter c") (elim disjE conjE; simp)+

lemma sent_ok_write:
  assumes "sent_ok W c" "\<not> tcQueueEnd c"
  shows "sent_ok (W @ [d]) (c\<lparr>tcPending := tcPending c @ [d]\<rparr>)"
proof (cases "tcWriter c = WriteFailed")
  case True
  then have "prefix (tcNc c) (tcpf.stream (W @ [d]))" using sent_okD(4) [OF assms(1)] by (simp add: prefix_append)
  moreover have "\<not> tcToWriterClosed c" using sent_okD(2) [OF assms(1)] assms(2) by blast
  ultimately show ?thesis using True by (simp add: sent_ok_def)
next
  case False
  then obtain sent where "W = sent @ tcPending c" "tcNc c = tcpf.stream sent" using sent_okD(5) [OF assms(1)] by blast
  moreover have "\<not> tcToWriterClosed c" using sent_okD(2) [OF assms(1)] assms(2) by blast
  moreover from this have "tcWriter c \<noteq> HungUp" using sent_okD(3) [OF assms(1)] by blast
  ultimately show ?thesis using False unfolding sent_ok_def by simp
qed

lemma sent_ok_queue_top: "sent_ok W c \<Longrightarrow> sent_ok W (queue_top c)"
  unfolding sent_ok_def queue_top_def by (cases "tcWriter c") auto

lemma sent_ok_hand:
  assumes "sent_ok W c" "tcPending c = d # ds" "\<not> tcQueueEnd c" "tcWriter c = Writing"
  shows "sent_ok W (c\<lparr>tcPending := ds, tcNc := tcNc c @ tcp_frame d\<rparr>)"
    and "sent_ok W (c\<lparr>tcPending := ds, tcNc := tcNc c @ take k (tcp_frame d), tcNcClosed := True, tcWriter := WriteFailed\<rparr>)"
proof -
  obtain sent where sent: "W = sent @ d # ds" "tcNc c = tcpf.stream sent" using sent_okD(5) [OF assms(1)] assms(2,4) by auto
  have open': "\<not> tcToWriterClosed c" using sent_okD(2) [OF assms(1)] assms(3) by blast
  have "W = (sent @ [d]) @ ds" "tcNc c @ tcp_frame d = tcpf.stream (sent @ [d])" using sent by simp_all
  then show "sent_ok W (c\<lparr>tcPending := ds, tcNc := tcNc c @ tcp_frame d\<rparr>)"
    using open' assms(4) unfolding sent_ok_def by auto
  have "tcpf.stream W = (tcNc c @ take k (tcp_frame d)) @ drop k (tcp_frame d) @ tcpf.stream ds"
    using sent append_take_drop_id [of k "tcp_frame d"] by (metis append.assoc concat.simps(2) concat_append list.simps(9) map_append)
  then have "prefix (tcNc c @ take k (tcp_frame d)) (tcpf.stream W)" by (rule prefixI)
  then show "sent_ok W (c\<lparr>tcPending := ds, tcNc := tcNc c @ take k (tcp_frame d), tcNcClosed := True, tcWriter := WriteFailed\<rparr>)"
    using open' unfolding sent_ok_def by simp
qed

lemma sent_ok_step:
  assumes "sent_ok W c"
  shows "sent_ok (W @ tcp_taken ev c) (tcp_step st ev c)"
proof (cases ev)
  case (TcWrite d)
  with assms sent_ok_write [OF assms] show ?thesis by simp
next
  case (TcHand n b)
  show ?thesis
  proof (cases "tcPending c")
    case (Cons d ds)
    with TcHand assms sent_ok_hand [OF assms Cons] show ?thesis by (simp add: sent_ok_queue_top)
  qed (use TcHand assms in simp)
next
  case TcClose
  have "sent_ok W (c\<lparr>tcClosing := True\<rparr>)" by (rule sent_ok_same [OF assms]) simp_all
  with TcClose assms show ?thesis by (simp add: sent_ok_queue_top)
next
  case (TcFrame b)
  with assms show ?thesis by (auto intro!: sent_ok_same [OF assms] simp: tcp_deliver_def split: option.split)
qed (use assms in \<open>auto intro!: sent_ok_same [OF assms] simp: tcp_deliver_def\<close>)

lemma sent_ok_run: "sent_ok W c \<Longrightarrow> sent_ok (W @ tcp_writes c evs) (tcp_run c evs)"
proof (induction evs arbitrary: W c)
  case Nil
  then show ?case by (simp add: tcp_run_def)
next
  case (Cons x evs)
  from Cons.IH [OF sent_ok_step [OF Cons.prems, of "snd x" "fst x"]] show ?case by (simp add: tcp_run_def)
qed

lemma sent_ok_new: "sent_ok [] (newTCPConn i)"
  by (simp add: sent_ok_def newTCPConn_def)

section \<open>What comes in\<close>

fun tcp_arrival :: "tcp_event \<Rightarrow> tcpConn \<Rightarrow> bytes" where
  "tcp_arrival (TcArrive b) c = (if tcNcClosed c \<or> tcDead c then [] else b)"
| "tcp_arrival _ c = []"

fun tcp_arrived :: "tcpConn \<Rightarrow> (bool \<times> tcp_event) list \<Rightarrow> bytes" where
  "tcp_arrived c [] = []"
| "tcp_arrived c (x # xs) = tcp_arrival (snd x) c @ tcp_arrived (tcp_step (fst x) (snd x) c) xs"

text \<open>The messages handed to \<^verbatim>\<open>Read\<close>.\<close>

definition received :: "tcpConn \<Rightarrow> bytes list" where
  "received c = map tdData (filter (\<lambda>d. tdErr d = None) (tcOut c))"

lemma tcp_next_more: "tcp_next b = Some (d, rest) \<Longrightarrow> tcp_next (b @ x) = Some (d, rest @ x)"
  by (auto simp: tcp_next_def Let_def split: if_splits go.splits)

text \<open>What was received and what is still to be cut are the frames of what arrived, whatever follows.\<close>

definition recv_ok :: "bytes \<Rightarrow> tcpConn \<Rightarrow> bool" where
  "recv_ok R c \<longleftrightarrow> (\<forall>x. fst (tcp_frames (R @ x)) = received c @ fst (tcp_frames (tcIn c @ x)))"

lemma recv_ok_step:
  assumes "recv_ok R c"
  shows "recv_ok (R @ tcp_arrival ev c) (tcp_step False ev c)"
proof (cases ev)
  case (TcFrame b)
  show ?thesis
  proof (cases "tcp_next (tcIn c)")
    case None
    with TcFrame assms show ?thesis by simp
  next
    case (Some y)
    obtain d rest where y: "y = (d, rest)" by (cases y)
    have "fst (tcp_frames (tcIn c @ x)) = d # fst (tcp_frames (rest @ x))" for x
      using tcp_next_more [of "tcIn c" d rest x] Some y by (subst tcp_frames.simps) simp
    with TcFrame Some y assms show ?thesis by (auto simp: recv_ok_def received_def tcp_deliver_def)
  qed
next
  case (TcHand n b)
  have "received (tcp_step False ev c) = received c" "tcIn (tcp_step False ev c) = tcIn c"
    using TcHand by (auto simp: received_def split: list.split)
  with TcHand assms show ?thesis by (simp add: recv_ok_def)
qed (use assms in \<open>auto simp: recv_ok_def received_def tcp_deliver_def queue_top_def\<close>)

lemma recv_ok_run: "recv_ok R c \<Longrightarrow> \<forall>x \<in> set evs. \<not> fst x \<Longrightarrow> recv_ok (R @ tcp_arrived c evs) (tcp_run c evs)"
proof (induction evs arbitrary: R c)
  case Nil
  then show ?case by (simp add: tcp_run_def)
next
  case (Cons x evs)
  then have "recv_ok (R @ tcp_arrival (snd x) c) (tcp_step (fst x) (snd x) c)" using recv_ok_step by simp
  from Cons.IH [OF this] Cons.prems(2) show ?case by (simp add: tcp_run_def)
qed

lemma recv_ok_new: "recv_ok [] (newTCPConn i)"
  by (simp add: recv_ok_def received_def newTCPConn_def)

section \<open>Properties\<close>



end
