(* ===== verification/Transport.thy ===== *)
theory Transport
  imports TcpProps Client Scheduler
begin

text \<open>
  The seam between the scheduler and its transports (\<^verbatim>\<open>transport/transport.go\<close>, \<^verbatim>\<open>transport/dial.go\<close>): the
  contract of \<^verbatim>\<open>Server.Read\<close> as a locale, the reliable-UDP adapter and the TCP server as its two instances,
  what the dispatcher makes of a read, and \<^verbatim>\<open>Dial\<close>.
\<close>

section \<open>Read\<close>

datatype transport_error = ErrClosed | RudpError conn_error | TcpError tcp_error

text \<open>What \<^verbatim>\<open>Read\<close> returns: the connection, \<open>None\<close> for nil, the message and the error.\<close>

type_synonym read_result = "int option \<times> bytes \<times> transport_error option"

text \<open>
  \<^verbatim>\<open>rudpServer.Read\<close>; \<^verbatim>\<open>Server.Read\<close> of the reliable-UDP server returns no handle exactly when its read loop has ended.
\<close>

definition rudpServer_Read :: "server \<Rightarrow> nat option \<Rightarrow> read_result option" where
  "rudpServer_Read s src =
     (case Server_Read s src of
        None \<Rightarrow> None
      | Some None \<Rightarrow> Some (None, [], Some ErrClosed)
      | Some (Some d) \<Rightarrow> Some (Some (uint (dH d)), dData d, map_option RudpError (dErr d)))"

text \<open>\<^verbatim>\<open>TCPServer.Read\<close>: the delivery taken from \<^verbatim>\<open>readCh\<close>, or the closed \<^verbatim>\<open>done\<close>; \<open>None\<close> while that case is not ready.\<close>

definition TCPServer_Read :: "TCPServer \<Rightarrow> tcpDelivery option \<Rightarrow> read_result option" where
  "TCPServer_Read s src =
     (case src of
        Some d \<Rightarrow> Some (Some (tdC d), tdData d, map_option TcpError (tdErr d))
      | None \<Rightarrow> if tsDone s then Some (None, [], Some ErrClosed) else None)"

text \<open>
  What the dispatcher of \<^verbatim>\<open>sched.go\<close> makes of it: the end, a lost connection, or a message. A message without a
  connection, \<open>None\<close> here, is not in the contract.
\<close>

fun read_outcome_of :: "read_result \<Rightarrow> read_outcome option" where
  "read_outcome_of (None, data, Some err) = Some RClosed"
| "read_outcome_of (Some h, data, Some err) = Some (if err = ErrClosed then RClosed else RGone h)"
| "read_outcome_of (Some h, data, None) = Some (RMsg h data)"
| "read_outcome_of (None, data, None) = None"

text \<open>
  The contract of the interface \<^verbatim>\<open>Server\<close>: nil with \<^verbatim>\<open>ErrClosed\<close> once the server is closed and not
  before, and never \<^verbatim>\<open>ErrClosed\<close> with a connection.
\<close>

locale transport_server =
  fixes readf :: "'s \<Rightarrow> 'src \<Rightarrow> read_result option"
    and closed :: "'s \<Rightarrow> bool"
  assumes nil_closed: "readf s x = Some (None, data, err) \<Longrightarrow> closed s \<and> data = [] \<and> err = Some ErrClosed"
    and conn_not_closed: "readf s x = Some (Some h, data, err) \<Longrightarrow> err \<noteq> Some ErrClosed"
    and closed_readable: "closed s \<Longrightarrow> \<exists>x. readf s x = Some (None, [], Some ErrClosed)"
begin

text \<open>The dispatcher stops only when the server has closed, and a closed server can always be read.\<close>

lemma stops_closed: "readf s x = Some r \<Longrightarrow> read_outcome_of r = Some RClosed \<Longrightarrow> closed s"
  using nil_closed [of s x] conn_not_closed [of s x] by (cases r rule: read_outcome_of.cases) (fastforce split: if_splits)+

lemma closed_stops: "closed s \<Longrightarrow> \<exists>x r. readf s x = Some r \<and> read_outcome_of r = Some RClosed"
  using closed_readable by fastforce

text \<open>What the dispatcher is given is always one of its three cases, and an ended connection is never taken for the end.\<close>

lemma outcome_defined: "readf s x = Some r \<Longrightarrow> read_outcome_of r \<noteq> None"
  using nil_closed by (cases r rule: read_outcome_of.cases) auto

lemma error_gone: "readf s x = Some (Some h, data, Some err) \<Longrightarrow> read_outcome_of (Some h, data, Some err) = Some (RGone h)"
  using conn_not_closed [of s x h data "Some err"] by auto

end

interpretation rudps: transport_server rudpServer_Read "\<lambda>s. svLoop s = LDone"
proof
  fix s :: server and x :: "nat option" and data err h
  show "rudpServer_Read s x = Some (None, data, err) \<Longrightarrow> svLoop s = LDone \<and> data = [] \<and> err = Some ErrClosed"
    by (auto simp: rudpServer_Read_def Server_Read_def split: option.splits if_splits list.splits)
  show "rudpServer_Read s x = Some (Some h, data, err) \<Longrightarrow> err \<noteq> Some ErrClosed"
    by (auto simp: rudpServer_Read_def split: option.splits)
  show "svLoop s = LDone \<Longrightarrow> \<exists>x. rudpServer_Read s x = Some (None, [], Some ErrClosed)"
    by (intro exI [of _ None]) (simp add: rudpServer_Read_def Server_Read_def)
qed

interpretation tcpss: transport_server TCPServer_Read tsDone
proof
  fix s :: TCPServer and x data err h
  show "TCPServer_Read s x = Some (None, data, err) \<Longrightarrow> tsDone s \<and> data = [] \<and> err = Some ErrClosed"
    by (auto simp: TCPServer_Read_def split: option.splits if_splits)
  show "TCPServer_Read s x = Some (Some h, data, err) \<Longrightarrow> err \<noteq> Some ErrClosed"
    by (auto simp: TCPServer_Read_def split: option.splits if_splits)
  show "tsDone s \<Longrightarrow> \<exists>x. TCPServer_Read s x = Some (None, [], Some ErrClosed)"
    by (intro exI [of _ None]) (simp add: TCPServer_Read_def)
qed

section \<open>Dial\<close>

datatype transport_client = RudpClient client_st | TcpClient TCPClient

datatype dial_error = SocketFailed | ConnectFailed client_error | UnknownTransport string

text \<open>
  \<open>resolved\<close>, \<open>listened\<close> and \<open>dialled\<close> are what the sockets answer, \<open>evs\<close> is what happens to the new reliable-UDP
  client while \<^verbatim>\<open>NewClient\<close> waits for its handshake; \<open>None\<close> while it still waits.
\<close>

definition Dial :: "string \<Rightarrow> rudpParams option \<Rightarrow> bool \<Rightarrow> bool \<Rightarrow> client_event list \<Rightarrow> bool \<Rightarrow> (dial_error + transport_client) option" where
  "Dial proto p resolved listened evs dialled =
     (if proto = ''rudp'' then
        (case NewClient p resolved listened of
           None \<Rightarrow> Some (Inl SocketFailed)
         | Some c0 \<Rightarrow>
             (case client_run c0 evs of
                Panic \<Rightarrow> None
              | Ret c \<Rightarrow>
                  (case clResult c of
                     None \<Rightarrow> None
                   | Some (Some err) \<Rightarrow> Some (Inl (ConnectFailed err))
                   | Some None \<Rightarrow> Some (Inr (RudpClient c)))))
      else if proto = ''tcp'' then
        (case DialTCP dialled of None \<Rightarrow> Some (Inl SocketFailed) | Some c \<Rightarrow> Some (Inr (TcpClient c)))
      else Some (Inl (UnknownTransport proto)))"

end
