(* ===== verification/Spec2Isabelle.thy ===== *)
theory Spec2Isabelle
  imports Session SchedProps WorkerProps Node Transport
begin

text \<open>
  Verification of rudp-scheduler.
\<close>

end
